(* ===== verification/Ktypes.thy ===== *)
theory Ktypes
  imports Prelude
begin

text \<open>
  The integer types, constants and macros of \<open>include/fynaos/types.h\<close> and
  \<open>include/fynaos/mm.h\<close>: alignment macros, page geometry, page-table indices and entry bits,
  frame flags. Every constant has the width the C expression has.
\<close>

type_synonym u8 = "8 word"
type_synonym u16 = "16 word"
type_synonym u32 = "32 word"
type_synonym u64 = "64 word"
type_synonym phys_addr = u64
type_synonym virt_addr = u64

section \<open>types.h\<close>

text \<open>
  \<open>ALIGN_UP(ADDR, ALIGN)\<close> casts \<open>ALIGN - 1\<close>, computed in the type of \<open>ALIGN\<close>, to
  \<open>uintptr_t\<close>: \<open>align_up_mask\<close> takes that cast value.
\<close>

definition align_up_mask :: "u64 \<Rightarrow> u64 \<Rightarrow> u64" where
  "align_up_mask addr m = (addr + m) AND NOT m"

definition ALIGN_UP :: "u64 \<Rightarrow> u64 \<Rightarrow> u64" where
  "ALIGN_UP addr align = align_up_mask addr (align - 1)"

definition ALIGN_DOWN :: "u64 \<Rightarrow> u64 \<Rightarrow> u64" where
  "ALIGN_DOWN addr align = addr AND NOT (align - 1)"

definition INVALID_ADDRESS :: u64 where
  [kconst]: "INVALID_ADDRESS = - 1"

definition EINVAL :: int where [kconst]: "EINVAL = 22"
definition ENOMEM :: int where [kconst]: "ENOMEM = 12"
definition ENOSYS :: int where [kconst]: "ENOSYS = 38"

section \<open>mm.h\<close>

definition KERNEL_IMAGE_BASE :: u64 where [kconst]: "KERNEL_IMAGE_BASE = 0xFFFFFFFF80000000"

definition KERNEL_DIRECT_BASE :: u64 where
  [kconst]: "KERNEL_DIRECT_BASE = 0xFFFF800000000000"

definition PAGE_SIZE :: u64 where [kconst]: "PAGE_SIZE = 4096"

definition PAGE_SHIFT :: nat where [kconst]: "PAGE_SHIFT = 12"

definition PAGE_MASK :: u64 where [kconst]: "PAGE_MASK = NOT (PAGE_SIZE - 1)"

definition PML4_INDEX :: "u64 \<Rightarrow> u64" where "PML4_INDEX a = drop_bit 39 a AND 0x1FF"
definition PDPT_INDEX :: "u64 \<Rightarrow> u64" where "PDPT_INDEX a = drop_bit 30 a AND 0x1FF"
definition PD_INDEX :: "u64 \<Rightarrow> u64" where "PD_INDEX a = drop_bit 21 a AND 0x1FF"
definition PT_INDEX :: "u64 \<Rightarrow> u64" where "PT_INDEX a = drop_bit 12 a AND 0x1FF"
definition PAGE_OFFSET :: "u64 \<Rightarrow> u64" where "PAGE_OFFSET a = a AND 0xFFF"

definition PAGE_PRESENT :: u64 where [kconst]: "PAGE_PRESENT = push_bit 0 1"
definition PAGE_WRITABLE :: u64 where [kconst]: "PAGE_WRITABLE = push_bit 1 1"
definition PAGE_USER :: u64 where [kconst]: "PAGE_USER = push_bit 2 1"
definition PAGE_PWT :: u64 where [kconst]: "PAGE_PWT = push_bit 3 1"
definition PAGE_PCD :: u64 where [kconst]: "PAGE_PCD = push_bit 4 1"
definition PAGE_ACCESSED :: u64 where [kconst]: "PAGE_ACCESSED = push_bit 5 1"
definition PAGE_DIRTY :: u64 where [kconst]: "PAGE_DIRTY = push_bit 6 1"
definition PAGE_HUGE :: u64 where [kconst]: "PAGE_HUGE = push_bit 7 1"
definition PAGE_PAT :: u64 where [kconst]: "PAGE_PAT = push_bit 7 1"
definition PAGE_GLOBAL :: u64 where [kconst]: "PAGE_GLOBAL = push_bit 8 1"
definition PAGE_NO_EXECUTE :: u64 where [kconst]: "PAGE_NO_EXECUTE = push_bit 63 1"

definition FRAME_ALLOCATED :: u32 where [kconst]: "FRAME_ALLOCATED = 1"
definition FRAME_RESERVED :: u32 where [kconst]: "FRAME_RESERVED = 2"
definition FRAME_BAD :: u32 where [kconst]: "FRAME_BAD = 4"

definition FRAME_MAX_ORDER :: int where [kconst]: "FRAME_MAX_ORDER = 11"

text \<open>\<open>struct phys_region\<close>, a range of physical memory.\<close>

record phys_region =
  region_addr :: phys_addr
  region_len :: u64

section \<open>Alignment\<close>

lemma mask_eq_pow2_minus_1: "(2 ^ n :: 'a::len word) - 1 = mask n"
  by (simp add: mask_eq_exp_minus_1)

lemma mask_numerals: "(0xFFF :: 'a::len word) = mask 12" "(0x1FF :: 'a::len word) = mask 9"
  by (simp_all add: mask_eq_exp_minus_1)

lemma unat_mask:
  assumes "n \<le> LENGTH('a)"
  shows "unat (mask n :: 'a::len word) = 2 ^ n - 1"
proof -
  have "unat (mask n :: 'a word) = take_bit LENGTH('a) (mask n)"
    by (metis of_nat_mask_eq unat_of_nat take_bit_eq_mod)
  also have "\<dots> = (mask n :: nat)"
    using assms by (simp add: take_bit_of_mask min_def)
  also have "\<dots> = 2 ^ n - 1" by (rule mask_eq_exp_minus_1)
  finally show ?thesis .
qed

lemma unat_align_up_mask:
  assumes "unat a + (2 ^ n - 1) < 2 ^ 64" and "n \<le> 64"
  shows "unat (align_up_mask a (mask n)) = (unat a + (2 ^ n - 1)) div 2 ^ n * 2 ^ n"
proof -
  have "unat (a + mask n) = unat a + (2 ^ n - 1)"
    using assms by (subst unat_add_nowrap) (auto simp: unat_mask)
  then show ?thesis
    by (simp add: align_up_mask_def unat_and_not_mask)
qed

lemma nat_round_up_ge: "x \<le> (x + (2 ^ n - 1)) div 2 ^ n * 2 ^ n" for x :: nat
proof -
  have "x + (2 ^ n - 1) = (x + (2 ^ n - 1)) div 2 ^ n * 2 ^ n + (x + (2 ^ n - 1)) mod 2 ^ n"
    by (simp add: div_mult_mod_eq)
  moreover have "(x + (2 ^ n - 1)) mod 2 ^ n \<le> 2 ^ n - 1"
    by (metis One_nat_def Suc_pred mod_less_divisor less_Suc_eq_le zero_less_numeral zero_less_power)
  ultimately show ?thesis by linarith
qed

lemma nat_round_up_le: "(x + (2 ^ n - 1)) div 2 ^ n * 2 ^ n \<le> x + (2 ^ n - 1)" for x :: nat
  by (rule div_times_less_eq_dividend)

end
