(* ===== verification/Errno.thy ===== *)
theory Errno
  imports Ktypes
begin

text \<open>
  The error numbers of \<open>include/fynaos/types.h\<close>. Functions return \<open>0\<close> for success and a negated error number
  otherwise; the numbers are positive and different, so a result tells which.
\<close>

definition errno_table :: "(string \<times> int) list" where
  "errno_table = [
    (''EPERM'', 1), (''ENOENT'', 2), (''ESRCH'', 3), (''EINTR'', 4), (''EIO'', 5), (''ENXIO'', 6), (''E2BIG'', 7), (''ENOEXEC'', 8),
    (''EBADF'', 9), (''ECHILD'', 10), (''EAGAIN'', 11), (''ENOMEM'', 12), (''EACCES'', 13), (''EFAULT'', 14), (''ENOTBLK'', 15),
    (''EBUSY'', 16), (''EEXIST'', 17), (''EXDEV'', 18), (''ENODEV'', 19), (''ENOTDIR'', 20), (''EISDIR'', 21), (''EINVAL'', 22),
    (''ENFILE'', 23), (''EMFILE'', 24), (''ENOTTY'', 25), (''ETXTBSY'', 26), (''EFBIG'', 27), (''ENOSPC'', 28), (''ESPIPE'', 29),
    (''EROFS'', 30), (''EMLINK'', 31), (''EPIPE'', 32), (''EDOM'', 33), (''ERANGE'', 34), (''EDEADLK'', 35), (''ENAMETOOLONG'', 36),
    (''ENOLCK'', 37), (''ENOSYS'', 38), (''ENOTEMPTY'', 39), (''ELOOP'', 40), (''ENOMSG'', 42), (''EIDRM'', 43), (''ECHRNG'', 44),
    (''EL2NSYNC'', 45), (''EL3HLT'', 46), (''EL3RST'', 47), (''ELNRNG'', 48), (''EUNATCH'', 49), (''ENOCSI'', 50), (''EL2HLT'', 51),
    (''EBADE'', 52), (''EBADR'', 53), (''EXFULL'', 54), (''ENOANO'', 55), (''EBADRQC'', 56), (''EBADSLT'', 57), (''EDEADLOCK'', 35),
    (''EBFONT'', 59), (''ENOSTR'', 60), (''ENODATA'', 61), (''ETIME'', 62), (''ENOSR'', 63), (''ENONET'', 64), (''ENOPKG'', 65),
    (''EREMOTE'', 66), (''ENOLINK'', 67), (''EADV'', 68), (''ESRMNT'', 69), (''ECOMM'', 70), (''EPROTO'', 71), (''EMULTIHOP'', 72),
    (''EDOTDOT'', 73), (''EBADMSG'', 74), (''EOVERFLOW'', 75), (''ENOTUNIQ'', 76), (''EBADFD'', 77), (''EREMCHG'', 78),
    (''ELIBACC'', 79), (''ELIBBAD'', 80), (''ELIBSCN'', 81), (''ELIBMAX'', 82), (''ELIBEXEC'', 83), (''EILSEQ'', 84),
    (''ERESTART'', 85), (''ESTRPIPE'', 86), (''EUSERS'', 87), (''ENOTSOCK'', 88), (''EDESTADDRREQ'', 89), (''EMSGSIZE'', 90),
    (''EPROTOTYPE'', 91), (''ENOPROTOOPT'', 92), (''EPROTONOSUPPORT'', 93), (''ESOCKTNOSUPPORT'', 94), (''EOPNOTSUPP'', 95),
    (''EPFNOSUPPORT'', 96), (''EAFNOSUPPORT'', 97), (''EADDRINUSE'', 98), (''EADDRNOTAVAIL'', 99), (''ENETDOWN'', 100),
    (''ENETUNREACH'', 101), (''ENETRESET'', 102), (''ECONNABORTED'', 103), (''ECONNRESET'', 104), (''ENOBUFS'', 105),
    (''EISCONN'', 106), (''ENOTCONN'', 107), (''ESHUTDOWN'', 108), (''ETOOMANYREFS'', 109), (''ETIMEDOUT'', 110),
    (''ECONNREFUSED'', 111), (''EHOSTDOWN'', 112), (''EHOSTUNREACH'', 113), (''EALREADY'', 114), (''EINPROGRESS'', 115)]"

definition errno :: "string \<Rightarrow> int option" where
  "errno name = map_of errno_table name"

text \<open>\<open>EDEADLOCK\<close> is a second name of \<open>EDEADLK\<close>; all other numbers differ.\<close>

lemma errno_names_distinct: "distinct (map fst errno_table)"
  by (simp add: errno_table_def)

lemma errno_distinct: "distinct (map snd (filter (\<lambda>e. fst e \<noteq> ''EDEADLOCK'') errno_table))"
  by (simp add: errno_table_def)

lemma errno_bounds: "e \<in> set errno_table \<Longrightarrow> 1 \<le> snd e \<and> snd e \<le> 115"
  by (auto simp: errno_table_def)

lemma errno_result: "e \<in> set errno_table \<Longrightarrow> - snd e < 0"
  using errno_bounds [of e] by simp

lemma errno_used: "errno ''EINVAL'' = Some EINVAL" "errno ''ENOMEM'' = Some ENOMEM" "errno ''ENOSYS'' = Some ENOSYS"
  by (simp_all add: errno_def errno_table_def EINVAL_def ENOMEM_def ENOSYS_def)

end
