(* ===== verification/Kmem.thy ===== *)
theory Kmem
  imports Ktypes
begin

text \<open>
  Memory as the C code sees it through the direct map: a byte per 64-bit address, with
  little-endian loads and stores of words of any byte width, and the two routines of
  \<open>rtl/string.c\<close> together with \<open>zero_page\<close> of \<open>mm/pmm.c\<close>. The locale \<open>word_memory\<close> is the
  interface the page tables, the pool and the framebuffer rely on; it is interpreted on
  the 64-bit and the 32-bit accesses.
\<close>

type_synonym mem = "u64 \<Rightarrow> u8"

section \<open>Loads and stores\<close>

primrec load_bytes :: "nat \<Rightarrow> mem \<Rightarrow> u64 \<Rightarrow> 'a::len word" where
  "load_bytes 0 m a = 0"
| "load_bytes (Suc n) m a = push_bit 8 (load_bytes n m (a + 1)) OR ucast (m a)"

definition load_word :: "mem \<Rightarrow> u64 \<Rightarrow> 'a::len word" where
  "load_word m a = load_bytes (LENGTH('a) div 8) m a"

definition store_word :: "mem \<Rightarrow> u64 \<Rightarrow> 'a::len word \<Rightarrow> mem" where
  "store_word m a v = (\<lambda>x. if unat (x - a) < LENGTH('a) div 8
     then ucast (drop_bit (8 * unat (x - a)) v) else m x)"

abbreviation load64 :: "mem \<Rightarrow> u64 \<Rightarrow> u64" where "load64 \<equiv> load_word"
abbreviation store64 :: "mem \<Rightarrow> u64 \<Rightarrow> u64 \<Rightarrow> mem" where "store64 \<equiv> store_word"
abbreviation load32 :: "mem \<Rightarrow> u64 \<Rightarrow> u32" where "load32 \<equiv> load_word"
abbreviation store32 :: "mem \<Rightarrow> u64 \<Rightarrow> u32 \<Rightarrow> mem" where "store32 \<equiv> store_word"

section \<open>string.c\<close>

text \<open>\<open>while (len--) *d++ = (uint8_t)val;\<close>\<close>

primrec memset_loop :: "nat \<Rightarrow> mem \<Rightarrow> u64 \<Rightarrow> u8 \<Rightarrow> mem" where
  "memset_loop 0 m d v = m"
| "memset_loop (Suc n) m d v = memset_loop n (m(d := v)) (d + 1) v"

definition memset :: "mem \<Rightarrow> u64 \<Rightarrow> 32 word \<Rightarrow> u64 \<Rightarrow> u64 \<times> mem" where
  "memset m dst val len = (dst, memset_loop (unat len) m dst (ucast val))"

text \<open>\<open>for (size_t i = 0; i < c; i++) dst[i] = src[i];\<close>, from \<open>i\<close> on with \<open>n\<close> rounds left.\<close>

primrec memcpy_loop :: "nat \<Rightarrow> u64 \<Rightarrow> mem \<Rightarrow> u64 \<Rightarrow> u64 \<Rightarrow> mem" where
  "memcpy_loop 0 i m dst src = m"
| "memcpy_loop (Suc n) i m dst src = memcpy_loop n (i + 1) (m(dst + i := m (src + i))) dst src"

definition memcpy :: "mem \<Rightarrow> u64 \<Rightarrow> u64 \<Rightarrow> u64 \<Rightarrow> u64 \<times> mem" where
  "memcpy m dst src c = (dst, memcpy_loop (unat c) 0 m dst src)"

text \<open>
  \<open>zero_page\<close> of \<open>mm/pmm.c\<close>, and the direct map of \<open>mm/vmm.c\<close>. The processor refuses a write to an address whose upper bits are not all equal
  (a general-protection fault), and the addresses next to \<open>INVALID_ADDRESS + KERNEL_DIRECT_BASE\<close> are such. \<open>zeroed_page\<close> is memory after the loop.
\<close>

definition phys_to_virt :: "phys_addr \<Rightarrow> u64" where
  "phys_to_virt p = p + KERNEL_DIRECT_BASE"

definition canonical :: "u64 \<Rightarrow> bool" where
  "canonical a \<longleftrightarrow> drop_bit 47 a = 0 \<or> drop_bit 47 a = mask 17"

definition zeroed_page :: "mem \<Rightarrow> phys_addr \<Rightarrow> mem" where
  "zeroed_page m a = snd (memset m (a + KERNEL_DIRECT_BASE) 0 PAGE_SIZE)"

definition zero_page :: "mem \<Rightarrow> phys_addr \<Rightarrow> mem res" where
  "zero_page m a =
     (if canonical (a + KERNEL_DIRECT_BASE) \<and> canonical (a + KERNEL_DIRECT_BASE + (PAGE_SIZE - 1)) then Inr (zeroed_page m a) else Inl Fault)"

lemma zero_page_bind: "rbind (zero_page m a) f = rbind (zero_page m a) (\<lambda>_. f (zeroed_page m a))"
  by (simp add: zero_page_def)

lemma zero_page_Inr: "zero_page m a = Inr m' \<Longrightarrow> m' = zeroed_page m a"
  by (simp add: zero_page_def split: if_splits)

section \<open>The word-access interface\<close>

text \<open>\<open>apart n a b\<close>: the \<open>n\<close> bytes at \<open>a\<close> and the \<open>n\<close> bytes at \<open>b\<close> do not overlap.\<close>

definition apart :: "nat \<Rightarrow> u64 \<Rightarrow> u64 \<Rightarrow> bool" where
  "apart n a b \<longleftrightarrow> n \<le> unat (b - a) \<and> n \<le> unat (a - b)"

locale word_memory =
  fixes load :: "mem \<Rightarrow> u64 \<Rightarrow> 'w"
    and store :: "mem \<Rightarrow> u64 \<Rightarrow> 'w \<Rightarrow> mem"
    and sz :: nat
  assumes sz_pos: "0 < sz"
    and load_store_same: "load (store m a v) a = v"
    and load_store_apart: "apart sz a b \<Longrightarrow> load (store m a v) b = load m b"
    and store_byte_other: "sz \<le> unat (x - a) \<Longrightarrow> store m a v x = m x"
begin

lemma load_after_store:
  "a = b \<or> apart sz a b \<Longrightarrow> load (store m a v) b = (if a = b then v else load m b)"
  by (auto simp: load_store_same load_store_apart)

end

section \<open>Loads after stores\<close>

lemma bit_load_bytes:
  "bit (load_bytes n m a :: 'a::len word) k \<longleftrightarrow>
     k < LENGTH('a) \<and> k < 8 * n \<and> bit (m (a + of_nat (k div 8))) (k mod 8)"
proof (induction n arbitrary: a k)
  case 0
  then show ?case by simp
next
  case (Suc n)
  show ?case
  proof (cases "k < 8")
    case True
    then show ?thesis by (simp add: bit_simps)
  next
    case False
    then have "k div 8 = Suc ((k - 8) div 8)" "k mod 8 = (k - 8) mod 8"
      by (simp_all add: le_div_geq le_mod_geq)
    moreover have "\<not> bit (m a) k"
      using False bit_imp_le_length [of "m a" k] by auto
    ultimately show ?thesis
      using False by (auto simp: bit_simps Suc.IH algebra_simps)
  qed
qed

lemma bit_load_word:
  "8 dvd LENGTH('a) \<Longrightarrow> bit (load_word m a :: 'a::len word) k \<longleftrightarrow>
     k < LENGTH('a) \<and> bit (m (a + of_nat (k div 8))) (k mod 8)"
  by (auto simp: load_word_def bit_load_bytes)

lemma load_word_eqI:
  assumes "8 dvd LENGTH('a)" and "LENGTH('a) \<le> 64"
    and "\<And>x. unat (x - a) < LENGTH('a) div 8 \<Longrightarrow> m x = m' x"
  shows "(load_word m a :: 'a::len word) = load_word m' a"
proof (rule bit_word_eqI)
  fix k assume k: "k < LENGTH('a)"
  with assms(1,2) have "unat (of_nat (k div 8) :: u64) < LENGTH('a) div 8"
    by (auto simp: unat_of_nat take_bit_nat_eq_self elim!: dvdE)
  then have "m (a + of_nat (k div 8)) = m' (a + of_nat (k div 8))"
    by (intro assms(3)) simp
  with assms(1) k show "bit (load_word m a :: 'a word) k \<longleftrightarrow> bit (load_word m' a :: 'a word) k"
    by (simp add: bit_load_word)
qed

lemma load_store_word_same:
  assumes "8 dvd LENGTH('a)" and "LENGTH('a) \<le> 64"
  shows "load_word (store_word m a v) a = (v :: 'a::len word)"
proof (rule bit_word_eqI)
  fix k assume k: "k < LENGTH('a)"
  with assms have "unat (of_nat (k div 8) :: u64) = k div 8" and "k div 8 < LENGTH('a) div 8"
    by (auto simp: unat_of_nat take_bit_nat_eq_self elim!: dvdE)
  with assms(1) k show "bit (load_word (store_word m a v) a :: 'a word) k \<longleftrightarrow> bit v k"
    by (simp add: bit_load_word store_word_def bit_simps)
qed

lemma apart_bytes:
  assumes "apart n a b" and "unat (x - b) < n"
  shows "n \<le> unat (x - a)"
proof (rule ccontr)
  assume "\<not> n \<le> unat (x - a)"
  then have lt: "unat (x - a) < n" by simp
  show False
  proof (cases "x - b \<le> x - a")
    case True
    have "unat (b - a) = unat (x - a) - unat (x - b)"
      using unat_sub [OF True] by simp
    with lt assms(1) show False unfolding apart_def by linarith
  next
    case False
    then have "x - a \<le> x - b" by simp
    from unat_sub [OF this] have "unat (a - b) = unat (x - b) - unat (x - a)" by simp
    with assms show False unfolding apart_def by linarith
  qed
qed

lemma load_store_word_apart:
  assumes "8 dvd LENGTH('a)" and "LENGTH('a) \<le> 64" and "apart (LENGTH('a) div 8) a b"
  shows "load_word (store_word m a (v :: 'a::len word)) b = (load_word m b :: 'a word)"
  using assms(1,2) apart_bytes [OF assms(3)]
  by (intro load_word_eqI) (auto simp: store_word_def not_less [symmetric])

lemma unat_offset_diff:
  assumes "x < 2 ^ 63" and "y < 2 ^ 63"
  shows "unat ((b + of_nat x) - (b + of_nat y) :: u64) = (if y \<le> x then x - y else 2 ^ 64 - (y - x))"
proof -
  have ux: "unat (of_nat x :: u64) = x" "unat (of_nat y :: u64) = y"
    using assms by (simp_all add: unat_of_nat_small)
  show ?thesis
  proof (cases "y \<le> x")
    case True
    then have "(of_nat y :: u64) \<le> of_nat x" using ux by (simp add: word_le_nat_alt)
    from unat_sub [OF this] True ux show ?thesis by simp
  next
    case False
    have z: "(of_nat (2 ^ 64) :: u64) = 0" by (simp only: of_nat_power) simp
    have "(of_nat (2 ^ 64 + x - y) :: u64) = of_nat (2 ^ 64 + x) - of_nat y"
      using assms by (intro of_nat_diff) simp
    also have "\<dots> = of_nat x - of_nat y"
      unfolding of_nat_add z by simp
    finally have "unat (of_nat x - of_nat y :: u64) = 2 ^ 64 + x - y"
      using unat_of_nat_small [of "2 ^ 64 + x - y", where 'a = 64] False by simp
    with False show ?thesis by simp
  qed
qed

lemma apart_offsets:
  assumes "x < 2 ^ 63" and "y < 2 ^ 63" and "n \<le> 2 ^ 63" and "x + n \<le> y \<or> y + n \<le> x"
  shows "apart n (b + of_nat x) (b + of_nat y)"
  using assms unfolding apart_def unat_offset_diff [OF assms(1,2)] unat_offset_diff [OF assms(2,1)]
  by auto
interpretation m64: word_memory load64 store64 8
  by unfold_locales
    (simp_all add: load_store_word_same load_store_word_apart, simp add: store_word_def)

interpretation m32: word_memory load32 store32 4
  by unfold_locales
    (simp_all add: load_store_word_same load_store_word_apart, simp add: store_word_def)

section \<open>Words at offsets from a base\<close>

lemma apart_words:
  assumes "o1 + 8 \<le> o2 \<or> o2 + 8 \<le> o1" and "o1 < 8192" and "o2 < 8192"
  shows "apart 8 (B + of_nat o1) (B + of_nat o2)"
  using assms by (intro apart_offsets) auto

lemma load_store_offset:
  assumes "o1 = o2 \<or> o1 + 8 \<le> o2 \<or> o2 + 8 \<le> o1" and "o1 < 8192" and "o2 < 8192"
  shows "load64 (store64 m (B + of_nat o1) v) (B + of_nat o2) = (if o1 = o2 then v else load64 m (B + of_nat o2))"
  using assms apart_words [of o1 o2 B] by (auto simp: m64.load_store_same m64.load_store_apart)

lemma load_offset_cong:
  assumes "\<And>j. j < 8 \<Longrightarrow> m' (B + of_nat (off + j)) = m (B + of_nat (off + j))"
  shows "load64 m' (B + of_nat off) = load64 m (B + of_nat off)"
proof (rule load_word_eqI)
  fix x assume x: "unat (x - (B + of_nat off)) < LENGTH(64) div 8"
  have "x = B + of_nat (off + unat (x - (B + of_nat off)))" by simp
  with assms [of "unat (x - (B + of_nat off))"] x show "m' x = m x" by simp
qed simp_all

lemma store_offset_byte:
  assumes "k < o1 \<or> o1 + 8 \<le> k" and "o1 < 8192" and "k < 2 ^ 64"
  shows "store64 m (B + of_nat o1) v (B + of_nat k) = m (B + of_nat k)"
proof (rule m64.store_byte_other)
  show "8 \<le> unat (B + of_nat k - (B + of_nat o1))"
  proof (cases "k < o1")
    case True
    then show ?thesis using assms by (subst unat_offset_diff) auto
  next
    case False
    then have "(of_nat o1 :: u64) \<le> of_nat k"
      using assms by (simp add: word_le_nat_alt unat_of_nat_small)
    from unat_sub [OF this] False assms show ?thesis by (simp add: unat_of_nat_small)
  qed
qed

section \<open>memset, memcpy and zero_page\<close>

lemma memset_loop_eq:
  "n \<le> 2 ^ 64 \<Longrightarrow> memset_loop n m d v x = (if unat (x - d) < n then v else m x)"
proof (induction n arbitrary: m d)
  case 0
  then show ?case by simp
next
  case (Suc n)
  show ?case
  proof (cases "x = d")
    case True
    have "unat (- 1 :: u64) = 2 ^ 64 - 1" by (simp add: unsigned_minus_1_eq_mask mask_eq_exp_minus_1)
    with Suc True show ?thesis by simp
  next
    case False
    then have "1 \<le> x - d" by (simp add: word_le_nat_alt unat_gt_0 Suc_leI)
    then have "unat (x - d - 1) = unat (x - d) - 1" "0 < unat (x - d)"
      by (simp_all add: unat_sub word_le_nat_alt)
    then have "unat (x - (d + 1)) = unat (x - d) - 1" by (simp add: diff_diff_eq)
    with Suc False \<open>0 < unat (x - d)\<close> show ?thesis by auto
  qed
qed

lemma zero_page_byte:
  "zeroed_page m a x = (if unat (x - phys_to_virt a) < 4096 then 0 else m x)"
  by (simp add: zeroed_page_def memset_def memset_loop_eq phys_to_virt_def PAGE_SIZE_def)

lemma memcpy_loop_eq:
  assumes "unat i + n \<le> 2 ^ 64" and "dst = src \<or> unat i + n \<le> unat (dst - src)"
  shows "memcpy_loop n i m dst src x =
    (if unat i \<le> unat (x - dst) \<and> unat (x - dst) < unat i + n then m (src + (x - dst)) else m x)"
  using assms
proof (induction n arbitrary: i m)
  case 0
  then show ?case by auto
next
  case (Suc n)
  let ?m = "m(dst + i := m (src + i))" and ?k = "unat (x - dst)"
  show ?case
  proof (cases "n = 0")
    case True
    have "x = dst + i \<longleftrightarrow> ?k = unat i"
      by (metis add_diff_cancel_left' diff_add_cancel add.commute unsigned_word_eqI)
    with True show ?thesis by (auto simp: le_less_Suc_eq)
  next
    case False
    then have i1: "unat (i + 1) = unat i + 1"
      using Suc.prems(1) by (simp add: unat_word_ariths)
    have src: "?m (src + (x - dst)) = m (src + (x - dst))" if "unat i < ?k" "?k \<le> unat i + n"
    proof (cases "src + (x - dst) = dst + i")
      case True
      then have eq: "dst - src = (x - dst) - i" by (simp add: algebra_simps)
      have "unat (dst - src) = ?k - unat i"
        unfolding eq using that(1) by (intro unat_sub) (simp add: word_le_nat_alt)
      with that Suc.prems(2) show ?thesis by (cases "dst = src") auto
    qed simp
    have "x = dst + i \<longleftrightarrow> ?k = unat i"
      by (metis add_diff_cancel_left' diff_add_cancel add.commute unsigned_word_eqI)
    then have at: "?m x = (if ?k = unat i then m (src + i) else m x)" and
      same: "?k = unat i \<Longrightarrow> src + i = src + (x - dst)" by auto
    have "memcpy_loop n (i + 1) ?m dst src x =
      (if unat i + 1 \<le> ?k \<and> ?k < unat i + 1 + n then ?m (src + (x - dst)) else ?m x)"
      by (rule Suc.IH [of "i + 1" ?m, unfolded i1]) (use Suc.prems in auto)
    also have "\<dots> = (if unat i \<le> ?k \<and> ?k < unat i + Suc n then m (src + (x - dst)) else m x)"
      using src same unfolding at by (cases "?k = unat i") auto
    finally show ?thesis by simp
  qed
qed

lemma load_word_zero_page:
  assumes "8 dvd LENGTH('a)" and "LENGTH('a) \<le> 64"
    and "unat (x - phys_to_virt a) + LENGTH('a) div 8 \<le> 4096"
  shows "load_word (zeroed_page m a) x = (0 :: 'a::len word)"
proof -
  have "load_word (zeroed_page m a) x = (load_word (\<lambda>_. 0) x :: 'a word)"
  proof (rule load_word_eqI [OF assms(1,2)])
    fix y assume y: "unat (y - x) < LENGTH('a) div 8"
    have "unat ((x - phys_to_virt a) + (y - x)) = unat (x - phys_to_virt a) + unat (y - x)"
      using assms(3) y by (intro unat_add_nowrap) simp
    then show "zeroed_page m a y = 0"
      using assms(3) y by (simp add: zero_page_byte)
  qed
  also have "\<dots> = 0"
    using assms(1) by (intro bit_word_eqI) (simp add: bit_load_word)
  finally show ?thesis .
qed

lemma load_word_zero_page_other:
  assumes "8 dvd LENGTH('a)" and "LENGTH('a) \<le> 64"
    and "\<And>y. unat (y - x) < LENGTH('a) div 8 \<Longrightarrow> 4096 \<le> unat (y - phys_to_virt a)"
  shows "load_word (zeroed_page m a) x = (load_word m x :: 'a::len word)"
  using assms by (intro load_word_eqI) (auto simp: zero_page_byte not_less [symmetric])

end
