(* ===== verification/Pmm.thy ===== *)
theory Pmm
  imports Boot_Alloc
begin

text \<open>
  The physical frame allocator of \<open>mm/pmm.c\<close>, a binary buddy allocator: the frame array
  and the free lists as a record, and one definition per function of the file. Indices into
  the frame array are page indices; they come from addresses shifted right by
  \<open>PAGE_SHIFT\<close>, so they stay below \<open>2^52\<close>, index arithmetic does not wrap and they are
  modelled as naturals. A \<open>struct frame *\<close> is the index of its frame, \<open>NULL\<close> is \<open>None\<close>.
  Reading or writing outside the frame array or the array of free lists is a \<open>Fault\<close>.
\<close>

record frame =
  f_next :: "nat option"
  f_flags :: u32
  f_order :: int

record pmm =
  mm_frames_ptr :: u64
  mm_frames :: "nat \<Rightarrow> frame"
  mm_frames_count :: nat
  mm_free_region :: "int \<Rightarrow> nat option"

section \<open>Array accesses\<close>

definition frame_at :: "nat \<Rightarrow> pmm \<Rightarrow> frame res" where
  "frame_at i s = (if i < mm_frames_count s then Inr (mm_frames s i) else Inl Fault)"

definition upd_frame :: "nat \<Rightarrow> (frame \<Rightarrow> frame) \<Rightarrow> pmm \<Rightarrow> pmm res" where
  "upd_frame i f s = (if i < mm_frames_count s
     then Inr (s\<lparr>mm_frames := (mm_frames s)(i := f (mm_frames s i))\<rparr>) else Inl Fault)"

definition region_at :: "int \<Rightarrow> pmm \<Rightarrow> nat option res" where
  "region_at k s = (if 0 \<le> k \<and> k \<le> FRAME_MAX_ORDER then Inr (mm_free_region s k) else Inl Fault)"

definition set_region :: "int \<Rightarrow> nat option \<Rightarrow> pmm \<Rightarrow> pmm res" where
  "set_region k v s = (if 0 \<le> k \<and> k \<le> FRAME_MAX_ORDER
     then Inr (s\<lparr>mm_free_region := (mm_free_region s)(k := v)\<rparr>) else Inl Fault)"

definition deref :: "'a option \<Rightarrow> 'a res" where
  "deref p = (case p of None \<Rightarrow> Inl Fault | Some x \<Rightarrow> Inr x)"

section \<open>Initialisation\<close>

definition reserved_frame :: frame where
  "reserved_frame = \<lparr>f_next = None, f_flags = FRAME_RESERVED, f_order = - 1\<rparr>"

definition init_frames :: "phys_addr \<Rightarrow> boot_state \<Rightarrow> pmm \<Rightarrow> (bool \<times> boot_state \<times> pmm) res" where
  "init_frames limit b s =
     (let count = drop_bit PAGE_SHIFT limit in
      rbind (alloc_boot_memory (count * 16) 16 b) (\<lambda>(ptr, b1).
      let s1 = s\<lparr>mm_frames_count := unat count, mm_frames_ptr := ptr\<rparr>;
          s2 = s1\<lparr>mm_frames := fold (\<lambda>i fr. fr(i := reserved_frame)) [0..<unat count] (mm_frames s1)\<rparr>
      in Inr (ptr \<noteq> 0, b1, s2)))"

function unreserve_frame_region :: "nat \<Rightarrow> nat \<Rightarrow> pmm \<Rightarrow> pmm res" where
  "unreserve_frame_region beg limit s =
     (if beg < limit then
        rbind (upd_frame beg (\<lambda>f. f\<lparr>f_flags := f_flags f AND NOT FRAME_RESERVED\<rparr>) s) (\<lambda>s1.
        unreserve_frame_region (beg + 1) limit s1)
      else Inr s)"
  by pat_completeness auto
termination
  by (relation "measure (\<lambda>(beg, limit, s). limit - beg)") auto

text \<open>The loop \<open>for (order = FRAME_MAX_ORDER; order >= 0; order--)\<close>, with \<open>n\<close> orders still to try.\<close>

primrec max_order_from :: "nat \<Rightarrow> nat \<Rightarrow> nat \<Rightarrow> nat" where
  "max_order_from 0 beg limit = 0"
| "max_order_from (Suc n) beg limit =
     (if beg AND (2 ^ n - 1) \<noteq> 0 then max_order_from n beg limit
      else if beg + 2 ^ n \<ge> limit then max_order_from n beg limit
      else n)"

definition get_max_order :: "nat \<Rightarrow> nat \<Rightarrow> nat" where
  "get_max_order beg limit = max_order_from (nat FRAME_MAX_ORDER + 1) beg limit"

function init_buddy_allocator :: "nat \<Rightarrow> nat \<Rightarrow> pmm \<Rightarrow> pmm res" where
  "init_buddy_allocator beg limit s =
     (if beg < limit then
        let order = get_max_order beg limit in
        rbind (upd_frame beg (\<lambda>f. f\<lparr>f_order := int order\<rparr>) s) (\<lambda>s1.
        rbind (region_at (int order) s1) (\<lambda>head.
        rbind (upd_frame beg (\<lambda>f. f\<lparr>f_next := head\<rparr>) s1) (\<lambda>s2.
        rbind (set_region (int order) (Some beg) s2) (\<lambda>s3.
        init_buddy_allocator (beg + 2 ^ order) limit s3))))
      else Inr s)"
  by pat_completeness auto
termination
  by (relation "measure (\<lambda>(beg, limit, s). limit - beg)") (auto simp: diff_less_mono2)

section \<open>Free lists\<close>

text \<open>
  The search of \<open>remove_frame_from_list\<close>. \<open>fuel\<close> is the number of \<open>cur->next\<close> steps: a list
  without a cycle has at most \<open>mm_frames_count\<close> frames, so a search that takes more
  steps never ends.
\<close>

fun find_frame :: "nat \<Rightarrow> nat \<Rightarrow> nat option \<Rightarrow> nat option \<Rightarrow> pmm \<Rightarrow> (nat option \<times> nat option) res" where
  "find_frame fuel frame None prev s = Inr (None, prev)"
| "find_frame 0 frame (Some cur) prev s =
     (if cur = frame then Inr (Some cur, prev) else Inl Spin)"
| "find_frame (Suc fuel) frame (Some cur) prev s =
     (if cur = frame then Inr (Some cur, prev)
      else rbind (frame_at cur s) (\<lambda>f. find_frame fuel frame (f_next f) (Some cur) s))"

definition remove_frame_from_list :: "nat \<Rightarrow> pmm \<Rightarrow> pmm res" where
  "remove_frame_from_list frame s =
     rbind (frame_at frame s) (\<lambda>f.
     rbind (region_at (f_order f) s) (\<lambda>head.
     rbind (find_frame (mm_frames_count s) frame head None s) (\<lambda>(cur, prev).
     case cur of
       None \<Rightarrow> Inl (Panic ''Trying to remove not existing frame in list'')
     | Some c \<Rightarrow>
         rbind (frame_at c s) (\<lambda>fc.
         case prev of
           Some p \<Rightarrow> upd_frame p (\<lambda>g. g\<lparr>f_next := f_next fc\<rparr>) s
         | None \<Rightarrow> set_region (f_order f) (f_next fc) s))))"

definition divide_buddy :: "int \<Rightarrow> pmm \<Rightarrow> pmm res" where
  "divide_buddy order s =
     rbind (region_at order s) (\<lambda>head.
     rbind (deref head) (\<lambda>frame.
     rbind (guard (1 \<le> order) Fault) (\<lambda>_.
     let buddy = frame + 2 ^ nat (order - 1) in
     rbind (frame_at frame s) (\<lambda>f.
     rbind (set_region order (f_next f) s) (\<lambda>s1.
     rbind (upd_frame buddy (\<lambda>g. g\<lparr>f_order := order - 1\<rparr>) s1) (\<lambda>s2.
     rbind (upd_frame frame (\<lambda>g. g\<lparr>f_order := order - 1\<rparr>) s2) (\<lambda>s3.
     rbind (frame_at frame s3) (\<lambda>f3.
     rbind (upd_frame buddy (\<lambda>g. g\<lparr>f_flags := f_flags f3\<rparr>) s3) (\<lambda>s4.
     rbind (region_at (order - 1) s4) (\<lambda>head1.
     rbind (upd_frame buddy (\<lambda>g. g\<lparr>f_next := head1\<rparr>) s4) (\<lambda>s5.
     rbind (upd_frame frame (\<lambda>g. g\<lparr>f_next := Some buddy\<rparr>) s5) (\<lambda>s6.
     set_region (order - 1) (Some frame) s6))))))))))))"

lemma upd_frame_count: "upd_frame i f s = Inr s' \<Longrightarrow> mm_frames_count s' = mm_frames_count s"
  by (auto simp: upd_frame_def split: if_splits)

lemma remove_frame_order:
  assumes "remove_frame_from_list i s = Inr s'"
  shows "f_order (mm_frames s' j) = f_order (mm_frames s j)"
  using assms
  by (auto simp: remove_frame_from_list_def upd_frame_def set_region_def
      split: option.splits if_splits)

section \<open>Merging\<close>

text \<open>
  The loop of \<open>merge_buddy\<close>, from the frame it has reached. A negative order would be a
  negative shift count, hence the guard.
\<close>

function merge_loop :: "nat \<Rightarrow> pmm \<Rightarrow> (nat \<times> pmm) res" where
  "merge_loop frame s =
     rbind (frame_at frame s) (\<lambda>f.
     if f_order f < FRAME_MAX_ORDER then
       rbind (guard (0 \<le> f_order f) Fault) (\<lambda>_.
       let buddy = frame XOR 2 ^ nat (f_order f) in
       if buddy \<ge> mm_frames_count s then Inr (frame, s) else
       rbind (frame_at buddy s) (\<lambda>b.
       if f_order b \<noteq> f_order f then Inr (frame, s)
       else if f_flags b AND (FRAME_ALLOCATED OR FRAME_RESERVED) \<noteq> 0 then Inr (frame, s)
       else
         rbind (remove_frame_from_list buddy s) (\<lambda>s1.
         let frame' = (if buddy < frame then buddy else frame) in
         rbind (upd_frame frame' (\<lambda>g. g\<lparr>f_order := f_order g + 1\<rparr>) s1) (\<lambda>s2.
         merge_loop frame' s2))))
     else Inr (frame, s))"
  by pat_completeness auto
termination
  by (relation "measure (\<lambda>(i, s). nat (FRAME_MAX_ORDER - f_order (mm_frames s i)))")
    (auto simp: frame_at_def upd_frame_def remove_frame_order split: if_splits)

definition merge_buddy :: "nat \<Rightarrow> pmm \<Rightarrow> pmm res" where
  "merge_buddy pfn s =
     rbind (merge_loop pfn s) (\<lambda>(frame, s1).
     rbind (frame_at frame s1) (\<lambda>f.
     rbind (region_at (f_order f) s1) (\<lambda>head.
     rbind (upd_frame frame (\<lambda>g. g\<lparr>f_next := head\<rparr>) s1) (\<lambda>s2.
     set_region (f_order f) (Some frame) s2))))"

section \<open>Allocation and release\<close>

function find_order :: "int \<Rightarrow> pmm \<Rightarrow> int res" where
  "find_order current s =
     (if current < FRAME_MAX_ORDER then
        rbind (region_at current s) (\<lambda>head.
        if head \<noteq> None then Inr current else find_order (current + 1) s)
      else Inr current)"
  by pat_completeness auto
termination
  by (relation "measure (\<lambda>(current, s). nat (FRAME_MAX_ORDER - current))") auto

function split_down :: "int \<Rightarrow> int \<Rightarrow> pmm \<Rightarrow> pmm res" where
  "split_down current order s =
     (if current \<noteq> order then rbind (divide_buddy current s) (\<lambda>s1. split_down (current - 1) order s1)
      else Inr s)"
  by pat_completeness auto
termination
  by (relation "measure (\<lambda>(current, order, s). nat current)")
    (auto simp: divide_buddy_def)

definition alloc_frames :: "int \<Rightarrow> pmm \<Rightarrow> (phys_addr \<times> pmm) res" where
  "alloc_frames order s =
     rbind (find_order order s) (\<lambda>current.
     rbind (region_at current s) (\<lambda>head.
     if head = None then Inr (INVALID_ADDRESS, s) else
     rbind (split_down current order s) (\<lambda>s1.
     rbind (region_at order s1) (\<lambda>head1.
     rbind (deref head1) (\<lambda>frame.
     rbind (frame_at frame s1) (\<lambda>f.
     rbind (set_region order (f_next f) s1) (\<lambda>s2.
     rbind (upd_frame frame (\<lambda>g. g\<lparr>f_flags := f_flags g OR FRAME_ALLOCATED\<rparr>) s2) (\<lambda>s3.
     Inr (push_bit PAGE_SHIFT (of_nat frame), s3)))))))))"

definition free_frame :: "phys_addr \<Rightarrow> pmm \<Rightarrow> pmm res" where
  "free_frame addr s =
     (let pfn = unat (drop_bit PAGE_SHIFT addr) in
      rbind (upd_frame pfn (\<lambda>f. f\<lparr>f_flags := f_flags f AND NOT FRAME_ALLOCATED\<rparr>) s) (\<lambda>s1.
      merge_buddy pfn s1))"

declare unreserve_frame_region.simps [simp del]
  init_buddy_allocator.simps [simp del] merge_loop.simps [simp del]
  find_order.simps [simp del] split_down.simps [simp del]

end
