(* ===== verification/Heap_List.thy ===== *)
theory Heap_List
  imports Prelude
begin

text \<open>
  Singly linked lists threaded through a next-pointer function: the abstraction predicate
  \<open>list_at\<close>, its uniqueness and acyclicity, and how writing one pointer changes the list.
  The buddy allocator's free lists, the pool's block lists and the interrupt handler chains
  are such lists.
\<close>

primrec path_at :: "('a \<Rightarrow> 'a option) \<Rightarrow> 'a option \<Rightarrow> 'a list \<Rightarrow> 'a option \<Rightarrow> bool" where
  "path_at nx p [] q \<longleftrightarrow> p = q"
| "path_at nx p (x # xs) q \<longleftrightarrow> p = Some x \<and> path_at nx (nx x) xs q"

definition list_at :: "('a \<Rightarrow> 'a option) \<Rightarrow> 'a option \<Rightarrow> 'a list \<Rightarrow> bool" where
  "list_at nx p xs \<longleftrightarrow> path_at nx p xs None"

lemma list_at_Nil [simp]: "list_at nx p [] \<longleftrightarrow> p = None"
  and list_at_Cons [simp]: "list_at nx p (x # xs) \<longleftrightarrow> p = Some x \<and> list_at nx (nx x) xs"
  by (simp_all add: list_at_def)

lemma list_at_None [simp]: "list_at nx None xs \<longleftrightarrow> xs = []"
  by (cases xs) auto

lemma list_at_Some: "list_at nx (Some a) xs \<longleftrightarrow> (\<exists>ys. xs = a # ys \<and> list_at nx (nx a) ys)"
  by (cases xs) auto

lemma path_at_append [simp]:
  "path_at nx p (xs @ ys) r \<longleftrightarrow> (\<exists>q. path_at nx p xs q \<and> path_at nx q ys r)"
  by (induction xs arbitrary: p) auto

lemma list_at_append: "list_at nx p (xs @ ys) \<longleftrightarrow> (\<exists>q. path_at nx p xs q \<and> list_at nx q ys)"
  by (simp add: list_at_def)

lemma path_at_upd [simp]:
  "a \<notin> set xs \<Longrightarrow> path_at (nx(a := v)) p xs q \<longleftrightarrow> path_at nx p xs q"
  by (induction xs arbitrary: p) auto

lemma list_at_upd [simp]: "a \<notin> set xs \<Longrightarrow> list_at (nx(a := v)) p xs \<longleftrightarrow> list_at nx p xs"
  by (simp add: list_at_def)

lemma list_at_unique: "list_at nx p xs \<Longrightarrow> list_at nx p ys \<Longrightarrow> xs = ys"
proof (induction xs arbitrary: p ys)
  case Nil
  then show ?case by simp
next
  case (Cons x xs)
  then show ?case by (cases ys) auto
qed

lemma list_at_head_notin: "list_at nx (nx a) xs \<Longrightarrow> a \<notin> set xs"
proof
  assume l: "list_at nx (nx a) xs" and "a \<in> set xs"
  then obtain us vs where xs: "xs = us @ a # vs" by (auto simp: in_set_conv_decomp)
  with l have "list_at nx (nx a) vs" by (auto simp: list_at_append)
  with l have "xs = vs" by (rule list_at_unique)
  with xs show False by (metis append_Cons append_Nil append_self_conv2 list.distinct(1)
        length_append length_Cons add_Suc_right le_add2 Suc_n_not_le_n)
qed

lemma list_at_distinct: "list_at nx p xs \<Longrightarrow> distinct xs"
  by (induction xs arbitrary: p) (auto dest: list_at_head_notin)

text \<open>Unlinking: the predecessor, or the head, takes over the removed cell's pointer.\<close>

lemma list_at_unlink_mid:
  assumes "list_at nx p (us @ [a] @ b # vs)"
  shows "list_at (nx(a := nx b)) p (us @ [a] @ vs)"
proof -
  from assms have "distinct (us @ [a] @ b # vs)" by (rule list_at_distinct)
  with assms show ?thesis by (auto simp: list_at_append)
qed

lemma list_at_unlink_head: "list_at nx p (b # vs) \<Longrightarrow> list_at nx (nx b) vs"
  by simp

lemma list_at_push: "list_at nx p xs \<Longrightarrow> a \<notin> set xs \<Longrightarrow> list_at (nx(a := p)) (Some a) (a # xs)"
  by simp

end
