(* ===== verification/Buddy.thy ===== *)
theory Buddy
  imports Prelude
begin

text \<open>
  The arithmetic of buddy blocks, independent of any program state. A block \<open>(p, k)\<close> is the
  \<open>2 ^ k\<close> frames from \<open>p\<close> on. \<open>buddy_set\<close> is the abstract state of a buddy allocator: aligned,
  pairwise disjoint blocks within the first \<open>n\<close> frames; splitting a block and merging a block
  with its buddy keep it and keep the frames covered.
\<close>

type_synonym block = "nat \<times> nat"

definition blk :: "block \<Rightarrow> nat set" where
  "blk b = {fst b ..< fst b + 2 ^ snd b}"

definition cover :: "block set \<Rightarrow> nat set" where
  "cover B = (\<Union>b \<in> B. blk b)"

definition max_order :: nat where "max_order = 11"

definition buddy_set :: "nat \<Rightarrow> block set \<Rightarrow> bool" where
  "buddy_set n B \<longleftrightarrow>
     (\<forall>p k. (p, k) \<in> B \<longrightarrow> k \<le> max_order \<and> 2 ^ k dvd p \<and> p + 2 ^ k \<le> n) \<and>
     (\<forall>b \<in> B. \<forall>c \<in> B. b \<noteq> c \<longrightarrow> blk b \<inter> blk c = {})"

lemma blk_head [simp]: "p \<in> blk (p, k)"
  by (simp add: blk_def)

lemma buddy_setD:
  assumes "buddy_set n B" and "(p, k) \<in> B"
  shows "k \<le> max_order" and "2 ^ k dvd p" and "p + 2 ^ k \<le> n" and "p < n"
proof -
  from assms show "k \<le> max_order" and "2 ^ k dvd p" and le: "p + 2 ^ k \<le> n"
    by (auto simp: buddy_set_def)
  have "0 < (2 :: nat) ^ k" by simp
  with le show "p < n" by linarith
qed

lemma buddy_set_disjoint:
  "buddy_set n B \<Longrightarrow> (p, k) \<in> B \<Longrightarrow> (q, l) \<in> B \<Longrightarrow> i \<in> blk (p, k) \<Longrightarrow> i \<in> blk (q, l) \<Longrightarrow> p = q \<and> k = l"
  by (fastforce simp: buddy_set_def)

lemma buddy_set_mono: "buddy_set n B \<Longrightarrow> C \<subseteq> B \<Longrightarrow> buddy_set n C"
  by (auto simp: buddy_set_def) blast+

section \<open>Buddies\<close>

lemma xor_pow2_clear: "\<not> bit p k \<Longrightarrow> (p :: nat) XOR 2 ^ k = p + 2 ^ k"
proof -
  assume "\<not> bit p k"
  moreover have "p XOR 2 ^ k = flip_bit k p"
    by (simp add: flip_bit_eq_xor push_bit_eq_mult)
  ultimately show ?thesis
    by (simp add: flip_bit_eq_if set_bit_eq)
qed

lemma xor_pow2_set: "bit p k \<Longrightarrow> ((p :: nat) XOR 2 ^ k) + 2 ^ k = p"
proof -
  assume b: "bit p k"
  let ?q = "p XOR 2 ^ k"
  have "\<not> bit ?q k"
    using b by (simp add: bit_xor_iff bit_exp_iff)
  then have "?q XOR 2 ^ k = ?q + 2 ^ k" by (rule xor_pow2_clear)
  moreover have "?q XOR 2 ^ k = p" by (simp add: xor.assoc)
  ultimately show ?thesis by simp
qed

lemma bit_iff_odd_mult: "bit (2 ^ k * m) k \<longleftrightarrow> odd (m :: nat)"
  by (simp add: bit_iff_odd)

text \<open>
  For an aligned block, the lower of the block and its buddy is aligned one order up, and the two
  halves make up that larger block.
\<close>

lemma buddy_aligned:
  assumes "2 ^ k dvd p"
  shows "2 ^ k dvd (p XOR 2 ^ k :: nat)"
    and "2 ^ Suc k dvd min p (p XOR 2 ^ k)"
    and "max p (p XOR 2 ^ k) = min p (p XOR 2 ^ k) + 2 ^ k"
proof -
  from assms obtain m where p: "p = 2 ^ k * m" ..
  show "2 ^ k dvd (p XOR 2 ^ k :: nat)"
    using assms xor_pow2_clear [of p k] xor_pow2_set [of p k]
    by (cases "bit p k") (metis dvd_add_left_iff dvd_refl, simp)
  show "2 ^ Suc k dvd min p (p XOR 2 ^ k)"
  proof (cases "bit p k")
    case True
    with p obtain l where "m = 2 * l + 1" by (auto simp: bit_iff_odd_mult elim: oddE)
    with p xor_pow2_set [OF True] have "p XOR 2 ^ k = 2 ^ Suc k * l" by (simp add: algebra_simps)
    moreover have "p XOR 2 ^ k < p" using xor_pow2_set [OF True] by (metis less_add_same_cancel1 zero_less_power zero_less_numeral)
    ultimately show ?thesis by (simp add: min_def)
  next
    case False
    with p obtain l where "m = 2 * l" by (auto simp: bit_iff_odd_mult)
    with p xor_pow2_clear [OF False] show ?thesis by (simp add: min_def)
  qed
  show "max p (p XOR 2 ^ k) = min p (p XOR 2 ^ k) + 2 ^ k"
    using xor_pow2_clear [of p k] xor_pow2_set [of p k] by (cases "bit p k") (auto simp: max_def min_def)
qed

lemma buddy_neq: "(p XOR 2 ^ k :: nat) \<noteq> p"
  using xor_pow2_clear [of p k] xor_pow2_set [of p k] by (cases "bit p k") auto

lemma blk_halves: "blk (p, Suc k) = blk (p, k) \<union> blk (p + 2 ^ k, k)"
  by (auto simp: blk_def)

lemma blk_halves_disjoint: "blk (p, k) \<inter> blk (p + 2 ^ k, k) = {}"
  by (auto simp: blk_def)

text \<open>A block that meets an aligned smaller block's range contains the whole smaller block.\<close>

lemma blk_aligned_subset:
  assumes "2 ^ k dvd p" and "2 ^ K dvd q" and "k \<le> K" and "i \<in> blk (p, k)" and "i \<in> blk (q, K)"
  shows "blk (p, k) \<subseteq> blk (q, K)"
proof -
  from assms(1-3) obtain a b where p: "p = 2 ^ k * a" and q: "q = 2 ^ k * b"
    by (meson dvdE dvd_trans le_imp_power_dvd)
  obtain c where c: "(2 :: nat) ^ K = 2 ^ k * c"
    using assms(3) by (meson dvdE le_imp_power_dvd)
  have "2 ^ k * b < 2 ^ k * (a + 1)" "2 ^ k * a < 2 ^ k * (b + c)"
    using assms(4,5) by (auto simp: blk_def p q c algebra_simps)
  then have "b < a + 1" "a < b + c" by (simp_all only: mult_less_cancel1)
  then have "b \<le> a" "a + 1 \<le> b + c" by simp_all
  then have "2 ^ k * b \<le> 2 ^ k * a" "2 ^ k * (a + 1) \<le> 2 ^ k * (b + c)"
    by (simp_all only: mult_le_mono2)
  then show ?thesis by (auto simp: blk_def p q c algebra_simps)
qed

section \<open>Splitting and merging\<close>

definition split_block :: "nat \<Rightarrow> nat \<Rightarrow> block set \<Rightarrow> block set" where
  "split_block p k B = (B - {(p, Suc k)}) \<union> {(p, k), (p + 2 ^ k, k)}"

definition merge_block :: "nat \<Rightarrow> nat \<Rightarrow> block set \<Rightarrow> block set" where
  "merge_block p k B = (B - {(p, k), (p + 2 ^ k, k)}) \<union> {(p, Suc k)}"

lemma blk_half_subset: "blk (p, k) \<subseteq> blk (p, Suc k)" "blk (p + 2 ^ k, k) \<subseteq> blk (p, Suc k)"
  by (auto simp: blk_halves)

lemma buddy_set_insert:
  assumes "buddy_set n B" and "k \<le> max_order" and "2 ^ k dvd p" and "p + 2 ^ k \<le> n"
    and "\<And>q l. (q, l) \<in> B \<Longrightarrow> (q, l) \<noteq> (p, k) \<Longrightarrow> blk (q, l) \<inter> blk (p, k) = {}"
  shows "buddy_set n (insert (p, k) B)"
proof -
  have "blk b \<inter> blk (p, k) = {}" if "b \<in> B" "b \<noteq> (p, k)" for b
    using that assms(5) [of "fst b" "snd b"] by simp
  with assms(1-4) show ?thesis
    unfolding buddy_set_def by (auto; blast)
qed

lemma buddy_set_split:
  assumes B: "buddy_set n B" and b: "(p, Suc k) \<in> B"
  shows "buddy_set n (split_block p k B)" and "cover (split_block p k B) = cover B"
proof -
  note d = buddy_setD [OF B b]
  let ?R = "B - {(p, Suc k)}"
  have R: "buddy_set n ?R" using B by (rule buddy_set_mono) auto
  have off: "blk c \<inter> blk (p, Suc k) = {}" if "c \<in> ?R" for c
    using that B b by (auto simp: buddy_set_def)
  have al: "2 ^ k dvd p" using d(2) by (rule dvd_trans [rotated]) simp
  have off1: "blk c \<inter> blk (p, k) = {}" "blk c \<inter> blk (p + 2 ^ k, k) = {}" if "c \<in> ?R" for c
    using off [OF that] unfolding blk_halves by blast+
  have "buddy_set n (insert (p + 2 ^ k, k) ?R)"
    by (rule buddy_set_insert [OF R]) (use d(1,3) al off1 in auto)
  then have "buddy_set n (insert (p, k) (insert (p + 2 ^ k, k) ?R))"
    by (rule buddy_set_insert) (use d(1,3) al off1 blk_halves_disjoint [of p k] in \<open>auto simp: Int_commute\<close>)
  then show "buddy_set n (split_block p k B)"
    by (simp add: split_block_def insert_commute)
  show "cover (split_block p k B) = cover B"
    using b blk_halves [of p k] by (auto simp: cover_def split_block_def)
qed

lemma buddy_set_merge:
  assumes B: "buddy_set n B" and b: "(p, k) \<in> B" and c: "(p + 2 ^ k, k) \<in> B"
    and k: "k < max_order" and al: "2 ^ Suc k dvd p"
  shows "buddy_set n (merge_block p k B)" and "cover (merge_block p k B) = cover B"
proof -
  let ?R = "B - {(p, k), (p + 2 ^ k, k)}"
  have R: "buddy_set n ?R" using B by (rule buddy_set_mono) auto
  have "blk d \<inter> blk (p, Suc k) = {}" if "d \<in> ?R" for d
    using that B b c unfolding blk_halves buddy_set_def by blast
  then have "buddy_set n (insert (p, Suc k) ?R)"
    using k al buddy_setD(3) [OF B c] by (intro buddy_set_insert [OF R]) auto
  then show "buddy_set n (merge_block p k B)" by (simp add: merge_block_def)
  show "cover (merge_block p k B) = cover B"
    using b c blk_halves [of p k] by (auto simp: cover_def merge_block_def)
qed

section \<open>Recorded orders\<close>

text \<open>
  The allocator records an order in every frame. The order of a block's first frame is the
  block's order; any other recorded order is left over from an earlier split and is smaller
  than the order of the block its frame lies in.
\<close>

definition orders_ok :: "nat \<Rightarrow> (nat \<Rightarrow> int) \<Rightarrow> block set \<Rightarrow> bool" where
  "orders_ok n ord B \<longleftrightarrow>
     (\<forall>p k. (p, k) \<in> B \<longrightarrow> ord p = int k) \<and>
     (\<forall>i < n. ord i \<noteq> - 1 \<longrightarrow> 0 \<le> ord i \<and> 2 ^ nat (ord i) dvd i \<and>
        (\<exists>p k. (p, k) \<in> B \<and> i \<in> blk (p, k) \<and> (i = p \<or> ord i < int k)))"

lemma orders_ok_head: "orders_ok n ord B \<Longrightarrow> (p, k) \<in> B \<Longrightarrow> ord p = int k"
  by (simp add: orders_ok_def)

lemma orders_ok_frame:
  assumes "orders_ok n ord B" and "i < n" and "ord i \<noteq> - 1"
  obtains p k where "0 \<le> ord i" and "2 ^ nat (ord i) dvd i" and "(p, k) \<in> B" and "i \<in> blk (p, k)"
    and "i = p \<or> ord i < int k"
  using assms unfolding orders_ok_def by metis

lemma buddy_is_block:
  assumes B: "buddy_set n B" and ok: "orders_ok n ord B" and b: "(p, k) \<in> B"
    and q: "(p XOR 2 ^ k) < n" "ord (p XOR 2 ^ k) = int k"
  shows "(p XOR 2 ^ k, k) \<in> B"
proof -
  let ?q = "p XOR 2 ^ k"
  have "ord ?q \<noteq> - 1" using q(2) by simp
  with ok q(1) obtain r l where r: "(r, l) \<in> B" "?q \<in> blk (r, l)" "?q = r \<or> ord ?q < int l"
    by (rule orders_ok_frame)
  show ?thesis
  proof (cases "?q = r")
    case True
    with orders_ok_head [OF ok r(1)] r(1) q(2) show ?thesis by simp
  next
    case False
    note al = buddy_aligned [OF buddy_setD(2) [OF B b]]
    let ?m = "min p ?q"
    from False r(3) q(2) have "Suc k \<le> l" by simp
    moreover have "?q \<in> blk (?m, Suc k)" "p \<in> blk (?m, Suc k)"
      using al(3) by (auto simp: blk_def min_def max_def split: if_splits)
    ultimately have "p \<in> blk (r, l)"
      using blk_aligned_subset [OF al(2) buddy_setD(2) [OF B r(1)] _ _ r(2)] by blast
    with buddy_set_disjoint [OF B b r(1), of p] have "k = l" by simp
    with \<open>Suc k \<le> l\<close> show ?thesis by simp
  qed
qed

lemma orders_ok_split:
  assumes B: "buddy_set n B" and ok: "orders_ok n ord B" and b: "(p, Suc k) \<in> B"
  shows "orders_ok n (ord(p + 2 ^ k := int k, p := int k)) (split_block p k B)"
proof -
  let ?o = "ord(p + 2 ^ k := int k, p := int k)" and ?B = "split_block p k B"
  note B' = buddy_set_split(1) [OF B b]
  have heads: "?o q = int l" if "(q, l) \<in> ?B" for q l
  proof -
    have "q \<noteq> p" "q \<noteq> p + 2 ^ k" if "(q, l) \<in> B" "(q, l) \<noteq> (p, Suc k)"
      using that buddy_set_disjoint [OF B that(1) b, of q] by (auto simp: blk_def)
    with that ok show ?thesis by (auto simp: split_block_def orders_ok_def)
  qed
  have "0 \<le> ?o i \<and> 2 ^ nat (?o i) dvd i \<and> (\<exists>q l. (q, l) \<in> ?B \<and> i \<in> blk (q, l) \<and> (i = q \<or> ?o i < int l))"
    if i: "i < n" "?o i \<noteq> - 1" for i
  proof (cases "i = p \<or> i = p + 2 ^ k")
    case True
    then have "(i, k) \<in> ?B" by (auto simp: split_block_def)
    with heads [OF this] buddy_setD(2) [OF B' this] show ?thesis
      by (metis blk_head nat_int of_nat_0_le_iff)
  next
    case False
    then have eq: "?o i = ord i" by simp
    with i(2) have "ord i \<noteq> - 1" by simp
    with ok i(1) obtain q l where o: "0 \<le> ord i" "2 ^ nat (ord i) dvd i" "(q, l) \<in> B" "i \<in> blk (q, l)"
      "i = q \<or> ord i < int l"
      by (rule orders_ok_frame)
    show ?thesis
    proof (cases "(q, l) = (p, Suc k)")
      case neq: False
      with o have "(q, l) \<in> ?B" by (auto simp: split_block_def)
      with o eq show ?thesis by auto
    next
      case True
      with o False have lt: "ord i < int (Suc k)" and i': "i \<in> blk (p, Suc k)" by auto
      have "ord i \<noteq> int k"
      proof
        assume k: "ord i = int k"
        from buddy_setD(2) [OF B b] have "2 ^ k dvd p" by (rule dvd_trans [rotated]) simp
        with o(2) k have "2 ^ k dvd i - p" by simp
        with i' obtain c where "i = p + 2 ^ k * c" "c < 2"
          by (auto simp: blk_def elim!: dvdE) (metis le_add_diff_inverse nat_add_left_cancel_less mult.commute mult_less_cancel1)
        with False show False by (auto simp: less_2_cases_iff)
      qed
      with lt have "ord i < int k" by simp
      moreover have "(p, k) \<in> ?B" "(p + 2 ^ k, k) \<in> ?B" by (auto simp: split_block_def)
      ultimately show ?thesis
        using i' o(1,2) unfolding eq blk_halves by blast
    qed
  qed
  with heads show ?thesis by (simp add: orders_ok_def)
qed

lemma orders_ok_merge:
  assumes B: "buddy_set n B" and ok: "orders_ok n ord B"
    and b: "(p, k) \<in> B" and c: "(p + 2 ^ k, k) \<in> B" and al: "2 ^ Suc k dvd p"
  shows "orders_ok n (ord(p := int (Suc k))) (merge_block p k B)"
proof -
  let ?o = "ord(p := int (Suc k))" and ?B = "merge_block p k B"
  have heads: "?o q = int l" if "(q, l) \<in> ?B" for q l
  proof -
    have "q \<noteq> p" if "(q, l) \<in> B" "(q, l) \<noteq> (p, k)"
      using that buddy_set_disjoint [OF B that(1) b, of q] by auto
    with that ok show ?thesis by (auto simp: merge_block_def orders_ok_def)
  qed
  have "0 \<le> ?o i \<and> 2 ^ nat (?o i) dvd i \<and> (\<exists>q l. (q, l) \<in> ?B \<and> i \<in> blk (q, l) \<and> (i = q \<or> ?o i < int l))"
    if i: "i < n" "?o i \<noteq> - 1" for i
  proof (cases "i = p")
    case True
    then have "(i, Suc k) \<in> ?B" by (auto simp: merge_block_def)
    with True al show ?thesis by (metis blk_head fun_upd_same nat_int of_nat_0_le_iff)
  next
    case False
    then have eq: "?o i = ord i" by simp
    with i(2) have "ord i \<noteq> - 1" by simp
    with ok i(1) obtain q l where o: "0 \<le> ord i" "2 ^ nat (ord i) dvd i" "(q, l) \<in> B" "i \<in> blk (q, l)"
      "i = q \<or> ord i < int l"
      by (rule orders_ok_frame)
    show ?thesis
    proof (cases "(q, l) = (p, k) \<or> (q, l) = (p + 2 ^ k, k)")
      case neq: False
      with o have "(q, l) \<in> ?B" by (auto simp: merge_block_def)
      with o eq show ?thesis by auto
    next
      case True
      with o ok have "ord i \<le> int k" by (auto simp: orders_ok_def)
      moreover from True o(4) have "i \<in> blk (p, Suc k)" by (auto simp: blk_halves)
      moreover have "(p, Suc k) \<in> ?B" by (simp add: merge_block_def)
      ultimately show ?thesis using o(1,2) eq by fastforce
    qed
  qed
  with heads show ?thesis by (simp add: orders_ok_def)
qed

section \<open>Coalesced sets\<close>

text \<open>
  In a coalesced set no block has its buddy beside it. Such a set is the only one with its
  cover: the free blocks of a coalesced allocator are determined by the free frames alone.
\<close>

definition coalesced :: "block set \<Rightarrow> bool" where
  "coalesced B \<longleftrightarrow> (\<forall>p k. (p, k) \<in> B \<longrightarrow> k < max_order \<longrightarrow> (p XOR 2 ^ k, k) \<notin> B)"

lemma aligned_buddy_above: "2 ^ Suc k dvd p \<Longrightarrow> (p XOR 2 ^ k :: nat) = p + 2 ^ k"
  by (rule xor_pow2_clear) (auto simp: bit_iff_odd elim!: dvdE)

lemma coalesced_contains:
  assumes B: "buddy_set n B" and c: "coalesced B"
  shows "k \<le> max_order \<Longrightarrow> 2 ^ k dvd p \<Longrightarrow> blk (p, k) \<subseteq> cover B \<Longrightarrow>
    \<exists>q l. (q, l) \<in> B \<and> k \<le> l \<and> blk (p, k) \<subseteq> blk (q, l)"
proof (induction k arbitrary: p)
  case 0
  then show ?case by (auto simp: blk_def cover_def) blast
next
  case (Suc k)
  have al: "2 ^ k dvd p" "2 ^ k dvd p + 2 ^ k"
    using Suc.prems(2) by (auto intro: dvd_trans [rotated])
  from Suc.IH [OF _ al(1)] Suc.prems obtain q l where q: "(q, l) \<in> B" "k \<le> l" "blk (p, k) \<subseteq> blk (q, l)"
    by (auto simp: blk_halves)
  from Suc.IH [OF _ al(2)] Suc.prems obtain r m where r: "(r, m) \<in> B" "k \<le> m" "blk (p + 2 ^ k, k) \<subseteq> blk (r, m)"
    by (auto simp: blk_halves)
  have one: "\<exists>q l. (q, l) \<in> B \<and> Suc k \<le> l \<and> blk (p, Suc k) \<subseteq> blk (q, l)"
    if "(t, j) \<in> B" "k < j" "i \<in> blk (p, Suc k)" "i \<in> blk (t, j)" for t j i
    using that blk_aligned_subset [OF Suc.prems(2) buddy_setD(2) [OF B that(1)], of i] by (auto simp: Suc_le_eq)
  show ?case
  proof (cases "k < l \<or> k < m")
    case True
    moreover have "p \<in> blk (p, Suc k)" "p \<in> blk (q, l)" "p + 2 ^ k \<in> blk (p, Suc k)" "p + 2 ^ k \<in> blk (r, m)"
      using subsetD [OF q(3) blk_head] subsetD [OF r(3) blk_head] by (simp_all add: blk_def)
    ultimately show ?thesis using one q(1) r(1) by blast
  next
    case False
    with q(2) r(2) have "l = k" "m = k" by auto
    with q r have "q = p" "r = p + 2 ^ k" by (auto simp: blk_def)
    with \<open>l = k\<close> \<open>m = k\<close> q(1) r(1) have "(p, k) \<in> B" "(p XOR 2 ^ k, k) \<in> B"
      using aligned_buddy_above [OF Suc.prems(2)] by auto
    with c Suc.prems(1) show ?thesis by (auto simp: coalesced_def)
  qed
qed

lemma coalesced_subset:
  assumes B: "buddy_set n B" "coalesced B" and C: "buddy_set m C" "coalesced C" and eq: "cover B = cover C"
  shows "B \<subseteq> C"
proof
  fix b assume "b \<in> B"
  then obtain p k where b: "b = (p, k)" "(p, k) \<in> B" by (cases b) auto
  then have "blk (p, k) \<subseteq> cover C" unfolding eq [symmetric] by (auto simp: cover_def)
  from coalesced_contains [OF C buddy_setD(1,2) [OF B(1) b(2)] this]
  obtain q l where q: "(q, l) \<in> C" "k \<le> l" "blk (p, k) \<subseteq> blk (q, l)" by blast
  then have "blk (q, l) \<subseteq> cover B" unfolding eq by (auto simp: cover_def)
  from coalesced_contains [OF B buddy_setD(1,2) [OF C(1) q(1)] this]
  obtain r j where r: "(r, j) \<in> B" "l \<le> j" "blk (q, l) \<subseteq> blk (r, j)" by blast
  have "p \<in> blk (r, j)" using q(3) r(3) blk_head [of p k] by blast
  with buddy_set_disjoint [OF B(1) b(2) r(1), of p] have "k = j" by simp
  with q(2) r(2) have "l = k" by simp
  moreover from this q(3) have "q = p" by (auto simp: blk_def)
  ultimately show "b \<in> C" using q(1) b(1) by simp
qed

theorem coalesced_unique:
  assumes "buddy_set n B" "coalesced B" "buddy_set m C" "coalesced C" "cover B = cover C"
  shows "B = C"
  using coalesced_subset [OF assms] coalesced_subset [OF assms(3,4,1,2) assms(5) [symmetric]] by blast

text \<open>The free blocks left when \<open>(p, k)\<close> is cut out of the free block \<open>(p, c)\<close>.\<close>

definition carve :: "nat \<Rightarrow> nat \<Rightarrow> nat \<Rightarrow> block set \<Rightarrow> block set" where
  "carve p k c B = (B - {(p, c)}) \<union> {(p + 2 ^ j, j) |j. k \<le> j \<and> j < c}"

lemma coalesced_carve:
  assumes B: "buddy_set n B" and co: "coalesced B" and b: "(p, c) \<in> B"
  shows "coalesced (carve p k c B)"
proof -
  have in_blk: "p \<in> blk (p, c)" "p + 2 ^ j \<in> blk (p, c)" if "j < c" for j
    using that by (auto simp: blk_def power_strict_increasing)
  have only: "(q, l) = (p, c)" if "(q, l) \<in> B" "q \<in> blk (p, c)" for q l
    using buddy_set_disjoint [OF B that(1) b, of q] that(2) by simp
  have buddy: "(p + 2 ^ j) XOR 2 ^ j = p" "p XOR 2 ^ j = p + 2 ^ j" if "j < c" for j
  proof -
    have "2 ^ Suc j dvd p"
      using buddy_setD(2) [OF B b] that by (meson Suc_leI dvd_trans le_imp_power_dvd)
    then show "p XOR 2 ^ j = p + 2 ^ j" by (rule aligned_buddy_above)
    then show "(p + 2 ^ j) XOR 2 ^ j = p" by (metis xor.assoc xor_self_eq xor.right_neutral)
  qed
  show ?thesis
    unfolding coalesced_def
  proof (intro allI impI notI)
    fix q l assume q: "(q, l) \<in> carve p k c B" "l < max_order" and q': "(q XOR 2 ^ l, l) \<in> carve p k c B"
    have inv: "(q XOR 2 ^ l) XOR 2 ^ l = q" by (simp add: xor.assoc)
    consider "(q, l) \<in> B - {(p, c)}" "(q XOR 2 ^ l, l) \<in> B - {(p, c)}"
      | "q = p + 2 ^ l" "l < c" | "q XOR 2 ^ l = p + 2 ^ l" "l < c"
      using q(1) q' by (auto simp: carve_def)
    then show False
    proof cases
      case 1
      then show False using co q(2) by (auto simp: coalesced_def)
    next
      case 2
      with buddy(1) [OF 2(2)] q' have "(p, l) \<in> B" by (auto simp: carve_def)
      with only [of p l] in_blk(1) 2 show False by auto
    next
      case 3
      with buddy(1) [OF 3(2)] inv have "q = p" by simp
      with q(1) have "(p, l) \<in> B" by (auto simp: carve_def)
      with only [of p l] in_blk(1) 3 show False by auto
    qed
  qed
qed

end
