(* ===== verification/Pmm_Inv.thy ===== *)
theory Pmm_Inv
  imports Pmm Heap_List Buddy
begin

text \<open>
  The invariant of the frame allocator and its preservation by every operation of
  \<open>mm/pmm.c\<close>. The state is seen through its free lists, its allocated blocks and,
  inside an operation, the blocks that are in neither; together they always form a buddy set.
\<close>

section \<open>Views of the state\<close>

definition nx :: "pmm \<Rightarrow> nat \<Rightarrow> nat option" where "nx s = (\<lambda>i. f_next (mm_frames s i))"
definition ord :: "pmm \<Rightarrow> nat \<Rightarrow> int" where "ord s = (\<lambda>i. f_order (mm_frames s i))"
definition fl :: "pmm \<Rightarrow> nat \<Rightarrow> u32" where "fl s = (\<lambda>i. f_flags (mm_frames s i))"

definition is_alloc :: "pmm \<Rightarrow> nat \<Rightarrow> bool" where "is_alloc s i \<longleftrightarrow> bit (fl s i) 0"
definition is_resv :: "pmm \<Rightarrow> nat \<Rightarrow> bool" where "is_resv s i \<longleftrightarrow> bit (fl s i) 1"

definition free_set :: "(nat \<Rightarrow> nat list) \<Rightarrow> block set" where
  "free_set L = {(p, k). k \<le> max_order \<and> p \<in> set (L k)}"

definition alloc_blocks :: "pmm \<Rightarrow> block set" where
  "alloc_blocks s = {(p, k). p < mm_frames_count s \<and> is_alloc s p \<and> ord s p = int k}"

text \<open>The free list of an order, read off the next pointers; the walk is bounded by the number of frames.\<close>

fun walk :: "nat \<Rightarrow> (nat \<Rightarrow> nat option) \<Rightarrow> nat option \<Rightarrow> nat list" where
  "walk 0 nxt p = []"
| "walk (Suc n) nxt None = []"
| "walk (Suc n) nxt (Some i) = i # walk n nxt (nxt i)"

definition free_list :: "pmm \<Rightarrow> nat \<Rightarrow> nat list" where
  "free_list s k = walk (mm_frames_count s) (nx s) (mm_free_region s (int k))"

definition free_blocks :: "pmm \<Rightarrow> block set" where
  "free_blocks s = free_set (free_list s)"

definition pinv :: "pmm \<Rightarrow> (nat \<Rightarrow> nat list) \<Rightarrow> block set \<Rightarrow> bool" where
  "pinv s L X \<longleftrightarrow>
     (\<forall>k \<le> max_order. list_at (nx s) (mm_free_region s (int k)) (L k)) \<and>
     buddy_set (mm_frames_count s) (free_set L \<union> alloc_blocks s \<union> X) \<and>
     orders_ok (mm_frames_count s) (ord s) (free_set L \<union> alloc_blocks s \<union> X) \<and>
     (\<forall>p k. (p, k) \<in> free_set L \<union> X \<longrightarrow> \<not> is_alloc s p) \<and>
     (\<forall>p k. (p, k) \<in> free_set L \<union> alloc_blocks s \<union> X \<longrightarrow> \<not> is_resv s p) \<and>
     free_set L \<inter> X = {} \<and>
     (\<forall>i < mm_frames_count s. is_alloc s i \<longrightarrow> 0 \<le> ord s i) \<and>
     mm_frames_count s \<le> 2 ^ 52"

definition pmm_inv :: "pmm \<Rightarrow> bool" where
  "pmm_inv s \<longleftrightarrow> (\<exists>L. pinv s L {})"

section \<open>Flags\<close>

lemma flags_busy:
  "fl s i AND (FRAME_ALLOCATED OR FRAME_RESERVED) = 0 \<longleftrightarrow> \<not> is_alloc s i \<and> \<not> is_resv s i"
  unfolding is_alloc_def is_resv_def FRAME_ALLOCATED_def FRAME_RESERVED_def
    bit.conj_disj_distrib or_eq_0_iff
  using and_exp_eq_0_iff_not_bit [of "fl s i" 0] and_exp_eq_0_iff_not_bit [of "fl s i" 1] by simp

lemma bit_set_alloc [simp]: "bit (w OR FRAME_ALLOCATED) 0" "bit (w OR FRAME_ALLOCATED) (Suc 0) = bit w (Suc 0)"
  by (simp_all add: FRAME_ALLOCATED_def bit_simps)

lemma bit_clear_alloc [simp]:
  "\<not> bit (w AND NOT FRAME_ALLOCATED) 0" "bit (w AND NOT FRAME_ALLOCATED) (Suc 0) = bit w (Suc 0)"
  by (simp_all add: FRAME_ALLOCATED_def bit_simps)

section \<open>Single writes\<close>

definition set_next :: "nat \<Rightarrow> nat option \<Rightarrow> pmm \<Rightarrow> pmm" where
  "set_next i v s = s\<lparr>mm_frames := (mm_frames s)(i := (mm_frames s i)\<lparr>f_next := v\<rparr>)\<rparr>"
definition set_order :: "nat \<Rightarrow> int \<Rightarrow> pmm \<Rightarrow> pmm" where
  "set_order i v s = s\<lparr>mm_frames := (mm_frames s)(i := (mm_frames s i)\<lparr>f_order := v\<rparr>)\<rparr>"
definition set_flags :: "nat \<Rightarrow> u32 \<Rightarrow> pmm \<Rightarrow> pmm" where
  "set_flags i v s = s\<lparr>mm_frames := (mm_frames s)(i := (mm_frames s i)\<lparr>f_flags := v\<rparr>)\<rparr>"
definition put_region :: "nat \<Rightarrow> nat option \<Rightarrow> pmm \<Rightarrow> pmm" where
  "put_region k v s = s\<lparr>mm_free_region := (mm_free_region s)(int k := v)\<rparr>"

lemmas writes = set_next_def set_order_def set_flags_def put_region_def

lemma nx_writes [simp]:
  "nx (set_next i v s) = (nx s)(i := v)" "nx (set_order i w s) = nx s"
  "nx (set_flags i u s) = nx s" "nx (put_region k r s) = nx s"
  by (auto simp: nx_def writes)

lemma ord_writes [simp]:
  "ord (set_next i v s) = ord s" "ord (set_order i w s) = (ord s)(i := w)"
  "ord (set_flags i u s) = ord s" "ord (put_region k r s) = ord s"
  by (auto simp: ord_def writes)

lemma fl_writes [simp]:
  "fl (set_next i v s) = fl s" "fl (set_order i w s) = fl s"
  "fl (set_flags i u s) = (fl s)(i := u)" "fl (put_region k r s) = fl s"
  by (auto simp: fl_def writes)

lemma region_writes [simp]:
  "mm_free_region (set_next i v s) = mm_free_region s" "mm_free_region (set_order i w s) = mm_free_region s"
  "mm_free_region (set_flags i u s) = mm_free_region s"
  "mm_free_region (put_region k r s) = (mm_free_region s)(int k := r)"
  by (auto simp: writes)

lemma count_writes [simp]:
  "mm_frames_count (set_next i v s) = mm_frames_count s" "mm_frames_count (set_order i w s) = mm_frames_count s"
  "mm_frames_count (set_flags i u s) = mm_frames_count s" "mm_frames_count (put_region k r s) = mm_frames_count s"
  by (auto simp: writes)

lemma is_alloc_writes [simp]:
  "is_alloc (set_next i v s) = is_alloc s" "is_alloc (set_order i w s) = is_alloc s"
  "is_alloc (put_region k r s) = is_alloc s" "is_alloc (set_flags i u s) = (is_alloc s)(i := bit u 0)"
  by (auto simp: is_alloc_def fun_eq_iff)

lemma is_resv_writes [simp]:
  "is_resv (set_next i v s) = is_resv s" "is_resv (set_order i w s) = is_resv s"
  "is_resv (put_region k r s) = is_resv s" "is_resv (set_flags i u s) = (is_resv s)(i := bit u 1)"
  by (auto simp: is_resv_def fun_eq_iff)

lemma alloc_blocks_writes [simp]:
  "alloc_blocks (set_next i v s) = alloc_blocks s" "alloc_blocks (put_region k r s) = alloc_blocks s"
  by (simp_all add: alloc_blocks_def)

lemma frame_at_ok: "i < mm_frames_count s \<Longrightarrow> frame_at i s = Inr (mm_frames s i)"
  by (simp add: frame_at_def)

lemma upd_frame_ok:
  "i < mm_frames_count s \<Longrightarrow> upd_frame i (\<lambda>g. g\<lparr>f_next := v\<rparr>) s = Inr (set_next i v s)"
  "i < mm_frames_count s \<Longrightarrow> upd_frame i (\<lambda>g. g\<lparr>f_order := w\<rparr>) s = Inr (set_order i w s)"
  "i < mm_frames_count s \<Longrightarrow> upd_frame i (\<lambda>g. g\<lparr>f_flags := u\<rparr>) s = Inr (set_flags i u s)"
  "i < mm_frames_count s \<Longrightarrow> upd_frame i (\<lambda>g. g\<lparr>f_order := f_order g + 1\<rparr>) s = Inr (set_order i (ord s i + 1) s)"
  "i < mm_frames_count s \<Longrightarrow> upd_frame i (\<lambda>g. g\<lparr>f_flags := f_flags g OR u\<rparr>) s = Inr (set_flags i (fl s i OR u) s)"
  "i < mm_frames_count s \<Longrightarrow> upd_frame i (\<lambda>g. g\<lparr>f_flags := f_flags g AND u\<rparr>) s = Inr (set_flags i (fl s i AND u) s)"
  by (simp_all add: upd_frame_def writes ord_def fl_def)

lemma region_ok:
  "k \<le> max_order \<Longrightarrow> region_at (int k) s = Inr (mm_free_region s (int k))"
  "k \<le> max_order \<Longrightarrow> set_region (int k) v s = Inr (put_region k v s)"
  by (simp_all add: region_at_def set_region_def put_region_def FRAME_MAX_ORDER_def max_order_def)

lemma frame_fields:
  "f_next (mm_frames s i) = nx s i" "f_order (mm_frames s i) = ord s i" "f_flags (mm_frames s i) = fl s i"
  by (simp_all add: nx_def ord_def fl_def)

lemmas access_ok = frame_at_ok upd_frame_ok region_ok frame_fields

section \<open>Reading the invariant\<close>

lemma walk_list_at:
  "list_at nxt p xs \<Longrightarrow> length xs \<le> n \<Longrightarrow> walk n nxt p = xs"
proof (induction n nxt p arbitrary: xs rule: walk.induct)
  case (3 n nxt i)
  then show ?case by (auto simp: list_at_Some)
qed auto

lemma pinv_list: "pinv s L X \<Longrightarrow> k \<le> max_order \<Longrightarrow> list_at (nx s) (mm_free_region s (int k)) (L k)"
  by (simp add: pinv_def)

lemma pinvD:
  assumes "pinv s L X"
  shows pinv_buddy: "buddy_set (mm_frames_count s) (free_set L \<union> alloc_blocks s \<union> X)"
    and pinv_orders: "orders_ok (mm_frames_count s) (ord s) (free_set L \<union> alloc_blocks s \<union> X)"
    and pinv_not_alloc: "\<forall>p k. (p, k) \<in> free_set L \<union> X \<longrightarrow> \<not> is_alloc s p"
    and pinv_not_resv: "\<forall>p k. (p, k) \<in> free_set L \<union> alloc_blocks s \<union> X \<longrightarrow> \<not> is_resv s p"
    and pinv_disj: "free_set L \<inter> X = {}"
    and pinv_alloc_ord: "\<forall>i < mm_frames_count s. is_alloc s i \<longrightarrow> 0 \<le> ord s i"
    and pinv_count: "mm_frames_count s \<le> 2 ^ 52"
  using assms by (simp_all add: pinv_def)

lemma pinv_free:
  assumes "pinv s L X" and "k \<le> max_order" and "p \<in> set (L k)"
  shows "(p, k) \<in> free_set L" and "ord s p = int k" and "p < mm_frames_count s"
    and "2 ^ k dvd p" and "p + 2 ^ k \<le> mm_frames_count s" and "\<not> is_alloc s p" and "\<not> is_resv s p"
proof -
  show f: "(p, k) \<in> free_set L" using assms by (simp add: free_set_def)
  with assms(1) show "ord s p = int k" "\<not> is_alloc s p" "\<not> is_resv s p"
    by (auto simp: pinv_def dest: orders_ok_head)
  from f assms(1) show "p < mm_frames_count s" "2 ^ k dvd p" "p + 2 ^ k \<le> mm_frames_count s"
    unfolding pinv_def by (blast dest: buddy_setD)+
qed

lemma pinv_other_list:
  assumes "pinv s L X" and "k \<le> max_order" and "p \<in> set (L k)" and "l \<le> max_order" and "l \<noteq> k"
  shows "p \<notin> set (L l)"
  using pinv_free(2) [OF assms(1,2,3)] pinv_free(2) [OF assms(1,4)] assms(5) by force

lemma pinv_free_list:
  assumes "pinv s L X" and "k \<le> max_order"
  shows "free_list s k = L k"
proof -
  note l = pinv_list [OF assms]
  have "set (L k) \<subseteq> {..<mm_frames_count s}" using pinv_free(3) [OF assms] by auto
  then have "card (set (L k)) \<le> mm_frames_count s"
    by (metis card_lessThan card_mono finite_lessThan)
  with distinct_card [OF list_at_distinct [OF l]] have "length (L k) \<le> mm_frames_count s" by simp
  with l show ?thesis by (simp add: free_list_def walk_list_at)
qed

lemma pinv_free_blocks: "pinv s L X \<Longrightarrow> free_blocks s = free_set L"
  by (auto simp: free_blocks_def free_set_def pinv_free_list)

lemma pinv_empty_region:
  "pinv s L X \<Longrightarrow> k \<le> max_order \<Longrightarrow> mm_free_region s (int k) = None \<longleftrightarrow> L k = []"
  using pinv_list [of s L X k] by (cases "L k") auto

lemma pinv_head:
  "pinv s L X \<Longrightarrow> k \<le> max_order \<Longrightarrow> L k = p # t \<Longrightarrow>
     mm_free_region s (int k) = Some p \<and> list_at (nx s) (nx s p) t \<and> p \<notin> set t"
  using pinv_list [of s L X k] list_at_head_notin [of "nx s" p t] by auto

section \<open>Elementary steps\<close>

lemma free_set_upd: "k \<le> max_order \<Longrightarrow>
  free_set (L(k := xs)) = {(p, l). (p, l) \<in> free_set L \<and> l \<noteq> k} \<union> {(p, k) |p. p \<in> set xs}"
  by (auto simp: free_set_def)

text \<open>Taking the head off a free list leaves its block in neither the lists nor the allocated blocks.\<close>

lemma pinv_pop:
  assumes inv: "pinv s L {}" and k: "k \<le> max_order" and hd: "L k = p # t"
  shows "pinv (put_region k (nx s p) s) (L(k := t)) {(p, k)}"
    and "free_set (L(k := t)) = free_set L - {(p, k)}"
proof -
  have p: "p \<in> set (L k)" "p \<notin> set t" using pinv_head [OF inv k hd] hd by auto
  show F: "free_set (L(k := t)) = free_set L - {(p, k)}"
    using k hd p by (auto simp: free_set_def)
  have "free_set L - {(p, k)} \<union> alloc_blocks s \<union> {(p, k)} = free_set L \<union> alloc_blocks s \<union> {}"
    using pinv_free(1) [OF inv k p(1)] by auto
  with inv pinv_head [OF inv k hd] pinv_free(1) [OF inv k p(1)]
  show "pinv (put_region k (nx s p) s) (L(k := t)) {(p, k)}"
    unfolding pinv_def F by auto
qed

lemma pinv_push:
  assumes inv: "pinv s L (insert (p, k) X)" and X: "(p, k) \<notin> X"
  defines "s' \<equiv> put_region k (Some p) (set_next p (mm_free_region s (int k)) s)"
  shows "pinv s' (L(k := p # L k)) X"
    and "free_set (L(k := p # L k)) = insert (p, k) (free_set L)"
    and "k \<le> max_order" and "p < mm_frames_count s" and "alloc_blocks s' = alloc_blocks s"
proof -
  from inv show k: "k \<le> max_order" and n: "p < mm_frames_count s"
    unfolding pinv_def by (blast dest: buddy_setD)+
  from inv have o: "ord s p = int k" by (auto simp: pinv_def dest: orders_ok_head)
  have notin: "p \<notin> set (L l)" if "l \<le> max_order" for l
    using inv o pinv_free(1,2) [OF inv that, of p] that by (auto simp: pinv_def)
  show F: "free_set (L(k := p # L k)) = insert (p, k) (free_set L)"
    using k by (auto simp: free_set_def)
  have B: "insert (p, k) (free_set L) \<union> alloc_blocks s \<union> X = free_set L \<union> alloc_blocks s \<union> insert (p, k) X"
    by auto
  show A: "alloc_blocks s' = alloc_blocks s" by (simp add: s'_def)
  have lists: "list_at (nx s') (mm_free_region s' (int l)) ((L(k := p # L k)) l)" if "l \<le> max_order" for l
    using pinv_list [OF inv that] notin [OF that] by (cases "l = k") (simp_all add: s'_def)
  show "pinv s' (L(k := p # L k)) X"
    unfolding pinv_def F A B
    by (intro conjI) (use lists X pinvD [OF inv] in \<open>simp_all add: s'_def\<close>)
qed

lemma pinv_mark:
  assumes inv: "pinv s L {(p, k)}"
  defines "s' \<equiv> set_flags p (fl s p OR FRAME_ALLOCATED) s"
  shows "pinv s' L {}" and "alloc_blocks s' = insert (p, k) (alloc_blocks s)"
proof -
  from inv have o: "ord s p = int k" and n: "p < mm_frames_count s"
    unfolding pinv_def by (blast dest: orders_ok_head buddy_setD)+
  show A: "alloc_blocks s' = insert (p, k) (alloc_blocks s)"
    using o n by (auto simp: alloc_blocks_def s'_def split: if_splits)
  have "q \<noteq> p" if "(q, l) \<in> free_set L" for q l
  proof -
    from that inv have "ord s q = int l" "(p, k) \<notin> free_set L"
      unfolding pinv_def by (blast dest: orders_ok_head)+
    with that o show ?thesis by (auto simp: free_set_def)
  qed
  moreover have "\<not> is_resv s p" using inv by (simp add: pinv_def)
  moreover have r: "is_resv s' = is_resv s" by (auto simp: s'_def fun_eq_iff is_resv_def)
  moreover have "free_set L \<union> insert (p, k) (alloc_blocks s) \<union> {} = free_set L \<union> alloc_blocks s \<union> {(p, k)}" by auto
  ultimately show "pinv s' L {}"
    using inv o unfolding pinv_def A r by (auto simp: s'_def)
qed

lemma pinv_unmark:
  assumes inv: "pinv s L {}" and a: "(p, k) \<in> alloc_blocks s"
  defines "s' \<equiv> set_flags p (fl s p AND NOT FRAME_ALLOCATED) s"
  shows "pinv s' L {(p, k)}" and "alloc_blocks s' = alloc_blocks s - {(p, k)}"
proof -
  from a have o: "ord s p = int k" and n: "p < mm_frames_count s" and al: "is_alloc s p"
    by (auto simp: alloc_blocks_def)
  show A: "alloc_blocks s' = alloc_blocks s - {(p, k)}"
    using o n by (auto simp: alloc_blocks_def s'_def split: if_splits)
  have "(p, l) \<notin> free_set L" for l using inv al by (auto simp: pinv_def)
  moreover have r: "is_resv s' = is_resv s" by (auto simp: s'_def fun_eq_iff is_resv_def)
  moreover have "free_set L \<union> (alloc_blocks s - {(p, k)}) \<union> {(p, k)} = free_set L \<union> alloc_blocks s \<union> {}"
    using a by auto
  ultimately show "pinv s' L {(p, k)}"
    using inv unfolding pinv_def A r by (auto simp: s'_def)
qed

text \<open>The search finds a frame of the list together with its predecessor.\<close>

lemma find_frame_list:
  assumes "list_at (nx s) cur (us @ b # vs)" and "set us \<subseteq> {..<mm_frames_count s}"
    and "length us \<le> fuel" and "b \<notin> set us"
  shows "find_frame fuel b cur prev s = Inr (Some b, if us = [] then prev else Some (last us))"
  using assms
proof (induction us arbitrary: fuel cur prev)
  case Nil
  then show ?case by (cases fuel) auto
next
  case (Cons u us)
  then obtain n where "fuel = Suc n" by (cases fuel) auto
  with Cons show ?case by (auto simp: frame_at_ok frame_fields)
qed

lemma pinv_remove:
  assumes inv: "pinv s L X" and k: "k \<le> max_order" and b: "b \<in> set (L k)"
  obtains s' where "remove_frame_from_list b s = Inr s'"
    and "pinv s' (L(k := remove1 b (L k))) (insert (b, k) X)"
    and "free_set (L(k := remove1 b (L k))) = free_set L - {(b, k)}"
    and "ord s' = ord s" and "fl s' = fl s" and "mm_frames_count s' = mm_frames_count s"
proof -
  note l = pinv_list [OF inv k] and f = pinv_free [OF inv k b]
  have dist: "distinct (L k)" using l by (rule list_at_distinct)
  from b obtain us vs where Lk: "L k = us @ b # vs" and nb: "b \<notin> set us" by (meson split_list_first)
  have r1: "remove1 b (L k) = us @ vs" using nb by (simp add: Lk remove1_append)
  have sub: "set (L k) \<subseteq> {..<mm_frames_count s}" using pinv_free(3) [OF inv k] by auto
  then have "card (set us) \<le> mm_frames_count s"
    by (metis Lk Un_subset_iff card_lessThan card_mono finite_lessThan set_append)
  with dist have len: "length us \<le> mm_frames_count s" by (simp add: Lk distinct_card)
  let ?s = "if us = [] then put_region k (nx s b) s else set_next (last us) (nx s b) s"
  have last: "last us \<in> set us" "last us < mm_frames_count s" if "us \<noteq> []"
    using sub last_in_set [OF that] unfolding Lk set_append by blast+
  have find: "find_frame (mm_frames_count s) b (mm_free_region s (int k)) None s
      = Inr (Some b, if us = [] then None else Some (last us))"
    using l sub len nb by (intro find_frame_list) (auto simp: Lk)
  then have rem: "remove_frame_from_list b s = Inr ?s"
    using f(2,3) k last(2) by (cases "us = []") (simp_all add: remove_frame_from_list_def access_ok)
  have F: "free_set (L(k := remove1 b (L k))) = free_set L - {(b, k)}"
    using k dist by (auto simp: free_set_def split: if_splits)
  have lk: "list_at (nx ?s) (mm_free_region ?s (int k)) (us @ vs)"
  proof (cases "us = []")
    case True
    with l show ?thesis by (simp add: Lk)
  next
    case False
    have us: "butlast us @ [last us] @ zs = us @ zs" for zs
      using append_butlast_last_id [OF False] by (metis append_assoc)
    from l have "list_at (nx s) (mm_free_region s (int k)) (butlast us @ [last us] @ b # vs)"
      unfolding us Lk .
    from list_at_unlink_mid [OF this] show ?thesis
      unfolding us using False by simp
  qed
  have lo: "list_at (nx ?s) (mm_free_region ?s (int l)) (L l)" if "l \<le> max_order" "l \<noteq> k" for l
    using pinv_list [OF inv that(1)] pinv_other_list [OF inv k _ that, of "last us"] last(1) that(2)
    by (cases "us = []") (simp_all add: Lk)
  have same: "ord ?s = ord s" "fl ?s = fl s" "mm_frames_count ?s = mm_frames_count s" by auto
  then have alr: "is_alloc ?s = is_alloc s" "is_resv ?s = is_resv s"
    by (auto simp: is_alloc_def is_resv_def fun_eq_iff)
  then have A: "alloc_blocks ?s = alloc_blocks s" using same by (simp add: alloc_blocks_def)
  have B: "free_set L - {(b, k)} \<union> alloc_blocks s \<union> insert (b, k) X = free_set L \<union> alloc_blocks s \<union> X"
    using f(1) by auto
  have lists: "\<forall>l \<le> max_order. list_at (nx ?s) (mm_free_region ?s (int l)) ((L(k := remove1 b (L k))) l)"
  proof (intro allI impI)
    fix l assume "l \<le> max_order"
    with lk lo show "list_at (nx ?s) (mm_free_region ?s (int l)) ((L(k := remove1 b (L k))) l)"
      unfolding r1 by (cases "l = k") simp_all
  qed
  have "pinv ?s (L(k := remove1 b (L k))) (insert (b, k) X)"
    unfolding pinv_def F A alr same B
    by (intro conjI lists pinv_buddy [OF inv] pinv_orders [OF inv] pinv_not_resv [OF inv]
          pinv_alloc_ord [OF inv] pinv_count [OF inv])
      (use pinv_not_alloc [OF inv] pinv_disj [OF inv] f(6) in auto)
  then show ?thesis by (rule that [OF rem _ F same])
qed

end
