(* ===== verification/Pmm_Ops.thy ===== *)
theory Pmm_Ops
  imports Pmm_Inv
begin

text \<open>
  Total correctness of the operations of the frame allocator: splitting, merging,
  \<open>alloc_frames\<close> and \<open>free_frame\<close> never fault or panic on a state that satisfies the invariant,
  keep it, and change the free and allocated blocks as a buddy allocator should.
\<close>

section \<open>Splitting\<close>

lemma pinv_split:
  assumes inv: "pinv s L {(p, Suc k)}"
  defines "b \<equiv> p + 2 ^ k"
  defines "s' \<equiv> set_flags b (fl s p) (set_order p (int k) (set_order b (int k) s))"
  shows "pinv s' L {(p, k), (b, k)}" and "alloc_blocks s' = alloc_blocks s"
    and "b < mm_frames_count s"
proof -
  let ?B = "free_set L \<union> alloc_blocks s \<union> {(p, Suc k)}"
  note B = pinv_buddy [OF inv]
  have x: "(p, Suc k) \<in> ?B" by simp
  have bin: "b \<in> blk (p, Suc k)" by (simp add: b_def blk_def)
  show bn: "b < mm_frames_count s"
    using buddy_setD(3) [OF B x] zero_less_power [of "2 :: nat" k] unfolding b_def power_Suc by linarith
  have bp: "b \<noteq> p" by (simp add: b_def)
  have only: "(q, l) = (p, Suc k)" if "(q, l) \<in> ?B" "q = b \<or> q = p" for q l
    using buddy_set_disjoint [OF B that(1) x, of q] bin that(2) by auto
  have pa: "\<not> is_alloc s p" and pr: "\<not> is_resv s p" and "(p, Suc k) \<notin> free_set L"
    using pinvD [OF inv] by auto
  have ba: "\<not> is_alloc s b"
  proof
    assume "is_alloc s b"
    with bn pinv_alloc_ord [OF inv] have "(b, nat (ord s b)) \<in> alloc_blocks s"
      by (simp add: alloc_blocks_def)
    with only bp show False by blast
  qed
  have al: "is_alloc s' = is_alloc s"
    using pa ba by (auto simp: s'_def is_alloc_def fun_eq_iff)
  show A: "alloc_blocks s' = alloc_blocks s"
    using pa ba unfolding alloc_blocks_def al by (auto simp: s'_def split: if_splits)
  have resv: "is_resv s' = (is_resv s)(b := False)"
    using pr by (auto simp: s'_def is_resv_def fun_eq_iff)
  have ord: "ord s' = (ord s)(p + 2 ^ k := int k, p := int k)" by (simp add: s'_def b_def)
  have nF: "(p, k) \<notin> free_set L" "(b, k) \<notin> free_set L" "(p, Suc k) \<notin> alloc_blocks s"
    using only [of p k] only [of b k] bp pa by (simp_all add: alloc_blocks_def) blast+
  have S: "free_set L \<union> alloc_blocks s \<union> {(p, k), (b, k)} = split_block p k ?B"
    using nF pinv_disj [OF inv] by (auto simp: split_block_def b_def)
  have lists: "list_at (nx s') (mm_free_region s' (int l)) (L l)" if "l \<le> max_order" for l
    using pinv_list [OF inv that] by (simp add: s'_def)
  have cnt: "mm_frames_count s' = mm_frames_count s" by (simp add: s'_def)
  show "pinv s' L {(p, k), (b, k)}"
    unfolding pinv_def A S cnt al ord
  proof (intro conjI)
    show "buddy_set (mm_frames_count s) (split_block p k ?B)" by (rule buddy_set_split(1) [OF B x])
    show "orders_ok (mm_frames_count s) ((ord s)(p + 2 ^ k := int k, p := int k)) (split_block p k ?B)"
      by (rule orders_ok_split [OF B pinv_orders [OF inv] x])
    show "\<forall>q l. (q, l) \<in> free_set L \<union> {(p, k), (b, k)} \<longrightarrow> \<not> is_alloc s q"
      using pinv_not_alloc [OF inv] pa ba by auto
    show "\<forall>q l. (q, l) \<in> split_block p k ?B \<longrightarrow> \<not> is_resv s' q"
      using pinv_not_resv [OF inv] pr unfolding S [symmetric] resv by auto
    show "\<forall>i < mm_frames_count s. is_alloc s i \<longrightarrow> 0 \<le> ((ord s)(p + 2 ^ k := int k, p := int k)) i"
      using pinv_alloc_ord [OF inv] by auto
  qed (use lists nF pinv_count [OF inv] in auto)
qed

lemma pinv_divide:
  assumes inv: "pinv s L {}" and k: "Suc k \<le> max_order" and hd: "L (Suc k) = p # t"
  defines "L' \<equiv> (L(Suc k := t))(k := p # (p + 2 ^ k) # L k)"
  obtains s' where "divide_buddy (int (Suc k)) s = Inr s'" and "pinv s' L' {}"
    and "free_set L' = split_block p k (free_set L)" and "alloc_blocks s' = alloc_blocks s"
    and "mm_frames_count s' = mm_frames_count s"
proof -
  let ?b = "p + 2 ^ k"
  define s1 where "s1 = put_region (Suc k) (nx s p) s"
  define s2 where "s2 = set_flags ?b (fl s1 p) (set_order p (int k) (set_order ?b (int k) s1))"
  define s3 where "s3 = put_region k (Some ?b) (set_next ?b (mm_free_region s2 (int k)) s2)"
  define s4 where "s4 = put_region k (Some p) (set_next p (mm_free_region s3 (int k)) s3)"
  have p1: "pinv s1 (L(Suc k := t)) {(p, Suc k)}" and F1: "free_set (L(Suc k := t)) = free_set L - {(p, Suc k)}"
    using pinv_pop [OF inv k hd] by (simp_all add: s1_def)
  note split = pinv_split [OF p1, folded s2_def]
  from split(1) have "pinv s2 (L(Suc k := t)) (insert (?b, k) {(p, k)})" by (simp add: insert_commute)
  note push1 = pinv_push [OF this, folded s3_def]
  have p3: "pinv s3 (L(Suc k := t, k := ?b # L k)) {(p, k)}" using push1(1) by simp
  note push2 = pinv_push [OF p3, folded s4_def]
  have L': "(L(Suc k := t, k := ?b # L k))(k := p # (L(Suc k := t, k := ?b # L k)) k) = L'"
    by (simp add: L'_def)
  have pn: "p < mm_frames_count s" using push2(4) by (simp add: s3_def s2_def s1_def)
  have bn: "?b < mm_frames_count s" using split(3) by (simp add: s1_def)
  have reg: "mm_free_region s (1 + int k) = Some p" using pinv_head [OF inv k hd] by simp
  have "divide_buddy (int (Suc k)) s = Inr s4"
    using k reg pn bn region_ok [of "Suc k"] region_ok [of k]
    by (simp add: divide_buddy_def deref_def access_ok s4_def s3_def s2_def s1_def)
      (simp add: writes Let_def)
  moreover have "free_set L' = split_block p k (free_set L)"
    using push2(2) push1(2) F1 unfolding L' by (auto simp: split_block_def)
  moreover have "alloc_blocks s4 = alloc_blocks s"
    using push2(5) push1(5) split(2) by (simp add: s1_def)
  moreover have "mm_frames_count s4 = mm_frames_count s"
    by (simp add: s4_def s3_def s2_def s1_def)
  ultimately show ?thesis using that push2(1) unfolding L' by blast
qed

lemma split_down_ok:
  assumes "pinv s L {}" and "k \<le> c" and "c \<le> max_order" and "L c = p # t"
  shows "\<exists>s' L' t'. split_down (int c) (int k) s = Inr s' \<and> pinv s' L' {} \<and> L' k = p # t' \<and>
    free_set L' = insert (p, k) (carve p k c (free_set L)) \<and>
    cover (free_set L') = cover (free_set L) \<and> alloc_blocks s' = alloc_blocks s \<and>
    mm_frames_count s' = mm_frames_count s"
  using assms
proof (induction "c - k" arbitrary: c s L t)
  case 0
  then have "c = k" by simp
  moreover have "(p, k) \<in> free_set L" using "0.prems" calculation by (simp add: free_set_def)
  then have "free_set L = insert (p, k) (carve p k k (free_set L))" by (auto simp: carve_def)
  ultimately show ?case using "0.prems" by (intro exI [of _ s] exI [of _ L]) (simp add: split_down.simps)
next
  case (Suc d)
  define c' where "c' = c - 1"
  with Suc.hyps(2) have c: "c = Suc c'" "d = c' - k" "k \<le> c'" by simp_all
  let ?L = "(L(Suc c' := t))(c' := p # (p + 2 ^ c') # L c')"
  from Suc.prems(3) c(1) have sc: "Suc c' \<le> max_order" by simp
  from Suc.prems(4) c(1) have hd: "L (Suc c') = p # t" by simp
  from Suc.prems(1) sc hd obtain s1 where d: "divide_buddy (int (Suc c')) s = Inr s1" and p1: "pinv s1 ?L {}"
    and F: "free_set ?L = split_block p c' (free_set L)" and A: "alloc_blocks s1 = alloc_blocks s"
    and n: "mm_frames_count s1 = mm_frames_count s" by (rule pinv_divide)
  have x: "(p, Suc c') \<in> free_set L" using sc hd by (simp add: free_set_def)
  have B: "buddy_set (mm_frames_count s) (free_set L)"
    by (rule buddy_set_mono [OF pinv_buddy [OF Suc.prems(1)]]) auto
  from buddy_set_split(2) [OF B x] have cov: "cover (free_set ?L) = cover (free_set L)"
    unfolding F .
  have "c' \<le> max_order" "?L c' = p # (p + 2 ^ c') # L c'" using sc by simp_all
  from Suc.hyps(1) [OF c(2) p1 c(3) this] obtain s' L' t' where s': "split_down (int c') (int k) s1 = Inr s'"
    and F': "free_set L' = insert (p, k) (carve p k c' (free_set ?L))"
    and *: "pinv s' L' {}" "L' k = p # t'" "cover (free_set L') = cover (free_set ?L)"
      "alloc_blocks s' = alloc_blocks s1" "mm_frames_count s' = mm_frames_count s1"
    by blast
  have "(p, c') \<notin> free_set L"
    using buddy_set_disjoint [OF B _ x, of p c' p] by auto
  then have "carve p k c' (split_block p c' (free_set L)) = carve p k c (free_set L)"
    using c by (auto simp: carve_def split_block_def less_Suc_eq)
  moreover have "split_down (int c) (int k) s = Inr s'"
    using d s' c by (subst split_down.simps) (simp add: add.commute)
  ultimately show ?case using * cov A n F' unfolding F by auto
qed

section \<open>alloc_frames\<close>

lemma find_order_ok:
  assumes inv: "pinv s L {}" and "k \<le> max_order"
  shows "\<exists>c. find_order (int k) s = Inr (int c) \<and> k \<le> c \<and> c \<le> max_order \<and>
    (L c \<noteq> [] \<or> (\<forall>l. k \<le> l \<and> l \<le> max_order \<longrightarrow> L l = []))"
  using assms(2)
proof (induction "max_order - k" arbitrary: k)
  case 0
  then have k: "k = max_order" by simp
  then have "find_order (int k) s = Inr (int k)"
    by (simp add: find_order.simps FRAME_MAX_ORDER_def max_order_def)
  with k show ?case by (intro exI [of _ k]) (auto simp: le_antisym)
next
  case (Suc d)
  then have k: "k < max_order" and d: "d = max_order - Suc k" by simp_all
  then have lt: "int k < FRAME_MAX_ORDER" by (simp add: FRAME_MAX_ORDER_def max_order_def)
  note reg = pinv_empty_region [OF inv Suc.prems]
  show ?case
  proof (cases "L k = []")
    case True
    from Suc.hyps(1) [OF d Suc_leI [OF k]] obtain c where
      c: "find_order (int (Suc k)) s = Inr (int c)" "Suc k \<le> c" "c \<le> max_order"
      "L c \<noteq> [] \<or> (\<forall>l. Suc k \<le> l \<and> l \<le> max_order \<longrightarrow> L l = [])" by blast
    have "find_order (int k) s = Inr (int c)"
      using True lt c(1) reg Suc.prems by (subst find_order.simps) (simp add: region_ok add.commute)
    moreover have "L l = []" if "k \<le> l" "l \<le> max_order" "L c = []" for l
      using that c(4) True by (cases "l = k") auto
    ultimately show ?thesis using c(2,3) by (intro exI [of _ c]) auto
  next
    case False
    then have "find_order (int k) s = Inr (int k)"
      using lt reg Suc.prems by (subst find_order.simps) (simp add: region_ok)
    with False k show ?thesis by (intro exI [of _ k]) auto
  qed
qed

lemma cover_remove: "buddy_set n B \<Longrightarrow> b \<in> B \<Longrightarrow> cover (B - {b}) = cover B - blk b"
  by (fastforce simp: cover_def buddy_set_def)

text \<open>A frame index below \<open>2^52\<close> survives the shift to an address and back, and is never the invalid address.\<close>

lemma frame_addr:
  assumes "p < 2 ^ 52"
  shows "unat (drop_bit 12 (push_bit 12 (of_nat p :: u64))) = p"
    and "push_bit 12 (of_nat p :: u64) \<noteq> - 1"
proof -
  have "unat (push_bit 12 (of_nat p :: u64)) = p * 2 ^ 12"
    using assms by (simp add: push_bit_eq_mult unat_word_ariths unat_of_nat)
  then show "unat (drop_bit 12 (push_bit 12 (of_nat p :: u64))) = p"
    by (simp only: unat_drop_bit_eq) (simp add: drop_bit_eq_div)
  have "\<not> bit (push_bit 12 (of_nat p :: u64)) 0" by (simp add: bit_simps)
  then show "push_bit 12 (of_nat p :: u64) \<noteq> - 1" by (metis bit_minus_1_iff possible_bit_word len_gt_0)
qed

lemma alloc_frames_inv:
  assumes "pmm_inv s" and "k \<le> max_order"
  obtains (fail) "alloc_frames (int k) s = Inr (INVALID_ADDRESS, s)"
      and "\<forall>q l. (q, l) \<in> free_blocks s \<longrightarrow> l < k"
    | (ok) p c s' where "alloc_frames (int k) s = Inr (push_bit 12 (of_nat p), s')" and "pmm_inv s'"
      and "p < 2 ^ 52" and "2 ^ k dvd p" and "(p, c) \<in> free_blocks s" and "k \<le> c"
      and "free_blocks s' = carve p k c (free_blocks s)"
      and "blk (p, k) \<subseteq> cover (free_blocks s)"
      and "cover (free_blocks s') = cover (free_blocks s) - blk (p, k)"
      and "(p, k) \<notin> alloc_blocks s" and "alloc_blocks s' = insert (p, k) (alloc_blocks s)"
      and "mm_frames_count s' = mm_frames_count s"
proof -
  from assms(1) obtain L where inv: "pinv s L {}" by (auto simp: pmm_inv_def)
  from find_order_ok [OF inv assms(2)] obtain c where c: "find_order (int k) s = Inr (int c)"
    "k \<le> c" "c \<le> max_order" "L c \<noteq> [] \<or> (\<forall>l. k \<le> l \<and> l \<le> max_order \<longrightarrow> L l = [])" by blast
  note reg = pinv_empty_region [OF inv c(3)] and F0 = pinv_free_blocks [OF inv]
  show thesis
  proof (cases "L c = []")
    case True
    then have "alloc_frames (int k) s = Inr (INVALID_ADDRESS, s)"
      using c reg by (simp add: alloc_frames_def region_ok)
    moreover have "l < k" if "(q, l) \<in> free_blocks s" for q l
      using that True c(4) by (cases "k \<le> l") (auto simp: F0 free_set_def)
    ultimately show thesis using fail by blast
  next
    case False
    then obtain p t0 where hd0: "L c = p # t0" by (cases "L c") auto
    from split_down_ok [OF inv c(2,3) hd0] obtain s1 L1 t where
      s1: "split_down (int c) (int k) s = Inr s1" "pinv s1 L1 {}"
      "cover (free_set L1) = cover (free_set L)" "alloc_blocks s1 = alloc_blocks s"
      "mm_frames_count s1 = mm_frames_count s" and hd: "L1 k = p # t"
      and F1: "free_set L1 = insert (p, k) (carve p k c (free_set L))" by blast
    define s2 where "s2 = put_region k (nx s1 p) s1"
    define s3 where "s3 = set_flags p (fl s2 p OR FRAME_ALLOCATED) s2"
    have p: "p \<in> set (L1 k)" using hd by simp
    note f = pinv_free [OF s1(2) assms(2) p]
    note pop = pinv_pop [OF s1(2) assms(2) hd, folded s2_def]
    note mark = pinv_mark [OF pop(1), folded s3_def]
    have pc: "(p, c) \<in> free_set L" using hd0 c(3) by (simp add: free_set_def)
    have F: "free_blocks s3 = free_set L1 - {(p, k)}"
      using pinv_free_blocks [OF mark(1)] pop(2) by simp
    have B0: "buddy_set (mm_frames_count s) (free_set L)"
      by (rule buddy_set_mono [OF pinv_buddy [OF inv]]) auto
    have "(p, k) \<notin> carve p k c (free_set L)"
      using buddy_set_disjoint [OF B0 _ pc, of p k p] by (auto simp: carve_def)
    then have carve: "free_blocks s3 = carve p k c (free_blocks s)" by (simp add: F F1 F0)
    have "buddy_set (mm_frames_count s1) (free_set L1)"
      by (rule buddy_set_mono [OF pinv_buddy [OF s1(2)]]) auto
    from cover_remove [OF this f(1)] have cov: "cover (free_blocks s3) = cover (free_blocks s) - blk (p, k)"
      by (simp add: F F0 s1(3))
    have A: "alloc_blocks s3 = insert (p, k) (alloc_blocks s)"
      using mark(2) s1(4) by (simp add: s2_def)
    have "alloc_frames (int k) s = Inr (push_bit 12 (of_nat p), s3)"
      using c(1,3) False reg s1(1) assms(2) pinv_head [OF s1(2) assms(2) hd] f(3)
      by (clarsimp simp: alloc_frames_def access_ok deref_def PAGE_SHIFT_def s3_def s2_def)
    moreover have "p < 2 ^ 52" using f(3) pinv_count [OF s1(2)] by simp
    moreover have "blk (p, k) \<subseteq> cover (free_blocks s)"
      using f(1) unfolding F0 s1(3) [symmetric] by (auto simp: cover_def)
    moreover have "(p, k) \<notin> alloc_blocks s" using f(6) s1(4) by (auto simp: alloc_blocks_def)
    moreover have "mm_frames_count s3 = mm_frames_count s" using s1(5) by (simp add: s3_def s2_def)
    ultimately show thesis
      using ok [of p s3 c] mark(1) f(4) pc c(2) cov A carve by (auto simp: pmm_inv_def F0)
  qed
qed

section \<open>Merging and free_frame\<close>

lemma pinv_merge:
  assumes inv: "pinv s L {(p, k), (p + 2 ^ k, k)}" and k: "k < max_order" and al: "2 ^ Suc k dvd p"
  defines "s' \<equiv> set_order p (int (Suc k)) s"
  shows "pinv s' L {(p, Suc k)}" and "alloc_blocks s' = alloc_blocks s"
proof -
  let ?B = "free_set L \<union> alloc_blocks s \<union> {(p, k), (p + 2 ^ k, k)}"
  note B = pinv_buddy [OF inv]
  have pa: "\<not> is_alloc s p" "\<not> is_alloc s (p + 2 ^ k)" using pinv_not_alloc [OF inv] by auto
  show A: "alloc_blocks s' = alloc_blocks s"
    using pa by (auto simp: alloc_blocks_def s'_def split: if_splits)
  have o: "ord s p = int k" by (rule orders_ok_head [OF pinv_orders [OF inv]]) simp
  have nF: "(p, Suc k) \<notin> free_set L"
    using orders_ok_head [OF pinv_orders [OF inv], of p "Suc k"] o by auto
  have M: "free_set L \<union> alloc_blocks s \<union> {(p, Suc k)} = merge_block p k ?B"
    using pinv_disj [OF inv] pa by (auto simp: merge_block_def alloc_blocks_def)
  have x: "(p, k) \<in> ?B" "(p + 2 ^ k, k) \<in> ?B" by auto
  have lists: "list_at (nx s') (mm_free_region s' (int l)) (L l)" if "l \<le> max_order" for l
    using pinv_list [OF inv that] by (simp add: s'_def)
  have same: "mm_frames_count s' = mm_frames_count s" "is_alloc s' = is_alloc s" "is_resv s' = is_resv s"
    "ord s' = (ord s)(p := int (Suc k))" by (simp_all add: s'_def)
  show "pinv s' L {(p, Suc k)}"
    unfolding pinv_def A M same
  proof (intro conjI)
    show "buddy_set (mm_frames_count s) (merge_block p k ?B)"
      by (rule buddy_set_merge(1) [OF B x k al])
    show "orders_ok (mm_frames_count s) ((ord s)(p := int (Suc k))) (merge_block p k ?B)"
      by (rule orders_ok_merge [OF B pinv_orders [OF inv] x al])
    show "\<forall>q l. (q, l) \<in> merge_block p k ?B \<longrightarrow> \<not> is_resv s q"
      using pinv_not_resv [OF inv] unfolding M [symmetric] by auto
    show "\<forall>i < mm_frames_count s. is_alloc s i \<longrightarrow> 0 \<le> ((ord s)(p := int (Suc k))) i"
      using pinv_alloc_ord [OF inv] by auto
  qed (use lists nF pinv_count [OF inv] pinv_not_alloc [OF inv] in auto)
qed

text \<open>One round of the loop: the free buddy is unlinked and the two blocks become one.\<close>

lemma merge_round:
  assumes inv: "pinv s L {(p, k)}" and k: "k < max_order"
    and q: "p XOR 2 ^ k < mm_frames_count s" "ord s (p XOR 2 ^ k) = int k"
      "fl s (p XOR 2 ^ k) AND (FRAME_ALLOCATED OR FRAME_RESERVED) = 0"
  defines "lo \<equiv> min p (p XOR 2 ^ k)"
  obtains s1 L1 where "remove_frame_from_list (p XOR 2 ^ k) s = Inr s1" and "ord s1 lo = int k"
    and "lo < mm_frames_count s1"
    and "pinv (set_order lo (int (Suc k)) s1) L1 {(lo, Suc k)}"
    and "alloc_blocks (set_order lo (int (Suc k)) s1) = alloc_blocks s"
    and "mm_frames_count s1 = mm_frames_count s" and "free_set L1 \<subseteq> free_set L"
    and "cover (insert (lo, Suc k) (free_set L1)) = cover (insert (p, k) (free_set L))"
    and "blk (p, k) \<subseteq> blk (lo, Suc k)"
proof -
  let ?q = "p XOR 2 ^ k"
  note B = pinv_buddy [OF inv] and km = less_imp_le [OF k]
  have x: "(p, k) \<in> free_set L \<union> alloc_blocks s \<union> {(p, k)}" by simp
  note al = buddy_aligned [OF buddy_setD(2) [OF B x], folded lo_def]
  from q(3) have nq: "\<not> is_alloc s ?q" by (simp add: flags_busy)
  have qF: "(?q, k) \<in> free_set L"
    using buddy_is_block [OF B pinv_orders [OF inv] x q(1,2)] nq buddy_neq [of p k]
    by (auto simp: alloc_blocks_def)
  then have qL: "?q \<in> set (L k)" by (simp add: free_set_def)
  let ?L = "L(k := remove1 ?q (L k))"
  from inv km qL obtain s1 where s1: "remove_frame_from_list ?q s = Inr s1"
    "pinv s1 ?L (insert (?q, k) {(p, k)})" "free_set ?L = free_set L - {(?q, k)}"
    "ord s1 = ord s" "fl s1 = fl s" "mm_frames_count s1 = mm_frames_count s"
    by (rule pinv_remove)
  have A1: "alloc_blocks s1 = alloc_blocks s"
    using s1(4-6) by (simp add: alloc_blocks_def is_alloc_def)
  have pair: "insert (?q, k) {(p, k)} = {(lo, k), (lo + 2 ^ k, k)}"
    using al(3) by (auto simp: lo_def min_def max_def split: if_splits)
  note merge = pinv_merge [OF s1(2) [unfolded pair] k al(2)]
  have "(lo, k) \<in> insert (?q, k) {(p, k)}" unfolding pair by simp
  with q(2) orders_ok_head [OF pinv_orders [OF inv] x] have o: "ord s lo = int k" by auto
  have "lo < mm_frames_count s" using q(1) by (simp add: lo_def min_def)
  moreover have halves: "blk (lo, Suc k) = blk (p, k) \<union> blk (?q, k)"
    unfolding blk_halves using pair by (auto simp: insert_eq_iff doubleton_eq_iff)
  moreover have "cover (insert (lo, Suc k) (free_set ?L)) = cover (insert (p, k) (free_set L))"
    using qF unfolding s1(3) by (auto simp: cover_def halves)
  moreover have "free_set ?L \<subseteq> free_set L" unfolding s1(3) by blast
  ultimately show thesis
    using that [OF s1(1) _ _ merge(1)] merge(2) A1 s1(4,6) o by simp
qed

lemma merge_loop_ok:
  assumes "pinv s L {(p, k)}"
  shows "\<exists>p' k' s' L'. merge_loop p s = Inr (p', s') \<and> pinv s' L' {(p', k')} \<and>
    alloc_blocks s' = alloc_blocks s \<and> mm_frames_count s' = mm_frames_count s \<and>
    cover (insert (p', k') (free_set L')) = cover (insert (p, k) (free_set L)) \<and>
    free_set L' \<subseteq> free_set L \<and> (k' = max_order \<or> (p' XOR 2 ^ k', k') \<notin> free_set L') \<and>
    blk (p, k) \<subseteq> blk (p', k')"
  using assms
proof (induction "max_order - k" arbitrary: p k s L)
  case 0
  let ?B = "free_set L \<union> alloc_blocks s \<union> {(p, k)}"
  have x: "(p, k) \<in> ?B" by simp
  note d = buddy_setD [OF pinv_buddy [OF "0.prems"] x] and o = orders_ok_head [OF pinv_orders [OF "0.prems"] x]
  from "0.hyps" d(1) have "k = max_order" by simp
  moreover have "merge_loop p s = Inr (p, s)"
    using calculation d(4) o by (subst merge_loop.simps) (simp add: access_ok FRAME_MAX_ORDER_def max_order_def)
  ultimately show ?case using "0.prems" by blast
next
  case (Suc d)
  let ?B = "free_set L \<union> alloc_blocks s \<union> {(p, k)}" and ?q = "p XOR 2 ^ k"
  have x: "(p, k) \<in> ?B" by simp
  note dd = buddy_setD [OF pinv_buddy [OF Suc.prems] x] and o = orders_ok_head [OF pinv_orders [OF Suc.prems] x]
  from Suc.hyps(2) have k: "k < max_order" and kd: "d = max_order - Suc k" by simp_all
  then have lt: "int k < FRAME_MAX_ORDER" by (simp add: FRAME_MAX_ORDER_def max_order_def)
  show ?case
  proof (cases "?q < mm_frames_count s \<and> ord s ?q = int k \<and>
      fl s ?q AND (FRAME_ALLOCATED OR FRAME_RESERVED) = 0")
    case False
    then have "merge_loop p s = Inr (p, s)"
      using lt dd(4) o by (subst merge_loop.simps) (auto simp: access_ok Let_def)
    moreover have "(?q, k) \<notin> free_set L"
      using False pinv_free [OF Suc.prems less_imp_le [OF k], of ?q] k by (auto simp: free_set_def flags_busy)
    ultimately show ?thesis using Suc.prems by blast
  next
    case True
    let ?lo = "min p ?q"
    from True obtain s1 L1 where s1: "remove_frame_from_list ?q s = Inr s1" "ord s1 ?lo = int k"
      "?lo < mm_frames_count s1" "pinv (set_order ?lo (int (Suc k)) s1) L1 {(?lo, Suc k)}"
      "alloc_blocks (set_order ?lo (int (Suc k)) s1) = alloc_blocks s" "mm_frames_count s1 = mm_frames_count s"
      "free_set L1 \<subseteq> free_set L"
      "cover (insert (?lo, Suc k) (free_set L1)) = cover (insert (p, k) (free_set L))"
      "blk (p, k) \<subseteq> blk (?lo, Suc k)"
      using merge_round [OF Suc.prems k] by blast
    have lo: "(if ?q < p then ?q else p) = ?lo" by (simp add: min_def)
    have up: "upd_frame ?lo (\<lambda>g. g\<lparr>f_order := f_order g + 1\<rparr>) s1 = Inr (set_order ?lo (int (Suc k)) s1)"
    proof -
      have "int (Suc k) = ord s1 ?lo + 1" using s1(2) by simp
      then show ?thesis using upd_frame_ok(4) [OF s1(3)] by (simp only:)
    qed
    have "merge_loop p s = merge_loop ?lo (set_order ?lo (int (Suc k)) s1)"
      unfolding merge_loop.simps [of p s] frame_at_ok [OF dd(4)] frame_fields o rbind.simps
      using lt True by (simp add: Let_def frame_at_ok frame_fields s1(1) lo up del: of_nat_Suc)
    moreover from Suc.hyps(1) [OF kd s1(4)] obtain p' k' s' L' where
      "merge_loop ?lo (set_order ?lo (int (Suc k)) s1) = Inr (p', s')" "pinv s' L' {(p', k')}"
      "alloc_blocks s' = alloc_blocks (set_order ?lo (int (Suc k)) s1)"
      "mm_frames_count s' = mm_frames_count s1"
      "cover (insert (p', k') (free_set L')) = cover (insert (?lo, Suc k) (free_set L1))"
      "free_set L' \<subseteq> free_set L1" "k' = max_order \<or> (p' XOR 2 ^ k', k') \<notin> free_set L'"
      "blk (?lo, Suc k) \<subseteq> blk (p', k')"
      by auto
    ultimately show ?thesis using s1(5-9)
      by (intro exI [of _ p'] exI [of _ k'] exI [of _ s'] exI [of _ L']) auto
  qed
qed

lemma free_frame_inv:
  assumes "pmm_inv s" and a: "(p, k) \<in> alloc_blocks s"
  obtains s' where "free_frame (push_bit 12 (of_nat p)) s = Inr s'" and "pmm_inv s'"
    and "alloc_blocks s' = alloc_blocks s - {(p, k)}"
    and "cover (free_blocks s') = cover (free_blocks s) \<union> blk (p, k)"
    and "mm_frames_count s' = mm_frames_count s"
    and "\<exists>q l. (q, l) \<in> free_blocks s' \<and> blk (p, k) \<subseteq> blk (q, l) \<and>
           free_blocks s' - {(q, l)} \<subseteq> free_blocks s \<and>
           (l = max_order \<or> (q XOR 2 ^ l, l) \<notin> free_blocks s')"
proof -
  from assms(1) obtain L where inv: "pinv s L {}" by (auto simp: pmm_inv_def)
  from a have pn: "p < mm_frames_count s" by (simp add: alloc_blocks_def)
  with pinv_count [OF inv] have p52: "p < 2 ^ 52" by simp
  define s1 where "s1 = set_flags p (fl s p AND NOT FRAME_ALLOCATED) s"
  note unmark = pinv_unmark [OF inv a, folded s1_def]
  from merge_loop_ok [OF unmark(1)] obtain q l s2 L2 where m: "merge_loop p s1 = Inr (q, s2)"
    "pinv s2 L2 {(q, l)}" "alloc_blocks s2 = alloc_blocks s1" "mm_frames_count s2 = mm_frames_count s1"
    "cover (insert (q, l) (free_set L2)) = cover (insert (p, k) (free_set L))"
    "free_set L2 \<subseteq> free_set L" "l = max_order \<or> (q XOR 2 ^ l, l) \<notin> free_set L2"
    "blk (p, k) \<subseteq> blk (q, l)"
    by auto
  define s3 where "s3 = put_region l (Some q) (set_next q (mm_free_region s2 (int l)) s2)"
  from m(2) have "(q, l) \<notin> {}" by simp
  note push = pinv_push [OF m(2) this, folded s3_def]
  have o: "ord s2 q = int l" by (rule orders_ok_head [OF pinv_orders [OF m(2)]]) simp
  have "free_frame (push_bit 12 (of_nat p)) s = Inr s3"
    using m(1) pn push(3,4) o
    by (simp add: free_frame_def merge_buddy_def PAGE_SHIFT_def frame_addr(1) [OF p52] Let_def
        access_ok s3_def flip: s1_def)
  moreover have "pmm_inv s3" using push(1) by (auto simp: pmm_inv_def)
  moreover have F: "free_blocks s3 = insert (q, l) (free_set L2)" "free_blocks s = free_set L"
    using pinv_free_blocks [OF push(1)] push(2) pinv_free_blocks [OF inv] by simp_all
  moreover have "cover (free_blocks s3) = cover (free_blocks s) \<union> blk (p, k)"
    unfolding F m(5) by (auto simp: cover_def)
  moreover have "alloc_blocks s3 = alloc_blocks s - {(p, k)}" using push(5) m(3) unmark(2) by simp
  moreover have "mm_frames_count s3 = mm_frames_count s" using m(4) by (simp add: s3_def s1_def)
  moreover have "\<exists>q l. (q, l) \<in> free_blocks s3 \<and> blk (p, k) \<subseteq> blk (q, l) \<and>
      free_blocks s3 - {(q, l)} \<subseteq> free_blocks s \<and> (l = max_order \<or> (q XOR 2 ^ l, l) \<notin> free_blocks s3)"
    using m(6-8) buddy_neq [of q l] unfolding F by (intro exI [of _ q] exI [of _ l]) auto
  ultimately show ?thesis using that by simp
qed

end
