(* ===== verification/Pmm_Init.thy ===== *)
theory Pmm_Init
  imports Pmm_Ops
begin

text \<open>
  Setting the frame allocator up: \<open>init_frames\<close>, \<open>unreserve_frame_region\<close>, \<open>get_max_order\<close> and
  \<open>init_buddy_allocator\<close> of \<open>mm/pmm.c\<close>. The first two give a state that satisfies the invariant
  with nothing to allocate; the last adds a range of frames as free blocks.
\<close>

section \<open>get_max_order\<close>

lemma and_mask_dvd: "(beg :: nat) AND (2 ^ n - Suc 0) = 0 \<longleftrightarrow> 2 ^ n dvd beg"
  by (metis One_nat_def mask_eq_exp_minus_1 take_bit_eq_0_iff take_bit_eq_mask)

lemma max_order_from_spec:
  "max_order_from n beg limit = o' \<Longrightarrow>
     (o' = 0 \<or> (o' < n \<and> 2 ^ o' dvd beg \<and> beg + 2 ^ o' < limit)) \<and>
     (\<forall>j. o' < j \<and> j < n \<longrightarrow> \<not> (2 ^ j dvd beg \<and> beg + 2 ^ j < limit))"
proof (induction n)
  case 0
  then show ?case by simp
next
  case (Suc n)
  then show ?case by (auto simp: and_mask_dvd less_Suc_eq simp del: neq0_conv split: if_splits)
qed

lemma get_max_order_spec:
  assumes "beg < limit"
  shows "get_max_order beg limit \<le> max_order" and "2 ^ get_max_order beg limit dvd beg"
    and "beg + 2 ^ get_max_order beg limit \<le> limit"
    and "\<forall>j. get_max_order beg limit < j \<and> j \<le> max_order \<longrightarrow> \<not> (2 ^ j dvd beg \<and> beg + 2 ^ j < limit)"
  using max_order_from_spec [of 12 beg limit "get_max_order beg limit"] assms
  by (auto simp: get_max_order_def FRAME_MAX_ORDER_def max_order_def less_Suc_eq_le)

section \<open>Adding a block\<close>

lemma pinv_add:
  assumes inv: "pinv s L {}" and al: "k \<le> max_order" "2 ^ k dvd p" "p + 2 ^ k \<le> mm_frames_count s"
    and fresh: "\<forall>i \<in> blk (p, k). ord s i = - 1"
    and off: "cover (free_set L \<union> alloc_blocks s) \<inter> blk (p, k) = {}" and r: "\<not> is_resv s p"
  shows "pinv (set_order p (int k) s) L {(p, k)}" and "alloc_blocks (set_order p (int k) s) = alloc_blocks s"
proof -
  let ?B = "free_set L \<union> alloc_blocks s" and ?s = "set_order p (int k) s"
  have pn: "p < mm_frames_count s"
    using al(3) zero_less_power [of "2 :: nat" k] by linarith
  have op: "ord s p = - 1" using fresh by simp
  have pa: "\<not> is_alloc s p" using op pn pinv_alloc_ord [OF inv] by auto
  show A: "alloc_blocks ?s = alloc_blocks s"
    using pa by (auto simp: alloc_blocks_def split: if_splits)
  have nF: "(p, l) \<notin> ?B" for l
  proof
    assume "(p, l) \<in> ?B"
    then have "p \<in> cover ?B" unfolding cover_def by (rule UN_I) simp
    with off show False using blk_head [of p k] by blast
  qed
  have B0: "buddy_set (mm_frames_count s) ?B" using pinv_buddy [OF inv] by simp
  have B: "buddy_set (mm_frames_count s) (?B \<union> {(p, k)})"
    using buddy_set_insert [OF B0 al] off by (fastforce simp: cover_def)
  have heads: "((ord s)(p := int k)) q = int l" if "(q, l) \<in> ?B \<union> {(p, k)}" for q l
    using that nF pinv_orders [OF inv] by (auto dest: orders_ok_head)
  have "orders_ok (mm_frames_count s) ((ord s)(p := int k)) (?B \<union> {(p, k)})"
    unfolding orders_ok_def
  proof (intro conjI allI impI)
    fix i assume i: "i < mm_frames_count s" "((ord s)(p := int k)) i \<noteq> - 1"
    show "0 \<le> ((ord s)(p := int k)) i" "2 ^ nat (((ord s)(p := int k)) i) dvd i"
      "\<exists>q l. (q, l) \<in> ?B \<union> {(p, k)} \<and> i \<in> blk (q, l) \<and> (i = q \<or> ((ord s)(p := int k)) i < int l)"
      using i al(2) pinv_orders [OF inv] by (cases "i = p"; fastforce simp: orders_ok_def)+
  qed (rule heads)
  then show "pinv ?s L {(p, k)}"
    unfolding pinv_def A using B nF pa r pinvD [OF inv] pinv_list [OF inv] by auto
qed

lemma init_buddy_allocator_ok:
  assumes "pinv s L {}" and "limit \<le> mm_frames_count s"
    and "\<forall>i. beg \<le> i \<and> i < limit \<longrightarrow> ord s i = - 1 \<and> \<not> is_resv s i"
    and "cover (free_set L \<union> alloc_blocks s) \<inter> {beg..<limit} = {}"
  shows "\<exists>s' L'. init_buddy_allocator beg limit s = Inr s' \<and> pinv s' L' {} \<and>
    cover (free_set L') = cover (free_set L) \<union> {beg..<limit} \<and> alloc_blocks s' = alloc_blocks s \<and>
    mm_frames_count s' = mm_frames_count s \<and> fl s' = fl s \<and>
    (\<forall>i. i \<notin> {beg..<limit} \<longrightarrow> ord s' i = ord s i)"
  using assms
proof (induction "limit - beg" arbitrary: beg s L rule: less_induct)
  case less
  show ?case
  proof (cases "beg < limit")
    case False
    then show ?thesis using less.prems by (auto simp: init_buddy_allocator.simps)
  next
    case True
    define k where "k = get_max_order beg limit"
    note g = get_max_order_spec [OF True, folded k_def]
    have pos: "(0 :: nat) < 2 ^ k" by simp
    have sub: "blk (beg, k) \<subseteq> {beg..<limit}" using g(3) by (auto simp: blk_def)
    define s1 where "s1 = set_order beg (int k) s"
    have "pinv s1 L {(beg, k)}" and A1: "alloc_blocks s1 = alloc_blocks s"
      unfolding s1_def
      by (rule pinv_add; use less.prems g True sub in \<open>force simp: Int_absorb1\<close>)+
    define s2 where "s2 = put_region k (Some beg) (set_next beg (mm_free_region s1 (int k)) s1)"
    note push = pinv_push [OF \<open>pinv s1 L {(beg, k)}\<close>, folded s2_def]
    let ?L = "L(k := beg # L k)"
    have p2: "pinv s2 ?L {}" using push(1) by simp
    have run: "init_buddy_allocator beg limit s = init_buddy_allocator (beg + 2 ^ k) limit s2"
      using True push(3,4) unfolding init_buddy_allocator.simps [of beg limit s]
      by (simp add: Let_def access_ok s2_def s1_def flip: k_def)
    have F: "free_set ?L = insert (beg, k) (free_set L)" using push(2) by simp
    have same: "mm_frames_count s2 = mm_frames_count s" "ord s2 = (ord s)(beg := int k)" "fl s2 = fl s"
      "alloc_blocks s2 = alloc_blocks s" "is_resv s2 = is_resv s"
      using A1 by (simp_all add: s2_def s1_def)
    have "limit - (beg + 2 ^ k) < limit - beg" using True pos by linarith
    moreover have "\<forall>i. beg + 2 ^ k \<le> i \<and> i < limit \<longrightarrow> ord s2 i = - 1 \<and> \<not> is_resv s2 i"
      using less.prems(3) by (auto simp: same)
    moreover have "cover (free_set ?L \<union> alloc_blocks s2) \<inter> {beg + 2 ^ k..<limit} = {}"
      using less.prems(4) unfolding F same by (auto simp: cover_def blk_def)
    ultimately obtain s' L' where s': "init_buddy_allocator (beg + 2 ^ k) limit s2 = Inr s'" "pinv s' L' {}"
      "cover (free_set L') = cover (free_set ?L) \<union> {beg + 2 ^ k..<limit}" "alloc_blocks s' = alloc_blocks s2"
      "mm_frames_count s' = mm_frames_count s2" "fl s' = fl s2"
      "\<forall>i. i \<notin> {beg + 2 ^ k..<limit} \<longrightarrow> ord s' i = ord s2 i"
      using less.hyps [of "beg + 2 ^ k" s2 ?L] p2 less.prems(2) same(1) by metis
    have "cover (free_set L') = cover (free_set L) \<union> {beg..<limit}"
      using s'(3) g(3) unfolding F by (auto simp: cover_def blk_def)
    moreover have "ord s' i = ord s i" if "i \<notin> {beg..<limit}" for i
      using that s'(7) True by (auto simp: same)
    ultimately show ?thesis using run s' same by auto
  qed
qed

section \<open>init_frames and unreserve_frame_region\<close>

lemma fold_fill: "fold (\<lambda>i f. f(i := x)) [0..<n] g = (\<lambda>i. if i < n then x else g i)"
  by (induction n) (auto simp: fun_eq_iff)

text \<open>Every frame starts out reserved, in no block and on no list.\<close>

lemma init_frames_state:
  assumes "init_frames limit b s = Inr (r, b', s')"
  shows "mm_frames_count s' = unat limit div 2 ^ 12" and "mm_free_region s' = mm_free_region s"
    and "\<forall>i < mm_frames_count s'. nx s' i = None \<and> ord s' i = - 1 \<and> \<not> is_alloc s' i \<and> is_resv s' i"
  using assms
  by (auto simp: init_frames_def Let_def fold_fill nx_def ord_def is_alloc_def is_resv_def fl_def
      reserved_frame_def FRAME_RESERVED_def PAGE_SHIFT_def unat_drop_bit_div
      bit_simps)

lemma blank_pinv:
  assumes "mm_frames_count s \<le> 2 ^ 52" and "\<forall>k. 0 \<le> k \<longrightarrow> mm_free_region s k = None"
    and "\<forall>i < mm_frames_count s. ord s i = - 1 \<and> \<not> is_alloc s i"
  shows "pinv s (\<lambda>_. []) {}" and "free_blocks s = {}" and "alloc_blocks s = {}"
proof -
  show A: "alloc_blocks s = {}" using assms(3) by (auto simp: alloc_blocks_def)
  have F: "free_set (\<lambda>_. []) = {}" by (simp add: free_set_def)
  show "pinv s (\<lambda>_. []) {}"
    using assms by (auto simp: pinv_def A F buddy_set_def orders_ok_def)
  from pinv_free_blocks [OF this] F show "free_blocks s = {}" by simp
qed

lemma unreserve_ok:
  assumes "limit \<le> mm_frames_count s"
  shows "\<exists>s'. unreserve_frame_region beg limit s = Inr s' \<and> nx s' = nx s \<and> ord s' = ord s \<and>
    mm_free_region s' = mm_free_region s \<and> mm_frames_count s' = mm_frames_count s \<and>
    is_alloc s' = is_alloc s \<and> is_resv s' = (\<lambda>i. is_resv s i \<and> \<not> (beg \<le> i \<and> i < limit))"
  using assms
proof (induction "limit - beg" arbitrary: beg s)
  case 0
  then show ?case by (auto simp: unreserve_frame_region.simps fun_eq_iff)
next
  case (Suc d)
  let ?s = "set_flags beg (fl s beg AND NOT FRAME_RESERVED) s"
  have *: "unreserve_frame_region beg limit s = unreserve_frame_region (beg + 1) limit ?s"
  proof -
    from Suc.hyps(2) have "beg < limit" by simp
    with Suc.prems show ?thesis by (subst unreserve_frame_region.simps) (simp add: upd_frame_ok)
  qed
  have al: "is_alloc ?s = is_alloc s" "is_resv ?s = (is_resv s)(beg := False)"
    by (auto simp: is_alloc_def is_resv_def fun_eq_iff FRAME_RESERVED_def bit_simps)
  have "d = limit - (beg + 1)" "limit \<le> mm_frames_count ?s" using Suc.hyps(2) Suc.prems by simp_all
  from Suc.hyps(1) [OF this] obtain s' where s': "unreserve_frame_region (beg + 1) limit ?s = Inr s'"
    "nx s' = nx ?s" "ord s' = ord ?s" "mm_free_region s' = mm_free_region ?s"
    "mm_frames_count s' = mm_frames_count ?s" "is_alloc s' = is_alloc ?s"
    "is_resv s' = (\<lambda>i. is_resv ?s i \<and> \<not> (beg + 1 \<le> i \<and> i < limit))" by blast
  have "is_resv s' = (\<lambda>i. is_resv s i \<and> \<not> (beg \<le> i \<and> i < limit))"
    unfolding s'(7) al using Suc.hyps(2) by (auto simp: fun_eq_iff)
  then show ?case
    unfolding * using s' al(1) by (intro exI [of _ s']) simp
qed

lemma unreserve_fault:
  assumes "mm_frames_count s < limit" and "beg < limit"
  shows "unreserve_frame_region beg limit s = Inl Fault"
  using assms
proof (induction "limit - beg" arbitrary: beg s)
  case 0
  then show ?case by simp
next
  case (Suc d)
  show ?case
  proof (cases "beg < mm_frames_count s")
    case True
    with Suc.hyps Suc.prems show ?thesis
      by (subst unreserve_frame_region.simps) (simp add: upd_frame_ok)
  next
    case False
    with Suc.prems show ?thesis by (subst unreserve_frame_region.simps) (simp add: upd_frame_def)
  qed
qed

text \<open>Clearing reserved flags keeps the invariant, and the free and allocated blocks.\<close>

lemma pinv_unreserve:
  assumes "pinv s L {}" and "nx s' = nx s" and "ord s' = ord s" and "mm_free_region s' = mm_free_region s"
    and "mm_frames_count s' = mm_frames_count s" and "is_alloc s' = is_alloc s"
    and "\<forall>i. is_resv s' i \<longrightarrow> is_resv s i"
  shows "pinv s' L {}" and "alloc_blocks s' = alloc_blocks s"
proof -
  show A: "alloc_blocks s' = alloc_blocks s" using assms(3,5,6) by (simp add: alloc_blocks_def)
  from assms show "pinv s' L {}" unfolding pinv_def A by auto
qed

end
