(* ===== verification/Pmm_Spec.thy ===== *)
theory Pmm_Spec
  imports Pmm_Init
begin

text \<open>
  The contract of the frame allocator. The locale \<open>frame_allocator\<close> states what the pool and
  the virtual memory manager rely on; it is interpreted on \<open>alloc_frames\<close> and \<open>free_frame\<close>.
  The step relation \<open>pmm_step\<close> is every call a client may make, and the properties of
  \<open>mm/pmm.c\<close> close the theory.
\<close>

section \<open>The interface\<close>

locale frame_allocator =
  fixes inv :: "'s \<Rightarrow> bool"
    and alloc :: "nat \<Rightarrow> 's \<Rightarrow> (phys_addr \<times> 's) res"
    and release :: "phys_addr \<Rightarrow> 's \<Rightarrow> 's res"
    and used :: "'s \<Rightarrow> block set"
    and avail :: "'s \<Rightarrow> nat set"
    and frames :: "'s \<Rightarrow> nat"
  assumes used_disjoint: "inv s \<Longrightarrow> b \<in> used s \<Longrightarrow> c \<in> used s \<Longrightarrow> b \<noteq> c \<Longrightarrow> blk b \<inter> blk c = {}"
    and used_not_avail: "inv s \<Longrightarrow> b \<in> used s \<Longrightarrow> blk b \<inter> avail s = {}"
    and used_bound: "inv s \<Longrightarrow> (p, k) \<in> used s \<Longrightarrow> p + 2 ^ k \<le> frames s"
    and avail_bound: "inv s \<Longrightarrow> avail s \<subseteq> {..<frames s}"
    and frames_bound: "inv s \<Longrightarrow> frames s \<le> 2 ^ 52"
    and alloc_total: "inv s \<Longrightarrow> k \<le> max_order \<Longrightarrow>
      alloc k s = Inr (INVALID_ADDRESS, s) \<or>
      (\<exists>p s'. alloc k s = Inr (push_bit 12 (of_nat p), s') \<and> inv s' \<and> blk (p, k) \<subseteq> avail s \<and>
         avail s' = avail s - blk (p, k) \<and> used s' = insert (p, k) (used s) \<and> frames s' = frames s)"
    and alloc_none: "inv s \<Longrightarrow> alloc 0 s = Inr (INVALID_ADDRESS, s') \<Longrightarrow> avail s = {}"
    and release_total: "inv s \<Longrightarrow> (p, k) \<in> used s \<Longrightarrow>
      \<exists>s'. release (push_bit 12 (of_nat p)) s = Inr s' \<and> inv s' \<and>
         used s' = used s - {(p, k)} \<and> avail s' = avail s \<union> blk (p, k) \<and> frames s' = frames s"
begin

lemma alloc_cases:
  assumes "inv s" and "k \<le> max_order" and "alloc k s = Inr (a, s')"
  obtains (none) "a = INVALID_ADDRESS" and "s' = s"
    | (block) p where "a = push_bit 12 (of_nat p)" and "inv s'" and "blk (p, k) \<subseteq> avail s"
      and "avail s' = avail s - blk (p, k)" and "used s' = insert (p, k) (used s)"
      and "a \<noteq> INVALID_ADDRESS" and "p < 2 ^ 52" and "frames s' = frames s"
proof -
  consider "a = INVALID_ADDRESS" "s' = s"
    | p where "a = push_bit 12 (of_nat p)" "inv s'" "blk (p, k) \<subseteq> avail s"
      "avail s' = avail s - blk (p, k)" "used s' = insert (p, k) (used s)" "frames s' = frames s"
    using alloc_total [OF assms(1,2)] assms(3) by auto
  then show thesis
  proof cases
    case 1
    then show thesis by (rule none)
  next
    case 2
    have "p + 2 ^ k \<le> 2 ^ 52" using used_bound [OF 2(2), of p k] frames_bound [OF 2(2)] 2(5) by simp
    then have "p < 2 ^ 52" using zero_less_power [of "2 :: nat" k] by linarith
    with 2 frame_addr(2) [of p] show thesis by (intro block) (auto simp: INVALID_ADDRESS_def)
  qed
qed

lemma alloc_inv: "inv s \<Longrightarrow> k \<le> max_order \<Longrightarrow> alloc k s = Inr (a, s') \<Longrightarrow> inv s'"
  using alloc_cases [of s k a s'] by blast

lemma alloc_no_error: "inv s \<Longrightarrow> k \<le> max_order \<Longrightarrow> \<exists>a s'. alloc k s = Inr (a, s')"
  using alloc_total [of s k] by blast

lemma alloc_exhausted: "inv s \<Longrightarrow> avail s = {} \<Longrightarrow> alloc 0 s = Inr (INVALID_ADDRESS, s)"
  using alloc_total [of s 0] by (auto simp: blk_def)

text \<open>While a frame is available, one can be had, and it is in no block still in use.\<close>

lemma alloc_page:
  assumes "inv s" and "avail s \<noteq> {}"
  obtains p s' where "alloc 0 s = Inr (push_bit 12 (of_nat p), s')" and "inv s'" and "p < frames s"
    and "p \<in> avail s" and "avail s' = avail s - {p}" and "used s' = insert (p, 0) (used s)"
    and "frames s' = frames s"
proof -
  obtain a s' where al: "alloc 0 s = Inr (a, s')"
    using alloc_no_error [OF assms(1), of 0] by auto
  show thesis
  proof (cases rule: alloc_cases [OF assms(1) _ al, case_names order none block])
    case none
    with alloc_none [OF assms(1)] al assms(2) show thesis by simp
  next
    case (block p)
    with al avail_bound [OF assms(1)] show thesis by (intro that [of p s']) (auto simp: blk_def)
  qed simp
qed

lemma alloc_release:
  assumes "inv s" and "k \<le> max_order" and "alloc k s = Inr (a, s')" and "a \<noteq> INVALID_ADDRESS"
  shows "\<exists>s''. release a s' = Inr s'' \<and> inv s'' \<and> used s'' = used s \<and> avail s'' = avail s \<and> frames s'' = frames s"
  using assms(1-3)
proof (cases rule: alloc_cases)
  case none
  with assms(4) show ?thesis by simp
next
  case (block p)
  then have "(p, k) \<in> used s'" by simp
  from release_total [OF block(2) this] block(1) obtain s'' where s'': "release a s' = Inr s''" "inv s''"
    "used s'' = used s' - {(p, k)}" "avail s'' = avail s' \<union> blk (p, k)" "frames s'' = frames s'" by auto
  have "(p, k) \<notin> used s"
    using used_not_avail [OF assms(1), of "(p, k)"] block(3) blk_head [of p k] by blast
  with s'' block(3-5,8) show ?thesis by auto
qed

end

section \<open>The buddy allocator implements it\<close>

lemma pmm_inv_disjoint:
  assumes "pmm_inv s"
  shows "buddy_set (mm_frames_count s) (free_blocks s \<union> alloc_blocks s)"
    and "free_blocks s \<inter> alloc_blocks s = {}" and "mm_frames_count s \<le> 2 ^ 52"
proof -
  from assms obtain L where inv: "pinv s L {}" by (auto simp: pmm_inv_def)
  note F = pinv_free_blocks [OF inv]
  show "buddy_set (mm_frames_count s) (free_blocks s \<union> alloc_blocks s)"
    using pinv_buddy [OF inv] by (simp add: F)
  show "free_blocks s \<inter> alloc_blocks s = {}"
    using pinv_not_alloc [OF inv] by (auto simp: F alloc_blocks_def)
  show "mm_frames_count s \<le> 2 ^ 52" by (rule pinv_count [OF inv])
qed

interpretation buddy: frame_allocator pmm_inv "\<lambda>k. alloc_frames (int k)" free_frame alloc_blocks
  "\<lambda>s. cover (free_blocks s)" mm_frames_count
proof unfold_locales
  fix s b c assume i: "pmm_inv s" and b: "b \<in> alloc_blocks s"
  note B = pmm_inv_disjoint [OF i]
  show "blk b \<inter> cover (free_blocks s) = {}"
  proof -
    have "blk b \<inter> blk d = {}" if "d \<in> free_blocks s" for d
    proof -
      from that b B(2) have "b \<noteq> d" by auto
      with B(1) b that show ?thesis unfolding buddy_set_def by blast
    qed
    then show ?thesis by (auto simp: cover_def)
  qed
  assume "c \<in> alloc_blocks s" "b \<noteq> c"
  with B(1) b show "blk b \<inter> blk c = {}" by (auto simp: buddy_set_def)
next
  fix s p k assume i: "pmm_inv s" and b: "(p, k) \<in> alloc_blocks s"
  show "p + 2 ^ k \<le> mm_frames_count s"
    using buddy_setD(3) [OF pmm_inv_disjoint(1) [OF i], of p k] b by simp
  from i b obtain s' where "free_frame (push_bit 12 (of_nat p)) s = Inr s'" "pmm_inv s'"
    "alloc_blocks s' = alloc_blocks s - {(p, k)}" "cover (free_blocks s') = cover (free_blocks s) \<union> blk (p, k)"
    "mm_frames_count s' = mm_frames_count s"
    by (rule free_frame_inv)
  then show "\<exists>s'. free_frame (push_bit 12 (of_nat p)) s = Inr s' \<and> pmm_inv s' \<and>
      alloc_blocks s' = alloc_blocks s - {(p, k)} \<and>
      cover (free_blocks s') = cover (free_blocks s) \<union> blk (p, k) \<and> mm_frames_count s' = mm_frames_count s"
    by blast
next
  fix s :: pmm and k assume "pmm_inv s" "k \<le> max_order"
  then show "alloc_frames (int k) s = Inr (INVALID_ADDRESS, s) \<or>
      (\<exists>p s'. alloc_frames (int k) s = Inr (push_bit 12 (of_nat p), s') \<and> pmm_inv s' \<and>
         blk (p, k) \<subseteq> cover (free_blocks s) \<and>
         cover (free_blocks s') = cover (free_blocks s) - blk (p, k) \<and>
         alloc_blocks s' = insert (p, k) (alloc_blocks s) \<and> mm_frames_count s' = mm_frames_count s)"
    by (cases rule: alloc_frames_inv) blast+
next
  fix s s' :: pmm assume i: "pmm_inv s" and a: "alloc_frames (int 0) s = Inr (INVALID_ADDRESS, s')"
  have "free_blocks s = {}"
  proof (cases rule: alloc_frames_inv [OF i, of 0, case_names order fail ok])
    case fail
    then show ?thesis by (metis less_nat_zero_code equals0I surj_pair)
  next
    case (ok p c s1)
    with a frame_addr(2) [OF ok(3)] show ?thesis by (simp add: INVALID_ADDRESS_def)
  qed simp
  then show "cover (free_blocks s) = {}" by (simp add: cover_def)
next
  fix s assume i: "pmm_inv s"
  show "mm_frames_count s \<le> 2 ^ 52" by (rule pmm_inv_disjoint(3) [OF i])
  have "p + 2 ^ k \<le> mm_frames_count s" if "(p, k) \<in> free_blocks s" for p k
    using buddy_setD(3) [OF pmm_inv_disjoint(1) [OF i], of p k] that by simp
  then show "cover (free_blocks s) \<subseteq> {..<mm_frames_count s}"
    by (fastforce simp: cover_def blk_def)
qed

section \<open>Client calls as steps\<close>

inductive pmm_step :: "pmm \<Rightarrow> pmm \<Rightarrow> bool" where
  step_alloc: "k \<le> max_order \<Longrightarrow> alloc_frames (int k) s = Inr (a, s') \<Longrightarrow> pmm_step s s'"
| step_free: "(p, k) \<in> alloc_blocks s \<Longrightarrow> free_frame (push_bit 12 (of_nat p)) s = Inr s' \<Longrightarrow> pmm_step s s'"

text \<open>
  Every step keeps the invariant, keeps free blocks merged as far as possible, and neither
  loses nor invents a frame.
\<close>

lemma coalesced_after_free:
  assumes "coalesced F" and "G - {(q, l)} \<subseteq> F" and "l = max_order \<or> (q XOR 2 ^ l, l) \<notin> G"
  shows "coalesced G"
  unfolding coalesced_def
proof (intro allI impI notI)
  fix p k assume p: "(p, k) \<in> G" "k < max_order" "(p XOR 2 ^ k, k) \<in> G"
  have inv: "(p XOR 2 ^ k) XOR 2 ^ k = p" by (simp add: xor.assoc)
  have "(p, k) \<noteq> (q, l)" using p assms(3) by auto
  moreover have "(p XOR 2 ^ k, k) \<noteq> (q, l)" using p inv assms(3) by auto
  ultimately have "(p, k) \<in> F" "(p XOR 2 ^ k, k) \<in> F" using p assms(2) by auto
  with assms(1) p(2) show False by (auto simp: coalesced_def)
qed

lemma pmm_step_inv:
  assumes "pmm_step s s'" and "pmm_inv s"
  shows "pmm_inv s'" and "coalesced (free_blocks s) \<Longrightarrow> coalesced (free_blocks s')"
    and "cover (free_blocks s') \<union> cover (alloc_blocks s') = cover (free_blocks s) \<union> cover (alloc_blocks s)"
proof -
  have "pmm_inv s' \<and> (coalesced (free_blocks s) \<longrightarrow> coalesced (free_blocks s')) \<and>
    cover (free_blocks s') \<union> cover (alloc_blocks s') = cover (free_blocks s) \<union> cover (alloc_blocks s)"
    using assms(1)
  proof (cases rule: pmm_step.cases)
    case (step_alloc k a)
    from assms(2) step_alloc(1) show ?thesis
    proof (cases rule: alloc_frames_inv)
      case fail
      with step_alloc assms(2) show ?thesis by simp
    next
      case (ok p c s1)
      have "buddy_set (mm_frames_count s) (free_blocks s)"
        by (rule buddy_set_mono [OF pmm_inv_disjoint(1) [OF assms(2)]]) auto
      note co = coalesced_carve [OF this _ ok(5), of k]
      from ok(1) step_alloc(2) have "s' = s1" by simp
      with ok co show ?thesis by (auto simp: cover_def)
    qed
  next
    case (step_free p k)
    from assms(2) step_free(1) obtain s1 q l where f: "free_frame (push_bit 12 (of_nat p)) s = Inr s1" "pmm_inv s1"
      "alloc_blocks s1 = alloc_blocks s - {(p, k)}" "cover (free_blocks s1) = cover (free_blocks s) \<union> blk (p, k)"
      "free_blocks s1 - {(q, l)} \<subseteq> free_blocks s" "l = max_order \<or> (q XOR 2 ^ l, l) \<notin> free_blocks s1"
      by (rule free_frame_inv) blast
    from f(1) step_free(2) have "s' = s1" by simp
    with f step_free(1) show ?thesis
      using coalesced_after_free [OF _ f(5,6)] by (auto simp: cover_def)
  qed
  then show "pmm_inv s'" "coalesced (free_blocks s) \<Longrightarrow> coalesced (free_blocks s')"
    "cover (free_blocks s') \<union> cover (alloc_blocks s') = cover (free_blocks s) \<union> cover (alloc_blocks s)"
    by blast+
qed

definition pmm_kept :: "pmm \<Rightarrow> pmm \<Rightarrow> bool" where
  "pmm_kept s0 s \<longleftrightarrow> pmm_inv s \<and> (coalesced (free_blocks s0) \<longrightarrow> coalesced (free_blocks s)) \<and>
     cover (free_blocks s) \<union> cover (alloc_blocks s) = cover (free_blocks s0) \<union> cover (alloc_blocks s0)"

interpretation pmm_calls: transition_system pmm_step "pmm_kept s0" for s0
  by unfold_locales (auto simp: pmm_kept_def dest: pmm_step_inv)

section \<open>A small machine for witnesses\<close>

text \<open>
  Four frames: the block of the first two is free, frame 2 is allocated and frame 3 is free.
\<close>

definition demo_pmm :: pmm where
  "demo_pmm = \<lparr>mm_frames_ptr = KERNEL_DIRECT_BASE,
     mm_frames = (\<lambda>i. \<lparr>f_next = None, f_flags = (if i = 2 then FRAME_ALLOCATED else 0),
                     f_order = (if i = 0 then 1 else if i = 1 then - 1 else 0)\<rparr>),
     mm_frames_count = 4,
     mm_free_region = (\<lambda>k. if k = 0 then Some 3 else if k = 1 then Some 0 else None)\<rparr>"

lemma demo_views:
  "mm_frames_count demo_pmm = 4" "nx demo_pmm = (\<lambda>_. None)"
  "mm_free_region demo_pmm = (\<lambda>k. if k = 0 then Some 3 else if k = 1 then Some 0 else None)"
  "ord demo_pmm = (\<lambda>i. if i = 0 then 1 else if i = 1 then - 1 else 0)"
  "is_alloc demo_pmm = (\<lambda>i. i = 2)" "is_resv demo_pmm = (\<lambda>_. False)"
  by (auto simp: demo_pmm_def nx_def ord_def is_alloc_def is_resv_def fl_def fun_eq_iff FRAME_ALLOCATED_def bit_simps)

lemma demo_alloc_blocks: "alloc_blocks demo_pmm = {(2, 0)}"
  by (auto simp: alloc_blocks_def demo_views)

lemma demo_pmm_inv:
  "pmm_inv demo_pmm" "free_blocks demo_pmm = {(3, 0), (0, 1)}" "coalesced (free_blocks demo_pmm)"
proof -
  let ?L = "\<lambda>k. if k = 0 then [3] else if k = (1 :: nat) then [0] else []"
  have F: "free_set ?L = {(3, 0), (0, 1)}"
    by (auto simp: free_set_def max_order_def split: if_splits)
  have B: "free_set ?L \<union> alloc_blocks demo_pmm \<union> {} = {(3, 0), (0, 1), (2, 0)}"
    by (auto simp: F demo_alloc_blocks)
  have lists: "\<forall>k \<le> max_order. list_at (nx demo_pmm) (mm_free_region demo_pmm (int k)) (?L k)"
    by (simp add: demo_views)
  have "buddy_set 4 {(3, 0), (0, 1), (2, 0)}"
    by (auto simp: buddy_set_def blk_def max_order_def)
  moreover have "orders_ok 4 (ord demo_pmm) {(3, 0), (0, 1), (2, 0)}"
    unfolding orders_ok_def demo_views
  proof (intro conjI allI impI)
    fix i :: nat assume "i < 4" "(if i = 0 then 1 else if i = 1 then - 1 else 0) \<noteq> (- 1 :: int)"
    then have "i < 4" "i \<noteq> 1" by auto
    then have i: "i \<in> {0, 2, 3}" unfolding insert_iff empty_iff by presburger
    then show "\<exists>p k. (p, k) \<in> {(3, 0), (0, 1), (2, 0)} \<and> i \<in> blk (p, k) \<and>
        (i = p \<or> (if i = 0 then 1 else if i = 1 then - 1 else 0) < int k)"
      by (intro exI [of _ i] exI [of _ "if i = 0 then 1 else 0"]) auto
    from i show "(0 :: int) \<le> (if i = 0 then 1 else if i = 1 then - 1 else 0)"
      "2 ^ nat (if i = 0 then 1 else if i = 1 then - 1 else 0) dvd i" by auto
  qed auto
  ultimately have inv: "pinv demo_pmm ?L {}"
    unfolding pinv_def B using lists by (auto simp: demo_views F demo_alloc_blocks)
  then show "pmm_inv demo_pmm" by (auto simp: pmm_inv_def)
  from pinv_free_blocks [OF inv] F show "free_blocks demo_pmm = {(3, 0), (0, 1)}" by simp
  then show "coalesced (free_blocks demo_pmm)"
    by (auto simp: coalesced_def)
qed

lemma demo_steps: "\<exists>s. pmm_step demo_pmm s \<and> pmm_step\<^sup>*\<^sup>* demo_pmm s"
proof -
  obtain a s where "alloc_frames (int 0) demo_pmm = Inr (a, s)"
    using buddy.alloc_no_error [OF demo_pmm_inv(1), of 0] by auto
  then have "pmm_step demo_pmm s" by (intro pmm_step.step_alloc) auto
  then show ?thesis by blast
qed

text \<open>Four frames that are in no block yet.\<close>

definition blank_pmm :: "nat \<Rightarrow> pmm" where
  "blank_pmm n = \<lparr>mm_frames_ptr = KERNEL_DIRECT_BASE,
     mm_frames = (\<lambda>_. \<lparr>f_next = None, f_flags = 0, f_order = - 1\<rparr>),
     mm_frames_count = n, mm_free_region = (\<lambda>_. None)\<rparr>"

lemma blank_pmm_views:
  "mm_frames_count (blank_pmm n) = n" "ord (blank_pmm n) i = - 1" "\<not> is_resv (blank_pmm n) i" "\<not> is_alloc (blank_pmm n) i"
  by (simp_all add: blank_pmm_def ord_def is_resv_def is_alloc_def fl_def)

lemma blank_pmm_ok:
  assumes "n \<le> 2 ^ 52"
  shows "pmm_inv (blank_pmm n)" and "free_blocks (blank_pmm n) = {}" and "alloc_blocks (blank_pmm n) = {}"
proof -
  have *: "mm_frames_count (blank_pmm n) \<le> 2 ^ 52" "\<forall>k. 0 \<le> k \<longrightarrow> mm_free_region (blank_pmm n) k = None"
    "\<forall>i < mm_frames_count (blank_pmm n). ord (blank_pmm n) i = - 1 \<and> \<not> is_alloc (blank_pmm n) i"
    using assms by (simp_all add: blank_pmm_views) (simp add: blank_pmm_def)
  show "pmm_inv (blank_pmm n)" "free_blocks (blank_pmm n) = {}" "alloc_blocks (blank_pmm n) = {}"
    using blank_pinv [OF *] by (auto simp: pmm_inv_def)
qed

section \<open>Properties of pmm.c\<close>

text \<open>
  C1. On a state that satisfies the invariant, \<open>alloc_frames\<close> of an order from 0 to 11 returns, and
  keeps the invariant. Either it returns the address of a free, aligned block of exactly
  \<open>2 ^ order\<close> frames, cut out of one free block, so that the free frames lose exactly that block
  and the allocated blocks gain exactly it; or no free block is large enough, and it returns
  \<open>INVALID_ADDRESS\<close> and changes nothing.
\<close>

theorem alloc_frames_correct:
  assumes "pmm_inv s" and "0 \<le> order" and "order \<le> FRAME_MAX_ORDER"
  shows "(\<exists>p c s'. alloc_frames order s = Inr (push_bit 12 (of_nat p), s') \<and> pmm_inv s' \<and>
            push_bit 12 (of_nat p) \<noteq> INVALID_ADDRESS \<and> 2 ^ nat order dvd p \<and>
            (p, c) \<in> free_blocks s \<and> nat order \<le> c \<and>
            free_blocks s' = carve p (nat order) c (free_blocks s) \<and>
            blk (p, nat order) \<subseteq> cover (free_blocks s) \<and>
            cover (free_blocks s') = cover (free_blocks s) - blk (p, nat order) \<and>
            alloc_blocks s' = insert (p, nat order) (alloc_blocks s)) \<or>
         (alloc_frames order s = Inr (INVALID_ADDRESS, s) \<and>
            (\<forall>q l. (q, l) \<in> free_blocks s \<longrightarrow> l < nat order))"
proof -
  have k: "nat order \<le> max_order" "int (nat order) = order"
    using assms(2,3) by (simp_all add: FRAME_MAX_ORDER_def max_order_def)
  from assms(1) k(1) show ?thesis
  proof (cases rule: alloc_frames_inv)
    case fail
    with k(2) show ?thesis by simp
  next
    case (ok p c s')
    with k(2) frame_addr(2) [OF ok(3)] show ?thesis
      by (intro disjI1 exI [of _ p] exI [of _ c] exI [of _ s']) (simp add: INVALID_ADDRESS_def)
  qed
qed

theorem alloc_frames_correct_witness:
  "pmm_inv demo_pmm \<and> (0 :: int) \<le> 1 \<and> 1 \<le> FRAME_MAX_ORDER \<and>
   (\<exists>s'. alloc_frames 1 demo_pmm = Inr (0, s') \<and> pmm_inv s' \<and> alloc_blocks s' = {(0, 1), (2, 0)} \<and>
      free_blocks s' = {(3, 0)})"
proof -
  have h: "(0 :: int) \<le> 1" "1 \<le> FRAME_MAX_ORDER" by (simp_all add: FRAME_MAX_ORDER_def)
  from alloc_frames_correct [OF demo_pmm_inv(1) h]
  have "\<exists>s'. alloc_frames 1 demo_pmm = Inr (0, s') \<and> pmm_inv s' \<and> alloc_blocks s' = {(0, 1), (2, 0)} \<and>
      free_blocks s' = {(3, 0)}"
    by (auto simp: demo_pmm_inv(2) demo_alloc_blocks carve_def) (force+)?
  with h demo_pmm_inv(1) show ?thesis by simp
qed

text \<open>
  C2. Releasing an allocated block never panics or faults. It keeps the invariant, removes
  exactly that block from the allocated ones and returns exactly its frames to the free ones;
  the block is merged with free buddies until the buddy is not free or the order is 11, and no other
  free block changes except by such a merge.
\<close>

theorem free_frame_correct:
  assumes "pmm_inv s" and "(p, k) \<in> alloc_blocks s"
  shows "\<exists>s' q l. free_frame (push_bit 12 (of_nat p)) s = Inr s' \<and> pmm_inv s' \<and>
    alloc_blocks s' = alloc_blocks s - {(p, k)} \<and>
    cover (free_blocks s') = cover (free_blocks s) \<union> blk (p, k) \<and>
    (q, l) \<in> free_blocks s' \<and> blk (p, k) \<subseteq> blk (q, l) \<and> free_blocks s' - {(q, l)} \<subseteq> free_blocks s \<and>
    (l = max_order \<or> (q XOR 2 ^ l, l) \<notin> free_blocks s')"
  using assms by (rule free_frame_inv) blast

theorem free_frame_correct_witness:
  "pmm_inv demo_pmm \<and> (2, 0) \<in> alloc_blocks demo_pmm \<and>
   (\<exists>s'. free_frame 0x2000 demo_pmm = Inr s' \<and> pmm_inv s' \<and> alloc_blocks s' = {} \<and>
      cover (free_blocks s') = {0..<4})"
proof -
  have h: "(2, 0) \<in> alloc_blocks demo_pmm" by (simp add: demo_alloc_blocks)
  have "cover {(3, 0), (0, 1)} \<union> blk (2, 0) = {0..<4}" by (auto simp: cover_def blk_def)
  with free_frame_correct [OF demo_pmm_inv(1) h] h demo_pmm_inv(1) show ?thesis
    by (auto simp: demo_alloc_blocks demo_pmm_inv(2))
qed

text \<open>
  C19. When free blocks are merged as far as possible, allocating a block and releasing it
  gives back exactly the same free blocks and allocated blocks: every split is undone.
\<close>

theorem alloc_free_roundtrip:
  assumes "pmm_inv s" and "coalesced (free_blocks s)" and "0 \<le> order" and "order \<le> FRAME_MAX_ORDER"
    and "alloc_frames order s = Inr (a, s')" and "a \<noteq> INVALID_ADDRESS"
  shows "\<exists>s''. free_frame a s' = Inr s'' \<and> pmm_inv s'' \<and> free_blocks s'' = free_blocks s \<and>
    alloc_blocks s'' = alloc_blocks s"
proof -
  have k: "nat order \<le> max_order" "int (nat order) = order"
    using assms(3,4) by (simp_all add: FRAME_MAX_ORDER_def max_order_def)
  have al: "alloc_frames (int (nat order)) s = Inr (a, s')" using assms(5) k(2) by simp
  from buddy.alloc_release [OF assms(1) k(1) al assms(6)] obtain s'' where
    s'': "free_frame a s' = Inr s''" "pmm_inv s''" "alloc_blocks s'' = alloc_blocks s"
      "cover (free_blocks s'') = cover (free_blocks s)" by auto
  have st: "pmm_step s s'" by (rule pmm_step.step_alloc [OF k(1) al])
  note co1 = pmm_step_inv [OF st assms(1)]
  obtain p where p: "a = push_bit 12 (of_nat p)" "(p, nat order) \<in> alloc_blocks s'"
  proof (cases rule: buddy.alloc_cases [OF assms(1) k(1) al])
    case 1
    with assms(6) show ?thesis by simp
  next
    case (2 p)
    then show ?thesis using that by simp
  qed
  have "pmm_step s' s''" using p(2) s''(1) unfolding p(1) by (rule pmm_step.step_free)
  from pmm_step_inv(2) [OF this co1(1) co1(2) [OF assms(2)]] have co2: "coalesced (free_blocks s'')" .
  have "buddy_set (mm_frames_count t) (free_blocks t)" if "pmm_inv t" for t
    by (rule buddy_set_mono [OF pmm_inv_disjoint(1) [OF that]]) auto
  from coalesced_unique [OF this [OF s''(2)] co2 this [OF assms(1)] assms(2) s''(4)] s''
  show ?thesis by blast
qed

theorem alloc_free_roundtrip_witness:
  "pmm_inv demo_pmm \<and> coalesced (free_blocks demo_pmm) \<and>
   (\<exists>a s' s''. alloc_frames 0 demo_pmm = Inr (a, s') \<and> a \<noteq> INVALID_ADDRESS \<and> free_frame a s' = Inr s'' \<and>
      free_blocks s'' = {(3, 0), (0, 1)} \<and> alloc_blocks s'' = {(2, 0)})"
proof -
  have h: "(0 :: int) \<le> 0" "0 \<le> FRAME_MAX_ORDER" by (simp_all add: FRAME_MAX_ORDER_def)
  have "0 \<le> max_order" by simp
  with demo_pmm_inv(1) obtain p s' where a: "alloc_frames 0 demo_pmm = Inr (push_bit 12 (of_nat p), s')" "p < 2 ^ 52"
    by (cases rule: alloc_frames_inv) (auto simp: demo_pmm_inv(2))
  have na: "push_bit 12 (of_nat p) \<noteq> INVALID_ADDRESS"
    using frame_addr(2) [OF a(2)] by (simp add: INVALID_ADDRESS_def)
  from alloc_free_roundtrip [OF demo_pmm_inv(1,3) h a(1) na] a(1) na demo_pmm_inv show ?thesis
    by (auto simp: demo_alloc_blocks)
qed

text \<open>
  C3. In every state that client calls of \<open>alloc_frames\<close> and \<open>free_frame\<close> can reach, allocated blocks
  do not overlap each other or any free frame, the frames in circulation are the ones the
  allocator started with, free blocks stay merged, and both calls go on working: an
  allocation of any order from 0 to 11 and the release of any allocated block return.
\<close>

theorem pmm_reachable_safe:
  assumes "pmm_inv s\<^sub>0" and "pmm_step\<^sup>*\<^sup>* s\<^sub>0 s"
  shows "(\<forall>b c. b \<in> alloc_blocks s \<longrightarrow> c \<in> alloc_blocks s \<longrightarrow> b \<noteq> c \<longrightarrow> blk b \<inter> blk c = {}) \<and>
    cover (alloc_blocks s) \<inter> cover (free_blocks s) = {} \<and>
    cover (free_blocks s) \<union> cover (alloc_blocks s) = cover (free_blocks s\<^sub>0) \<union> cover (alloc_blocks s\<^sub>0) \<and>
    (coalesced (free_blocks s\<^sub>0) \<longrightarrow> coalesced (free_blocks s)) \<and>
    (\<forall>k \<le> max_order. \<exists>a s'. alloc_frames (int k) s = Inr (a, s')) \<and>
    (\<forall>p k. (p, k) \<in> alloc_blocks s \<longrightarrow> (\<exists>s'. free_frame (push_bit 12 (of_nat p)) s = Inr s'))"
proof -
  have "pmm_kept s\<^sub>0 s" by (rule pmm_calls.run_inv [OF assms(2)]) (simp add: pmm_kept_def assms(1))
  note inv = this [unfolded pmm_kept_def]
  then have i: "pmm_inv s" by simp
  have "cover (alloc_blocks s) \<inter> cover (free_blocks s) = {}"
    using buddy.used_not_avail [OF i] by (auto simp: cover_def)
  moreover have "\<forall>p k. (p, k) \<in> alloc_blocks s \<longrightarrow> (\<exists>s'. free_frame (push_bit 12 (of_nat p)) s = Inr s')"
    using buddy.release_total [OF i] by blast
  ultimately show ?thesis
    using inv buddy.used_disjoint [OF i] buddy.alloc_no_error [OF i] by blast
qed

theorem pmm_reachable_safe_witness:
  "\<exists>s. pmm_inv demo_pmm \<and> pmm_step\<^sup>*\<^sup>* demo_pmm s \<and> pmm_step demo_pmm s \<and>
     cover (free_blocks s) \<union> cover (alloc_blocks s) = {0..<4} \<and> coalesced (free_blocks s)"
proof -
  obtain s where s: "pmm_step demo_pmm s" "pmm_step\<^sup>*\<^sup>* demo_pmm s" using demo_steps by blast
  have "cover (free_blocks demo_pmm) \<union> cover (alloc_blocks demo_pmm) = {0..<4}"
    by (auto simp: demo_pmm_inv(2) demo_alloc_blocks cover_def blk_def)
  with pmm_reachable_safe [OF demo_pmm_inv(1) s(2)] s demo_pmm_inv(1,3) show ?thesis by auto
qed

lemma init_buddy_region:
  assumes "pmm_inv s" and "limit \<le> mm_frames_count s"
    and "\<forall>i. beg \<le> i \<and> i < limit \<longrightarrow> ord s i = - 1 \<and> \<not> is_resv s i"
    and "cover (free_blocks s \<union> alloc_blocks s) \<inter> {beg..<limit} = {}"
  shows "\<exists>s'. init_buddy_allocator beg limit s = Inr s' \<and> pmm_inv s' \<and>
    cover (free_blocks s') = cover (free_blocks s) \<union> {beg..<limit} \<and> alloc_blocks s' = alloc_blocks s \<and>
    mm_frames_count s' = mm_frames_count s \<and> fl s' = fl s \<and>
    (\<forall>i. i \<notin> {beg..<limit} \<longrightarrow> ord s' i = ord s i)"
proof -
  from assms(1) obtain L where inv: "pinv s L {}" by (auto simp: pmm_inv_def)
  note F = pinv_free_blocks [OF inv]
  from init_buddy_allocator_ok [OF inv assms(2,3) assms(4) [unfolded F]] obtain s' L' where
    s': "init_buddy_allocator beg limit s = Inr s'" "pinv s' L' {}"
      "cover (free_set L') = cover (free_set L) \<union> {beg..<limit}" "alloc_blocks s' = alloc_blocks s"
      "mm_frames_count s' = mm_frames_count s" "fl s' = fl s"
      "\<forall>i. i \<notin> {beg..<limit} \<longrightarrow> ord s' i = ord s i" by blast
  with pinv_free_blocks [OF s'(2)] F show ?thesis by (auto simp: pmm_inv_def)
qed

text \<open>
  C25. Handing the frames \<open>beg\<close> to \<open>limit - 1\<close> to the allocator returns, keeps the invariant, and makes
  exactly those frames free in addition, provided they lie in the frame array, are not reserved,
  carry no order yet and are in no block. Orders outside the range and all flags stay.
\<close>

theorem init_buddy_allocator_correct:
  assumes "pmm_inv s" and "limit \<le> mm_frames_count s"
    and "\<forall>i. beg \<le> i \<and> i < limit \<longrightarrow> ord s i = - 1 \<and> \<not> is_resv s i"
    and "cover (free_blocks s \<union> alloc_blocks s) \<inter> {beg..<limit} = {}"
  shows "\<exists>s'. init_buddy_allocator beg limit s = Inr s' \<and> pmm_inv s' \<and>
    cover (free_blocks s') = cover (free_blocks s) \<union> {beg..<limit} \<and> alloc_blocks s' = alloc_blocks s \<and>
    mm_frames_count s' = mm_frames_count s \<and> fl s' = fl s \<and>
    (\<forall>i. i \<notin> {beg..<limit} \<longrightarrow> ord s' i = ord s i)"
  by (rule init_buddy_region [OF assms])

theorem init_buddy_allocator_correct_witness:
  "pmm_inv (blank_pmm 16) \<and>
   (\<exists>s. init_buddy_allocator 1 16 (blank_pmm 16) = Inr s \<and> pmm_inv s \<and> cover (free_blocks s) = {1..<16} \<and>
      alloc_blocks s = {})"
proof -
  have n: "(16 :: nat) \<le> 2 ^ 52" by simp
  note b = blank_pmm_ok [OF n]
  have "cover (free_blocks (blank_pmm 16) \<union> alloc_blocks (blank_pmm 16)) \<inter> {1..<16} = {}"
    by (simp add: b(2,3) cover_def)
  from init_buddy_allocator_correct [OF b(1) _ _ this] b show ?thesis
    by (auto simp: blank_pmm_views cover_def)
qed

text \<open>
  \<open>alloc_frames\<close> does not check its argument: an order outside 0 to 11 indexes the array of
  free lists out of bounds, whatever the state.
\<close>

lemma alloc_frames_bad_order:
  assumes "order < 0 \<or> FRAME_MAX_ORDER < order"
  shows "alloc_frames order s = Inl Fault"
  using assms
  by (auto simp: alloc_frames_def find_order.simps [of order] region_at_def FRAME_MAX_ORDER_def)

end
