(* ===== verification/Cpu.thy ===== *)
theory Cpu
  imports Ktypes
begin

text \<open>
  The processor as \<open>include/fynaos/cpu.h\<close> uses it: the flags register with its interrupt-enable
  bit, the control and descriptor-table registers, and port I/O. Output ports are the trace of
  writes; what a port read returns is the environment's choice, a function of the number of reads
  done so far.
\<close>

record cpu =
  rflags :: u64
  cr2 :: u64
  cr3 :: u64
  gdtr :: "u16 \<times> u64"
  idtr :: "u16 \<times> u64"
  seg_cs :: u16
  seg_data :: u16
  tr :: u16
  port_in :: "nat \<Rightarrow> u16 \<Rightarrow> u8"
  port_reads :: nat
  port_out :: "(u16 \<times> u8) list"

definition IF_MASK :: u64 where [kconst]: "IF_MASK = 0x200"

definition disable_interrupts :: "cpu \<Rightarrow> cpu" where
  "disable_interrupts c = c\<lparr>rflags := rflags c AND NOT IF_MASK\<rparr>"

definition enable_interrupts :: "cpu \<Rightarrow> cpu" where
  "enable_interrupts c = c\<lparr>rflags := rflags c OR IF_MASK\<rparr>"

definition save_and_disable_interrupts :: "cpu \<Rightarrow> u64 \<times> cpu" where
  "save_and_disable_interrupts c = (rflags c, disable_interrupts c)"

definition restore_interrupts :: "u64 \<Rightarrow> cpu \<Rightarrow> cpu" where
  "restore_interrupts flags c = c\<lparr>rflags := flags\<rparr>"

definition read_cr2 :: "cpu \<Rightarrow> u64" where
  "read_cr2 c = cr2 c"

definition write_cr3 :: "u64 \<Rightarrow> cpu \<Rightarrow> cpu" where
  "write_cr3 p c = c\<lparr>cr3 := p\<rparr>"

definition outb :: "u16 \<Rightarrow> u8 \<Rightarrow> cpu \<Rightarrow> cpu" where
  "outb port val c = c\<lparr>port_out := port_out c @ [(port, val)]\<rparr>"

definition inb :: "u16 \<Rightarrow> cpu \<Rightarrow> u8 \<times> cpu" where
  "inb port c = (port_in c (port_reads c) port, c\<lparr>port_reads := port_reads c + 1\<rparr>)"

definition interrupts_enabled :: "cpu \<Rightarrow> bool" where
  "interrupts_enabled c \<longleftrightarrow> rflags c AND IF_MASK \<noteq> 0"

section \<open>Selectors\<close>

definition MAKE_SEGMENT_SELECTOR :: "32 word \<Rightarrow> 32 word \<Rightarrow> 32 word \<Rightarrow> 32 word" where
  "MAKE_SEGMENT_SELECTOR index ti rpl =
     (push_bit 3 (index AND 0x1FFF) OR push_bit 2 (ti AND 1)) OR (rpl AND 3)"

definition KERNEL_CODE_SELECTOR :: "32 word" where "KERNEL_CODE_SELECTOR = MAKE_SEGMENT_SELECTOR 1 0 0"
definition KERNEL_DATA_SELECTOR :: "32 word" where "KERNEL_DATA_SELECTOR = MAKE_SEGMENT_SELECTOR 2 0 0"
definition USER_CODE_SELECTOR :: "32 word" where "USER_CODE_SELECTOR = MAKE_SEGMENT_SELECTOR 3 0 3"
definition USER_DATA_SELECTOR :: "32 word" where "USER_DATA_SELECTOR = MAKE_SEGMENT_SELECTOR 4 0 3"

section \<open>Interrupt flag\<close>

lemma interrupts_disabled [simp]: "\<not> interrupts_enabled (disable_interrupts c)"
  by (simp add: interrupts_enabled_def disable_interrupts_def and.assoc)

lemma interrupts_enabled_enable [simp]: "interrupts_enabled (enable_interrupts c)"
  by (simp add: interrupts_enabled_def enable_interrupts_def IF_MASK_def bit.conj_disj_distrib2)

text \<open>The bracket \<open>save_and_disable_interrupts\<close> \<open>restore_interrupts\<close> gives the flags register back.\<close>

lemma restore_saved:
  "save_and_disable_interrupts c = (flags, c1) \<Longrightarrow> rflags (restore_interrupts flags c2) = rflags c"
  by (auto simp: save_and_disable_interrupts_def restore_interrupts_def)

lemma restore_disabled [simp]: "restore_interrupts (rflags c) (disable_interrupts c) = c"
  by (simp add: restore_interrupts_def disable_interrupts_def)

section \<open>A sample processor\<close>

text \<open>Interrupts enabled, every port reads \<open>0x20\<close>: a serial port that is always ready.\<close>

definition demo_cpu :: cpu where
  "demo_cpu = \<lparr>rflags = IF_MASK, cr2 = 0, cr3 = 0, gdtr = (0, 0), idtr = (0, 0), seg_cs = 0, seg_data = 0, tr = 0,
     port_in = (\<lambda>_ _. 0x20), port_reads = 0, port_out = []\<rparr>"

end
