(* ===== verification/Pool.thy ===== *)
theory Pool
  imports Pmm_Spec Cpu
begin

text \<open>
  The kernel pool of \<open>mm/pool.c\<close>. Blocks and pools live in byte memory: a pointer is a 64-bit
  address, a field is a 64-bit load or store at the offset the ABI gives it, so that blocks that
  overlap overwrite each other as they do in C. The record \<open>kernel\<close> is the state of the memory
  manager: memory, the frame allocator, the processor and the globals of \<open>mm/pool.c\<close> and
  \<open>mm/vmm.c\<close>.
\<close>

record kernel =
  kmem :: mem
  kpmm :: pmm
  kcpu :: cpu
  pools :: u64
  pool_tail :: u64
  kernel_mm :: u64
  current_mm :: u64

section \<open>Layout\<close>

text \<open>\<open>sizeof(struct block)\<close> is 32: 24 bytes of header and links, one byte of data, padding to 8.\<close>

definition SIZEOF_BLOCK :: u64 where [kconst]: "SIZEOF_BLOCK = 32"
definition BLOCK_DATA :: u64 where [kconst]: "BLOCK_DATA = 24"
definition SIZEOF_POOL :: u64 where [kconst]: "SIZEOF_POOL = 24"
definition BLOCK_USED :: u64 where [kconst]: "BLOCK_USED = 0x8000000000000000"

definition IS_BLOCK_USED :: "u64 \<Rightarrow> bool" where
  "IS_BLOCK_USED h \<longleftrightarrow> h AND 0x8000000000000000 \<noteq> 0"

definition GET_BLOCK_LEN :: "u64 \<Rightarrow> u64" where
  "GET_BLOCK_LEN h = h AND 0x7FFFFFFFFFFFFFFF"

definition b_header :: "mem \<Rightarrow> u64 \<Rightarrow> u64" where "b_header m b = load64 m b"
definition b_next :: "mem \<Rightarrow> u64 \<Rightarrow> u64" where "b_next m b = load64 m (b + 8)"
definition b_prev :: "mem \<Rightarrow> u64 \<Rightarrow> u64" where "b_prev m b = load64 m (b + 16)"
definition set_header :: "u64 \<Rightarrow> u64 \<Rightarrow> mem \<Rightarrow> mem" where "set_header b v m = store64 m b v"
definition set_bnext :: "u64 \<Rightarrow> u64 \<Rightarrow> mem \<Rightarrow> mem" where "set_bnext b v m = store64 m (b + 8) v"
definition set_bprev :: "u64 \<Rightarrow> u64 \<Rightarrow> mem \<Rightarrow> mem" where "set_bprev b v m = store64 m (b + 16) v"

definition pool_next :: "mem \<Rightarrow> u64 \<Rightarrow> u64" where "pool_next m p = load64 m (p + 16)"
definition pool_first :: "u64 \<Rightarrow> u64" where "pool_first p = p + SIZEOF_POOL"

section \<open>Blocks\<close>

definition divide :: "u64 \<Rightarrow> u64 \<Rightarrow> mem \<Rightarrow> bool \<times> mem" where
  "divide block data_len m =
     (if GET_BLOCK_LEN (b_header m block) \<le> data_len + SIZEOF_BLOCK then (False, m)
      else
        let block2 = block + data_len + SIZEOF_BLOCK;
            nxt = b_next m block;
            m1 = set_header block2 (GET_BLOCK_LEN (b_header m block) - (data_len + SIZEOF_BLOCK)) m;
            m2 = set_header block (data_len + SIZEOF_BLOCK) m1;
            m3 = set_bnext block block2 m2;
            m4 = set_bnext block2 nxt m3;
            m5 = set_bprev block2 block m4;
            m6 = (if nxt \<noteq> 0 then set_bprev nxt block2 m5 else m5)
        in (True, m6))"

definition merge :: "u64 \<Rightarrow> mem \<Rightarrow> mem" where
  "merge block m =
     (let second = b_next m block;
          m1 = set_header block (b_header m block + b_header m second) m;
          m2 = set_bnext block (b_next m1 second) m1
      in if b_next m2 second \<noteq> 0 then set_bprev (b_next m2 second) block m2 else m2)"

text \<open>
  The search loop of \<open>allocate\<close>. It changes no memory, so a search of more steps than there are
  addresses goes round a cycle and never ends: \<open>fuel\<close> counts down from \<open>2 ^ 64\<close>.
\<close>

function find_block :: "nat \<Rightarrow> u64 \<Rightarrow> u64 \<Rightarrow> mem \<Rightarrow> u64 res" where
  "find_block fuel first len m =
     (if first = 0 then Inr 0
      else if \<not> IS_BLOCK_USED (b_header m first) \<and> GET_BLOCK_LEN (b_header m first) \<ge> len + SIZEOF_BLOCK
      then Inr first
      else if fuel = 0 then Inl Spin
      else find_block (fuel - 1) (b_next m first) len m)"
  by pat_completeness auto
termination
  by (relation "measure fst") auto

declare find_block.simps [simp del]

definition allocate :: "u64 \<Rightarrow> u64 \<Rightarrow> mem \<Rightarrow> (u64 \<times> mem) res" where
  "allocate first0 len0 m =
     (let len = align_up_mask len0 15 in
      rbind (find_block (2 ^ 64) first0 len m) (\<lambda>first.
      if first = 0 \<or> IS_BLOCK_USED (b_header m first) then Inr (0, m)
      else
        let m1 = (if GET_BLOCK_LEN (b_header m first) - SIZEOF_BLOCK > len then snd (divide first len m) else m);
            m2 = set_header first (b_header m1 first OR BLOCK_USED) m1
        in Inr (first + BLOCK_DATA, m2)))"

definition kfree :: "u64 \<Rightarrow> kernel \<Rightarrow> kernel res" where
  "kfree addr s =
     (if addr = 0 then Inr s
      else
        let block = addr - SIZEOF_BLOCK; m = kmem s in
        if \<not> IS_BLOCK_USED (b_header m block) then Inl (Panic ''Double free detected'')
        else
          let m1 = set_header block (b_header m block AND NOT BLOCK_USED) m;
              m2 = (if b_next m1 block \<noteq> 0 \<and> \<not> IS_BLOCK_USED (b_header m1 (b_next m1 block))
                    then merge block m1 else m1);
              m3 = (if b_prev m2 block \<noteq> 0 \<and> \<not> IS_BLOCK_USED (b_header m2 (b_prev m2 block))
                    then merge (b_prev m2 block) m2 else m2)
          in Inr (s\<lparr>kmem := m3\<rparr>))"

section \<open>Pools\<close>

definition init_single_pool :: "u64 \<Rightarrow> u64 \<Rightarrow> mem \<Rightarrow> mem" where
  "init_single_pool pool len m =
     (let m1 = store64 m pool len;
          m2 = store64 m1 (pool + 16) 0;
          m3 = store64 m2 (pool + 8) 0;
          m4 = set_header (pool_first pool) (len - SIZEOF_POOL) m3;
          m5 = set_bnext (pool_first pool) 0 m4
      in set_bprev (pool_first pool) 0 m5)"

definition extend_pool :: "kernel \<Rightarrow> (bool \<times> kernel) res" where
  "extend_pool s =
     rbind (alloc_frames 0 (kpmm s)) (\<lambda>(page, pm).
     if page = INVALID_ADDRESS then Inr (False, s\<lparr>kpmm := pm\<rparr>)
     else
       rbind (zero_page (kmem s) page) (\<lambda>m1.
       let m2 = store64 m1 (pool_tail s + 16) (phys_to_virt page);
           m3 = init_single_pool (pool_next m2 (pool_tail s)) PAGE_SIZE m2
       in Inr (True, s\<lparr>kpmm := pm, kmem := m3, pool_tail := pool_next m3 (pool_tail s)\<rparr>)))"

text \<open>
  The loop of \<open>kmalloc\<close> from \<open>pool\<close> on, giving the address or \<open>None\<close> for the early \<open>return NULL\<close>.
  A null pool pointer is followed like any other, since address 0 is mapped. A round either moves to an existing pool or adds a page, so more than \<open>2 ^ 65\<close> rounds go
  round a cycle.
\<close>

function kmalloc_loop :: "nat \<Rightarrow> u64 \<Rightarrow> u64 \<Rightarrow> kernel \<Rightarrow> (u64 option \<times> kernel) res" where
  "kmalloc_loop fuel pool len s =
     rbind (allocate (pool_first pool) len (kmem s)) (\<lambda>(addr, m).
       let s1 = s\<lparr>kmem := m\<rparr> in
       if addr \<noteq> 0 then Inr (Some addr, s1)
       else if fuel = 0 then Inl Spin
       else if pool_next (kmem s1) pool = 0 then
         rbind (extend_pool s1) (\<lambda>(ok, s2).
           if \<not> ok then Inr (None, s2)
           else kmalloc_loop (fuel - 1) (pool_next (kmem s2) pool) len s2)
       else kmalloc_loop (fuel - 1) (pool_next (kmem s1) pool) len s1)"
  by pat_completeness auto
termination
  by (relation "measure fst") auto

declare kmalloc_loop.simps [simp del]

definition kmalloc :: "u64 \<Rightarrow> kernel \<Rightarrow> (u64 \<times> kernel) res" where
  "kmalloc len s =
     (let (flags, c) = save_and_disable_interrupts (kcpu s); s0 = s\<lparr>kcpu := c\<rparr> in
      rbind (kmalloc_loop (2 ^ 65) (pools s0) len s0) (\<lambda>(r, s1).
        case r of
          None \<Rightarrow> Inr (0, s1)
        | Some addr \<Rightarrow> Inr (addr, s1\<lparr>kcpu := restore_interrupts flags (kcpu s1)\<rparr>)))"

definition init_pool :: "kernel \<Rightarrow> (bool \<times> kernel) res" where
  "init_pool s =
     rbind (alloc_frames 0 (kpmm s)) (\<lambda>(page, pm).
     if page = INVALID_ADDRESS then Inr (False, s\<lparr>kpmm := pm\<rparr>)
     else
       rbind (zero_page (kmem s) page) (\<lambda>m1.
       let p = phys_to_virt page
       in Inr (True, s\<lparr>kpmm := pm, pools := p, pool_tail := p, kmem := init_single_pool p PAGE_SIZE m1\<rparr>)))"

end
