(* ===== verification/Pool_Spec.thy ===== *)
theory Pool_Spec
  imports Pool
begin

text \<open>
  What the pool promises. A pool page is represented by the list of its blocks, each with its
  length and whether it is in use; \<open>chain\<close> says that memory holds their headers and links back to
  back. \<open>allocate\<close> is first fit on that list.
\<close>

type_synonym blocks = "(nat \<times> bool) list"

section \<open>Headers\<close>

definition hdr :: "nat \<Rightarrow> bool \<Rightarrow> u64" where
  "hdr n u = (if u then of_nat n OR BLOCK_USED else of_nat n)"

lemma bit_of_nat_small: "n < 2 ^ k \<Longrightarrow> \<not> bit (of_nat n :: 'a::len word) k"
proof -
  assume "n < 2 ^ k"
  then have "\<not> bit n k" by (simp add: bit_iff_odd)
  then show ?thesis by (simp add: bit_of_nat_iff)
qed

lemma USED_eq: "IS_BLOCK_USED h \<longleftrightarrow> bit h 63"
proof -
  have e: "(0x8000000000000000 :: u64) = 2 ^ 63" by simp
  show ?thesis unfolding IS_BLOCK_USED_def e and_exp_eq_0_iff_not_bit by simp
qed

lemma LEN_eq: "GET_BLOCK_LEN h = take_bit 63 h"
proof -
  have e: "(0x7FFFFFFFFFFFFFFF :: u64) = mask 63" by (simp add: mask_eq_exp_minus_1)
  show ?thesis unfolding GET_BLOCK_LEN_def e by (simp add: take_bit_eq_mask)
qed

lemma BLOCK_USED_pow: "BLOCK_USED = 2 ^ 63"
  by (simp add: BLOCK_USED_def)

lemma bit_BLOCK_USED: "bit BLOCK_USED k \<longleftrightarrow> k = 63"
proof -
  have "bit (2 ^ 63 :: u64) k \<longleftrightarrow> possible_bit TYPE(u64) k \<and> k = 63" by (rule bit_exp_iff)
  then show ?thesis by (simp only: BLOCK_USED_pow) auto
qed

lemma hdr_used: "n < 2 ^ 63 \<Longrightarrow> IS_BLOCK_USED (hdr n u) = u"
  by (simp add: USED_eq hdr_def bit_or_iff bit_of_nat_small bit_BLOCK_USED)

lemma hdr_len: "n < 2 ^ 63 \<Longrightarrow> GET_BLOCK_LEN (hdr n u) = of_nat n"
proof -
  assume n: "n < 2 ^ 63"
  have "take_bit 63 (of_nat n :: u64) = of_nat (take_bit 63 n)" by (simp add: take_bit_of_nat)
  also have "take_bit 63 n = n" using n by (simp add: take_bit_nat_eq_self)
  finally have t: "take_bit 63 (of_nat n :: u64) = of_nat n" .
  moreover have "take_bit 63 BLOCK_USED = 0" by (simp add: BLOCK_USED_def)
  ultimately show ?thesis by (simp add: LEN_eq hdr_def)
qed

lemma hdr_mark: "hdr n False OR BLOCK_USED = hdr n True"
  by (simp add: hdr_def)

lemma hdr_unmark: "n < 2 ^ 63 \<Longrightarrow> hdr n True AND NOT BLOCK_USED = hdr n False"
proof -
  assume n: "n < 2 ^ 63"
  have "\<not> bit (of_nat n :: u64) 63" by (rule bit_of_nat_small [OF n])
  then show ?thesis
    by (intro bit_word_eqI) (auto simp: hdr_def bit_and_iff bit_or_iff bit_not_iff bit_BLOCK_USED)
qed

section \<open>Chains of blocks\<close>

fun chain :: "mem \<Rightarrow> u64 \<Rightarrow> nat \<Rightarrow> u64 \<Rightarrow> blocks \<Rightarrow> u64 \<Rightarrow> bool" where
  "chain m B off prev [] fin \<longleftrightarrow> True"
| "chain m B off prev ((n, u) # bs) fin \<longleftrightarrow>
     24 \<le> n \<and> b_header m (B + of_nat off) = hdr n u \<and>
     b_next m (B + of_nat off) = (if bs = [] then fin else B + of_nat (off + n)) \<and>
     b_prev m (B + of_nat off) = prev \<and>
     chain m B (off + n) (B + of_nat off) bs fin"

definition span :: "blocks \<Rightarrow> nat" where
  "span bs = sum_list (map fst bs)"

definition arena :: "u64 \<Rightarrow> bool" where
  "arena B \<longleftrightarrow> 0 < unat B \<and> unat B + 4072 \<le> 2 ^ 64"

lemma span_simps [simp]:
  "span [] = 0" "span ((n, u) # bs) = n + span bs" "span (xs @ ys) = span xs + span ys"
  by (simp_all add: span_def)

definition last_off :: "nat \<Rightarrow> blocks \<Rightarrow> nat" where
  "last_off off bs = off + span (butlast bs)"

lemma chain_append:
  "chain m B off prev (xs @ ys) fin \<longleftrightarrow>
     chain m B off prev xs (if ys = [] then fin else B + of_nat (off + span xs)) \<and>
     chain m B (off + span xs) (if xs = [] then prev else B + of_nat (last_off off xs)) ys fin"
proof (induction xs arbitrary: off prev)
  case (Cons x xs)
  obtain n u where x: "x = (n, u)" by force
  show ?case
    by (cases "xs = []") (auto simp: x Cons.IH last_off_def add.assoc)
qed (simp add: last_off_def)

text \<open>A chain only depends on the three words at the head of each block.\<close>

lemma field_offsets:
  "b_header m (B + of_nat off) = load64 m (B + of_nat off)"
  "b_next m (B + of_nat off) = load64 m (B + of_nat (off + 8))"
  "b_prev m (B + of_nat off) = load64 m (B + of_nat (off + 16))"
  "set_header (B + of_nat off) v m = store64 m (B + of_nat off) v"
  "set_bnext (B + of_nat off) v m = store64 m (B + of_nat (off + 8)) v"
  "set_bprev (B + of_nat off) v m = store64 m (B + of_nat (off + 16)) v"
  by (simp_all add: b_header_def b_next_def b_prev_def set_header_def set_bnext_def set_bprev_def add.assoc)

lemma chain_store:
  assumes "chain m B off prev bs fin" and "o1 + 8 \<le> off \<or> off + span bs \<le> o1" and "off + span bs \<le> 4072" and "o1 < 8192"
  shows "chain (store64 m (B + of_nat o1) v) B off prev bs fin"
  using assms
proof (induction bs arbitrary: off prev)
  case (Cons b bs)
  obtain n u where b: "b = (n, u)" by force
  have n: "24 \<le> n" using Cons.prems(1) by (simp add: b)
  have "chain (store64 m (B + of_nat o1) v) B (off + n) (B + of_nat off) bs fin"
    using Cons.prems n by (intro Cons.IH) (auto simp: b)
  moreover have "load64 (store64 m (B + of_nat o1) v) (B + of_nat (off + k)) = load64 m (B + of_nat (off + k))"
    if "k \<in> {0, 8, 16}" for k
    using Cons.prems(2-4) n that by (subst load_store_offset) (auto simp: b)
  ultimately show ?case
    using Cons.prems(1) by (simp add: b field_offsets del: of_nat_add) (metis add_0_right insertI1 insert_iff)
qed simp

lemma chain_bytes:
  assumes "chain m B off prev bs fin"
    and "\<And>k. off \<le> k \<Longrightarrow> k < off + span bs \<Longrightarrow> m' (B + of_nat k) = m (B + of_nat k)"
  shows "chain m' B off prev bs fin"
  using assms
proof (induction bs arbitrary: off prev)
  case (Cons b bs)
  obtain n u where b: "b = (n, u)" by force
  have n: "24 \<le> n" using Cons.prems(1) by (simp add: b)
  have "load64 m' (B + of_nat (off + k)) = load64 m (B + of_nat (off + k))" if "k \<in> {0, 8, 16}" for k
    using that n by (intro load_offset_cong Cons.prems(2)) (auto simp: b)
  then have "load64 m' (B + of_nat off) = load64 m (B + of_nat off)"
    "load64 m' (B + of_nat (off + 8)) = load64 m (B + of_nat (off + 8))"
    "load64 m' (B + of_nat (off + 16)) = load64 m (B + of_nat (off + 16))"
    by (auto simp del: of_nat_add) (metis add_0_right insertI1)
  moreover have "chain m' B (off + n) (B + of_nat off) bs fin"
    using Cons.prems by (intro Cons.IH) (auto simp: b)
  ultimately show ?case
    using Cons.prems(1) by (simp add: b field_offsets del: of_nat_add)
qed simp

lemma arena_nonzero: "arena B \<Longrightarrow> k < 4072 \<Longrightarrow> B + of_nat k \<noteq> 0"
proof -
  assume a: "arena B" "k < 4072"
  have "unat (B + of_nat k) = unat B + k"
    using a by (subst unat_add_nowrap) (simp_all add: arena_def unat_of_nat_small)
  then show ?thesis using a by (auto simp: arena_def)
qed

section \<open>First fit\<close>

definition fits :: "nat \<Rightarrow> nat \<times> bool \<Rightarrow> bool" where
  "fits L b \<longleftrightarrow> \<not> snd b \<and> L + 32 \<le> fst b"

lemma fits_word:
  assumes "n \<le> 4072" and "L + 32 < 2 ^ 64"
  shows "(\<not> IS_BLOCK_USED (hdr n u) \<and> of_nat L + SIZEOF_BLOCK \<le> GET_BLOCK_LEN (hdr n u)) \<longleftrightarrow> fits L (n, u)"
proof -
  have "unat (of_nat L + SIZEOF_BLOCK) = L + 32"
    using assms by (subst unat_add_nowrap) (simp_all add: unat_of_nat_small SIZEOF_BLOCK_def)
  moreover have "unat (of_nat n :: u64) = n" using assms by (simp add: unat_of_nat_small)
  ultimately show ?thesis
    using assms by (simp add: hdr_used hdr_len fits_def word_le_nat_alt)
qed

lemma find_block_skip:
  assumes "chain m B off prev xs fin" and "xs \<noteq> []" and "\<forall>b \<in> set xs. \<not> fits L b" and "length xs \<le> fuel"
    and "arena B" and "off + span xs \<le> 4072" and "L + 32 < 2 ^ 64"
  shows "find_block fuel (B + of_nat off) (of_nat L) m = find_block (fuel - length xs) fin (of_nat L) m"
  using assms
proof (induction xs arbitrary: off prev fuel)
  case (Cons b xs)
  obtain n u where b: "b = (n, u)" by force
  have nz: "B + of_nat off \<noteq> 0" using Cons.prems by (intro arena_nonzero) (auto simp: b)
  have step: "find_block fuel (B + of_nat off) (of_nat L) m =
      find_block (fuel - 1) (b_next m (B + of_nat off)) (of_nat L) m"
    using Cons.prems nz fits_word [of n L u]
    by (subst find_block.simps) (auto simp: b)
  show ?case
  proof (cases "xs = []")
    case True
    with step Cons.prems show ?thesis by (simp add: b)
  next
    case False
    have "find_block (fuel - 1) (B + of_nat (off + n)) (of_nat L) m = find_block (fuel - 1 - length xs) fin (of_nat L) m"
      using Cons.prems False by (intro Cons.IH) (auto simp: b)
    with step Cons.prems False show ?thesis by (simp add: b)
  qed
qed simp

lemma find_block_hit:
  assumes "chain m B off prev ((n, False) # ys) fin" and "fits L (n, False)" and "arena B"
    and "off + n \<le> 4072" and "L + 32 < 2 ^ 64"
  shows "find_block fuel (B + of_nat off) (of_nat L) m = Inr (B + of_nat off)"
  using assms fits_word [of n L False] arena_nonzero [of B off]
  by (subst find_block.simps) auto

lemma find_block_first_fit:
  assumes "chain m B 0 0 (xs @ (n, False) # ys) 0" and "\<forall>b \<in> set xs. \<not> fits L b" and "fits L (n, False)"
    and "arena B" and "span xs + n \<le> 4072" and "L + 32 < 2 ^ 64" and "length xs \<le> fuel"
  shows "find_block fuel B (of_nat L) m = Inr (B + of_nat (span xs))"
proof -
  have c: "chain m B 0 0 xs (B + of_nat (span xs))"
    "\<exists>p. chain m B (span xs) p ((n, False) # ys) 0"
    using assms(1) unfolding chain_append by auto
  show ?thesis
  proof (cases "xs = []")
    case True
    with assms c find_block_hit [of m B 0 _ n ys 0 L fuel] show ?thesis by auto
  next
    case False
    have "find_block fuel (B + of_nat 0) (of_nat L) m = find_block (fuel - length xs) (B + of_nat (span xs)) (of_nat L) m"
      using assms c(1) False by (intro find_block_skip) auto
    with c(2) assms find_block_hit show ?thesis by auto
  qed
qed

lemma find_block_none:
  assumes "chain m B 0 0 bs 0" and "bs \<noteq> []" and "\<forall>b \<in> set bs. \<not> fits L b" and "arena B"
    and "span bs \<le> 4072" and "L + 32 < 2 ^ 64" and "length bs \<le> fuel"
  shows "find_block fuel B (of_nat L) m = Inr 0"
proof -
  have "find_block fuel (B + of_nat 0) (of_nat L) m = find_block (fuel - length bs) 0 (of_nat L) m"
    using assms by (intro find_block_skip) auto
  then show ?thesis by (simp add: find_block.simps [of _ 0])
qed

lemma length_chain: "chain m B off prev bs fin \<Longrightarrow> 24 * length bs \<le> span bs"
  by (induction m B off prev bs fin rule: chain.induct) auto

section \<open>Splitting a block\<close>

lemma set_prev_chain:
  assumes "chain m B off p ((n, u) # ys) fin" and "off + span ((n, u) # ys) \<le> 4072"
  shows "chain (store64 m (B + of_nat (off + 16)) q) B off q ((n, u) # ys) fin"
proof -
  have n: "24 \<le> n" and c: "chain m B (off + n) (B + of_nat off) ys fin" using assms(1) by simp_all
  have "chain (store64 m (B + of_nat (off + 16)) q) B (off + n) (B + of_nat off) ys fin"
    by (rule chain_bytes [OF c], rule store_offset_byte) (use n assms(2) in auto)
  moreover have "load64 (store64 m (B + of_nat (off + 16)) q) (B + of_nat (off + k)) =
      (if k = 16 then q else load64 m (B + of_nat (off + k)))" if "k \<in> {0, 8, 16}" for k
    using that assms(2) n by (subst load_store_offset) auto
  note this [of 0] this [of 8] this [of 16]
  ultimately show ?thesis
    using assms(1) by (simp add: field_offsets del: of_nat_add)
qed

lemma divide_chain:
  assumes c: "chain m B a p ((n, False) # ys) 0" and k: "L + 56 \<le> n" and b: "a + n + span ys \<le> 4072" and "arena B"
  obtains m' where "divide (B + of_nat a) (of_nat L) m = (True, m')"
    and "chain m' B a p ((L + 32, False) # (n - (L + 32), False) # ys) 0"
    and "\<And>j. j < 2 ^ 64 \<Longrightarrow> j < a \<or> a + n + 24 \<le> j \<or> (ys = [] \<and> a + n \<le> j) \<Longrightarrow> m' (B + of_nat j) = m (B + of_nat j)"
proof -
  define c2 where "c2 = a + (L + 32)"
  define nxt where "nxt = (if ys = [] then 0 else B + of_nat (a + n))"
  have h: "load64 m (B + of_nat a) = hdr n False" "load64 m (B + of_nat (a + 8)) = nxt"
    "load64 m (B + of_nat (a + 16)) = p" and ys: "chain m B (a + n) (B + of_nat a) ys 0"
    using c by (simp_all add: field_offsets nxt_def del: of_nat_add)
  have n4: "n \<le> 4072" using b by simp
  have uL: "unat (of_nat L + SIZEOF_BLOCK) = L + 32"
    using k n4 by (subst unat_add_nowrap) (simp_all add: unat_of_nat_small SIZEOF_BLOCK_def)
  have L32: "of_nat L + SIZEOF_BLOCK = of_nat (L + 32)" by (simp add: SIZEOF_BLOCK_def)
  have un: "unat (of_nat n :: u64) = n" using n4 by (simp add: unat_of_nat_small)
  have cond: "\<not> GET_BLOCK_LEN (hdr n False) \<le> of_nat L + SIZEOF_BLOCK"
    using k n4 uL un by (simp add: hdr_len word_le_nat_alt)
  have h2: "GET_BLOCK_LEN (hdr n False) - (of_nat L + SIZEOF_BLOCK) = hdr (n - (L + 32)) False"
  proof -
    have "GET_BLOCK_LEN (hdr n False) = of_nat n" using n4 by (intro hdr_len) simp
    then show ?thesis using k unfolding L32 by (simp only: hdr_def) (simp add: of_nat_diff)
  qed
  have blk2: "B + of_nat a + of_nat L + SIZEOF_BLOCK = B + of_nat c2"
    by (simp add: c2_def SIZEOF_BLOCK_def)
  define m5 where "m5 = store64 (store64 (store64 (store64 (store64 m (B + of_nat c2) (hdr (n - (L + 32)) False))
      (B + of_nat a) (hdr (L + 32) False)) (B + of_nat (a + 8)) (B + of_nat c2)) (B + of_nat (c2 + 8)) nxt)
      (B + of_nat (c2 + 16)) (B + of_nat a)"
  define m' where "m' = (if nxt \<noteq> 0 then store64 m5 (B + of_nat (a + n + 16)) (B + of_nat c2) else m5)"
  have nz: "nxt \<noteq> 0 \<longleftrightarrow> ys \<noteq> []"
    using arena_nonzero [OF assms(4), of "a + n"] b length_chain [OF ys] by (cases ys) (auto simp: nxt_def)
  have run: "divide (B + of_nat a) (of_nat L) m = (True, m')"
  proof -
    have hL: "of_nat L + SIZEOF_BLOCK = hdr (L + 32) False" by (simp add: hdr_def L32)
    have nx: "set_bprev nxt v m = store64 m (B + of_nat (a + n + 16)) v" if "ys \<noteq> []" for v m
      using that by (simp add: nxt_def field_offsets del: of_nat_add)
    show ?thesis
      unfolding divide_def field_offsets(1,2) h(1,2) blk2 h2 m'_def nz m5_def
      using cond nx nz by (simp add: Let_def hL field_offsets del: of_nat_add)
  qed
  have loads5: "load64 m5 (B + of_nat a) = hdr (L + 32) False" "load64 m5 (B + of_nat (a + 8)) = B + of_nat c2"
    "load64 m5 (B + of_nat (a + 16)) = p" "load64 m5 (B + of_nat c2) = hdr (n - (L + 32)) False"
    "load64 m5 (B + of_nat (c2 + 8)) = nxt" "load64 m5 (B + of_nat (c2 + 16)) = B + of_nat a"
    using b k h(3) unfolding m5_def c2_def by (simp_all add: load_store_offset del: of_nat_add)
  have byte5: "m5 (B + of_nat j) = m (B + of_nat j)" if "j < 2 ^ 64" "j < a \<or> a + n \<le> j" for j
    using that(2) that(1) b k unfolding m5_def c2_def by (elim disjE) (simp_all add: store_offset_byte del: of_nat_add)
  have ys5: "chain m5 B (a + n) (B + of_nat a) ys 0"
    by (rule chain_bytes [OF ys], rule byte5) (use b in auto)
  have "chain m' B (a + n) (B + of_nat c2) ys 0"
  proof (cases ys)
    case (Cons y zs)
    then show ?thesis
      using set_prev_chain [of m5 B "a + n" "B + of_nat a" "fst y" "snd y" zs 0 "B + of_nat c2"] ys5 b nz
      by (simp add: m'_def del: chain.simps)
  qed simp
  moreover have "load64 m' (B + of_nat o1) = load64 m5 (B + of_nat o1)" if "o1 + 8 \<le> a + n" for o1
    using that b by (simp add: m'_def load_store_offset del: of_nat_add)
  then have "load64 m' (B + of_nat a) = hdr (L + 32) False" "load64 m' (B + of_nat (a + 8)) = B + of_nat c2"
    "load64 m' (B + of_nat (a + 16)) = p" "load64 m' (B + of_nat c2) = hdr (n - (L + 32)) False"
    "load64 m' (B + of_nat (c2 + 8)) = nxt" "load64 m' (B + of_nat (c2 + 16)) = B + of_nat a"
    using loads5 k by (simp_all add: c2_def del: of_nat_add)
  moreover have "c2 + (n - (L + 32)) = a + n" using k by (simp add: c2_def)
  ultimately have "chain m' B a p ((L + 32, False) # (n - (L + 32), False) # ys) 0"
    using k by (simp add: field_offsets c2_def [symmetric] nxt_def del: of_nat_add)
  moreover have "m' (B + of_nat j) = m (B + of_nat j)"
    if "j < 2 ^ 64" "j < a \<or> a + n + 24 \<le> j \<or> (ys = [] \<and> a + n \<le> j)" for j
    using byte5 [of j] that b nz by (auto simp: m'_def store_offset_byte simp del: of_nat_add)
  ultimately show thesis using run that by blast
qed

section \<open>allocate\<close>

text \<open>\<open>in_data bs j\<close>: offset \<open>j\<close> is a data byte of a block in use.\<close>

fun in_data :: "blocks \<Rightarrow> nat \<Rightarrow> bool" where
  "in_data [] j \<longleftrightarrow> False"
| "in_data ((n, u) # bs) j \<longleftrightarrow> (if j < n then u \<and> 24 \<le> j else in_data bs (j - n))"

lemma in_data_append: "in_data (xs @ ys) j = (if j < span xs then in_data xs j else in_data ys (j - span xs))"
  by (induction xs arbitrary: j) (auto simp: diff_diff_add less_diff_conv2 split: if_splits)

lemma in_data_bound: "in_data bs j \<Longrightarrow> j < span bs"
  by (induction bs j rule: in_data.induct) (auto split: if_splits)

text \<open>A pool page: the blocks from \<open>B\<close> on.\<close>

definition pool_blocks :: "mem \<Rightarrow> u64 \<Rightarrow> blocks \<Rightarrow> bool" where
  "pool_blocks m B bs \<longleftrightarrow> chain m B 0 0 bs 0 \<and> bs \<noteq> [] \<and> span bs \<le> 4072 \<and> arena B"

definition take_block :: "nat \<Rightarrow> blocks \<Rightarrow> nat \<Rightarrow> blocks \<Rightarrow> blocks" where
  "take_block L xs n ys =
     (if L + 32 < n then xs @ (L + 32, True) # (n - (L + 32), False) # ys else xs @ (n, True) # ys)"

definition round16 :: "nat \<Rightarrow> nat" where
  "round16 n = (n + 15) div 16 * 16"

lemma align16: "unat len \<le> 2 ^ 64 - 48 \<Longrightarrow> align_up_mask len 15 = of_nat (round16 (unat len))"
proof -
  assume l: "unat len \<le> 2 ^ 64 - 48"
  have m: "(15 :: u64) = mask 4" by (simp add: mask_eq_exp_minus_1)
  have "unat (align_up_mask len (mask 4)) = (unat len + (2 ^ 4 - 1)) div 2 ^ 4 * 2 ^ 4"
    using l by (intro unat_align_up_mask) auto
  then have "unat (align_up_mask len 15) = round16 (unat len)"
    unfolding m [symmetric] round16_def by simp
  then show ?thesis by (metis of_nat_unat ucast_id)
qed

lemma round16_bounds: "n \<le> round16 n" "round16 n < n + 16"
  using nat_round_up_ge [of n 4] nat_round_up_le [of n 4] by (simp_all add: round16_def)

lemma set_header_chain:
  assumes "chain m B a p ((n, u) # ys) fin" and "a + span ((n, u) # ys) \<le> 4072"
  shows "chain (store64 m (B + of_nat a) (hdr n v)) B a p ((n, v) # ys) fin"
proof -
  have n: "24 \<le> n" and c: "chain m B (a + n) (B + of_nat a) ys fin" using assms(1) by simp_all
  have "chain (store64 m (B + of_nat a) (hdr n v)) B (a + n) (B + of_nat a) ys fin"
    by (rule chain_bytes [OF c], rule store_offset_byte) (use n assms(2) in auto)
  moreover have "load64 (store64 m (B + of_nat a) (hdr n v)) (B + of_nat (a + k)) =
      (if k = 0 then hdr n v else load64 m (B + of_nat (a + k)))" if "k \<in> {0, 8, 16}" for k
    using that assms(2) n by (subst load_store_offset) auto
  note this [of 0] this [of 8] this [of 16]
  ultimately show ?thesis
    using assms(1) by (simp add: field_offsets del: of_nat_add)
qed

lemma allocate_none:
  assumes "pool_blocks m B bs" and "unat len \<le> 2 ^ 64 - 48" and "\<forall>b \<in> set bs. \<not> fits (round16 (unat len)) b"
  shows "allocate B len m = Inr (0, m)"
proof -
  have "length bs \<le> 2 ^ 64" using assms(1) length_chain [of m B 0 0 bs 0] by (auto simp: pool_blocks_def)
  then have "find_block (2 ^ 64) B (of_nat (round16 (unat len))) m = Inr 0"
    using assms round16_bounds(2) [of "unat len"] by (intro find_block_none) (auto simp: pool_blocks_def)
  then show ?thesis by (simp add: allocate_def align16 [OF assms(2)])
qed

text \<open>Bytes \<open>divide\<close> leaves alone: data in use, and what lies behind the last block.\<close>

lemma beside_divided:
  assumes c: "chain m B (span xs) p ((n, False) # ys) 0"
    and j: "in_data (xs @ (n, False) # ys) j \<or> span (xs @ (n, False) # ys) \<le> j"
  shows "j < span xs \<or> span xs + n + 24 \<le> j \<or> (ys = [] \<and> span xs + n \<le> j)"
proof (cases ys)
  case Nil
  then show ?thesis using j by (auto simp: in_data_append split: if_splits)
next
  case (Cons y zs)
  obtain n' u where y: "y = (n', u)" by force
  then have "24 \<le> n'" using c Cons by simp
  then show ?thesis using j by (auto simp: Cons y in_data_append split: if_splits)
qed

text \<open>The free block after the decision to divide it or not.\<close>

lemma allocate_divided:
  assumes cy: "chain m B a p ((n, False) # ys) 0" and b: "a + n + span ys \<le> 4072" and B: "arena B" and clean: "n = L + 32 \<or> L + 56 \<le> n"
  obtains m1 n1 rest where "(if L + 32 < n then snd (divide (B + of_nat a) (of_nat L) m) else m) = m1"
    and "chain m1 B a p ((n1, False) # rest) 0" and "take_block L xs n ys = xs @ (n1, True) # rest" and "24 \<le> n1"
    and "n1 + span rest = n + span ys"
    and "\<And>j. j < 2 ^ 64 \<Longrightarrow> j < a \<or> a + n + 24 \<le> j \<or> (ys = [] \<and> a + n \<le> j) \<Longrightarrow> m1 (B + of_nat j) = m (B + of_nat j)"
proof (cases "L + 32 < n")
  case True
  with clean have k: "L + 56 \<le> n" by simp
  from divide_chain [OF cy k b B] obtain m' where "divide (B + of_nat a) (of_nat L) m = (True, m')"
    "chain m' B a p ((L + 32, False) # (n - (L + 32), False) # ys) 0"
    "\<And>j. j < 2 ^ 64 \<Longrightarrow> j < a \<or> a + n + 24 \<le> j \<or> (ys = [] \<and> a + n \<le> j) \<Longrightarrow> m' (B + of_nat j) = m (B + of_nat j)"
    by blast
  with True k show thesis by (intro that [of m' "L + 32" "(n - (L + 32), False) # ys"]) (auto simp: take_block_def)
next
  case False
  have "24 \<le> n" using cy by simp
  with False cy show thesis by (intro that [of m n ys]) (auto simp: take_block_def)
qed

lemma allocate_first_fit:
  assumes P: "pool_blocks m B (xs @ (n, False) # ys)" and len: "unat len \<le> 2 ^ 64 - 48"
    and L: "L = round16 (unat len)" and skip: "\<forall>b \<in> set xs. \<not> fits L b" and fit: "fits L (n, False)"
    and clean: "n = L + 32 \<or> L + 56 \<le> n"
  shows "\<exists>m'. allocate B len m = Inr (B + of_nat (span xs + 24), m') \<and>
    pool_blocks m' B (take_block L xs n ys) \<and>
    (\<forall>j. in_data (xs @ (n, False) # ys) j \<longrightarrow> m' (B + of_nat j) = m (B + of_nat j)) \<and>
    (\<forall>j < 2 ^ 64. span (xs @ (n, False) # ys) \<le> j \<longrightarrow> m' (B + of_nat j) = m (B + of_nat j))"
proof -
  let ?a = "span xs"
  have c: "chain m B 0 0 (xs @ (n, False) # ys) 0" and b: "?a + n + span ys \<le> 4072" and B: "arena B"
    using P by (auto simp: pool_blocks_def)
  have L62: "L + 32 < 2 ^ 64" using len round16_bounds(2) [of "unat len"] L by simp
  have "length xs \<le> 2 ^ 64" using length_chain [OF c] b by simp
  then have fb: "find_block (2 ^ 64) B (of_nat L) m = Inr (B + of_nat ?a)"
    using c skip fit B b L62 by (intro find_block_first_fit) auto
  define p where "p = (if xs = [] then 0 else B + of_nat (last_off 0 xs))"
  have cx: "chain m B 0 0 xs (B + of_nat ?a)" and cy: "chain m B ?a p ((n, False) # ys) 0"
    using c unfolding chain_append p_def by simp_all
  have h: "b_header m (B + of_nat ?a) = hdr n False" using cy by simp
  have n: "24 \<le> n" "n \<le> 4072" using cy b by simp_all
  have nz: "B + of_nat ?a \<noteq> 0" using B b n by (intro arena_nonzero) auto
  have un: "unat (of_nat n - SIZEOF_BLOCK) = n - 32"
    using fit n by (subst unat_sub) (simp_all add: SIZEOF_BLOCK_def word_le_nat_alt unat_of_nat_small fits_def)
  have gt: "GET_BLOCK_LEN (hdr n False) - SIZEOF_BLOCK > of_nat L \<longleftrightarrow> L + 32 < n"
  proof -
    have "GET_BLOCK_LEN (hdr n False) = of_nat n" using n by (intro hdr_len) simp
    then show ?thesis using un L62 fit by (simp add: word_less_nat_alt unat_of_nat_small fits_def less_diff_conv)
  qed
  have "\<not> IS_BLOCK_USED (hdr n False)" using n hdr_used [of n False] by simp
  note run = fb h nz this gt
  obtain m1 n1 rest where m1: "(if L + 32 < n then snd (divide (B + of_nat ?a) (of_nat L) m) else m) = m1"
    "chain m1 B ?a p ((n1, False) # rest) 0" "take_block L xs n ys = xs @ (n1, True) # rest" "24 \<le> n1"
    "n1 + span rest = n + span ys"
    "\<And>j. j < 2 ^ 64 \<Longrightarrow> j < ?a \<or> ?a + n + 24 \<le> j \<or> (ys = [] \<and> ?a + n \<le> j) \<Longrightarrow> m1 (B + of_nat j) = m (B + of_nat j)"
    by (rule allocate_divided [OF cy b B clean]) blast
  define m2 where "m2 = store64 m1 (B + of_nat ?a) (hdr n1 True)"
  have h1: "b_header m1 (B + of_nat ?a) = hdr n1 False" using m1(2) by simp
  have alloc: "allocate B len m = Inr (B + of_nat (?a + 24), m2)"
    using run m1(1) h1 by (simp add: allocate_def align16 [OF len] L [symmetric] Let_def m2_def field_offsets(4)
        hdr_mark BLOCK_DATA_def split: if_splits)
  have byte: "m2 (B + of_nat j) = m (B + of_nat j)"
    if "j < 2 ^ 64" "j < ?a \<or> ?a + n + 24 \<le> j \<or> (ys = [] \<and> ?a + n \<le> j)" for j
    using m1(6) [OF that] that n b by (auto simp: m2_def store_offset_byte)
  have "chain m2 B ?a p ((n1, True) # rest) 0"
    unfolding m2_def using m1(2,5) b by (intro set_header_chain) auto
  moreover have "chain m2 B 0 0 xs (B + of_nat ?a)"
    by (rule chain_bytes [OF cx], rule byte) (use b in auto)
  ultimately have "pool_blocks m2 B (take_block L xs n ys)"
    using b B m1(5) unfolding pool_blocks_def m1(3) chain_append p_def by auto
  moreover have "m2 (B + of_nat j) = m (B + of_nat j)" if "in_data (xs @ (n, False) # ys) j" for j
    using in_data_bound [OF that] b by (intro byte beside_divided [OF cy] disjI1 that) simp
  moreover have "m2 (B + of_nat j) = m (B + of_nat j)" if "j < 2 ^ 64" "span (xs @ (n, False) # ys) \<le> j" for j
    using that by (intro byte beside_divided [OF cy] disjI2) simp_all
  ultimately show ?thesis using alloc by blast
qed

end
