(* ===== verification/Pages.thy ===== *)
theory Pages
  imports Kmem
begin

text \<open>
  Pages of the direct map: \<open>page_ok t\<close> says that \<open>t\<close> is the physical address of a page whose image
  under \<open>phys_to_virt\<close> does not wrap, \<open>in_page x t\<close> that the virtual address \<open>x\<close> lies in that image.
  Different pages share no byte.
\<close>

definition page_ok :: "phys_addr \<Rightarrow> bool" where
  "page_ok t \<longleftrightarrow> 4096 dvd unat t \<and> unat t + 4096 \<le> 2 ^ 47"

lemma PAGE_MASK_eq: "PAGE_MASK = NOT (mask 12)" "NOT 0xFFF = (NOT (mask 12) :: u64)"
  by (simp_all add: PAGE_MASK_def PAGE_SIZE_def mask_numerals(1) [symmetric])

lemma page_ok_mask: "page_ok t \<Longrightarrow> t AND PAGE_MASK = t" "page_ok t \<Longrightarrow> t AND NOT 0xFFF = t"
proof -
  assume "page_ok t"
  then have "unat (t AND NOT (mask 12)) = unat t"
    by (auto simp: unat_and_not_mask page_ok_def)
  then have "t AND NOT (mask 12) = t" by (rule unsigned_word_eqI)
  then show "t AND PAGE_MASK = t" "t AND NOT 0xFFF = t" by (simp_all only: PAGE_MASK_eq)
qed

text \<open>A page of the direct map can be cleared; the page at \<open>INVALID_ADDRESS\<close> cannot.\<close>

lemma canonical_high: "2 ^ 64 - 2 ^ 47 \<le> unat a \<Longrightarrow> canonical a"
proof -
  assume a: "2 ^ 64 - 2 ^ 47 \<le> unat a"
  have "unat (drop_bit 47 a) = unat a div 2 ^ 47" by (simp add: unat_drop_bit_div)
  also have "\<dots> = 2 ^ 17 - 1"
    using a unsigned_less [where 'a = nat and w = a] by (intro div_nat_eqI) simp_all
  finally have "unat (drop_bit 47 a) = unat (mask 17 :: u64)" by (simp add: mask_eq_exp_minus_1)
  then have "drop_bit 47 a = mask 17" by (rule unsigned_word_eqI)
  then show ?thesis by (simp add: canonical_def)
qed

lemma zero_page_ok: "page_ok t \<Longrightarrow> zero_page m t = Inr (zeroed_page m t)"
proof -
  assume "page_ok t"
  then have t: "unat t + 4096 \<le> 2 ^ 47" by (simp add: page_ok_def)
  have "unat (t + KERNEL_DIRECT_BASE) = unat t + (2 ^ 64 - 2 ^ 47)"
    using t by (subst unat_add_nowrap) (simp_all add: KERNEL_DIRECT_BASE_def)
  moreover from this have "unat (t + KERNEL_DIRECT_BASE + (PAGE_SIZE - 1)) = unat t + (2 ^ 64 - 2 ^ 47) + 4095"
    using t by (subst unat_add_nowrap) (simp_all add: PAGE_SIZE_def)
  ultimately show ?thesis by (simp add: zero_page_def canonical_high)
qed

lemma zero_page_invalid: "zero_page m INVALID_ADDRESS = Inl Fault"
proof -
  have "INVALID_ADDRESS + KERNEL_DIRECT_BASE = 0xFFFF7FFFFFFFFFFF" by (simp add: INVALID_ADDRESS_def KERNEL_DIRECT_BASE_def)
  then show ?thesis by (simp add: zero_page_def canonical_def drop_bit_eq_div mask_eq_exp_minus_1)
qed

definition in_page :: "u64 \<Rightarrow> phys_addr \<Rightarrow> bool" where
  "in_page x t \<longleftrightarrow> unat (x - phys_to_virt t) < 4096"

lemma frame_page:
  assumes "f < 2 ^ 35"
  shows "page_ok (push_bit 12 (of_nat f))" and "unat (push_bit 12 (of_nat f :: u64)) = f * 4096"
proof -
  have "unat (of_nat f :: u64) = f" using assms by (intro unat_of_nat_small) simp
  moreover have "unat (push_bit 12 (of_nat f :: u64)) = take_bit 64 (push_bit 12 (unat (of_nat f :: u64)))"
    by (simp only: unsigned_push_bit_eq) simp
  ultimately show u: "unat (push_bit 12 (of_nat f :: u64)) = f * 4096"
    using assms by (simp add: push_bit_eq_mult take_bit_nat_eq_self)
  show "page_ok (push_bit 12 (of_nat f))"
    unfolding page_ok_def u using assms by simp
qed

lemma unat_frame_div: "f < 2 ^ 35 \<Longrightarrow> unat (push_bit 12 (of_nat f :: u64)) div 4096 = f"
  by (simp only: frame_page(2))

lemma pages_apart:
  assumes "page_ok t" and "page_ok u" and "t \<noteq> u"
  shows "unat t + 4096 \<le> unat u \<or> unat u + 4096 \<le> unat t"
proof -
  obtain a b where ab: "unat t = 4096 * a" "unat u = 4096 * b"
    using assms by (auto simp: page_ok_def elim!: dvdE)
  have "unat t \<noteq> unat u" using assms(3) unsigned_word_eqI by blast
  with ab have "a \<noteq> b" by auto
  then have "a + 1 \<le> b \<or> b + 1 \<le> a" by linarith
  with ab show ?thesis by auto
qed

lemma page_base: "phys_to_virt t = KERNEL_DIRECT_BASE + of_nat (unat t)"
  by (simp add: phys_to_virt_def)

lemma in_page_unique:
  assumes "page_ok t" and "page_ok u" and "in_page x t" and "in_page x u"
  shows "t = u"
proof (rule ccontr)
  assume "t \<noteq> u"
  define k where "k = unat (x - phys_to_virt t)"
  have k: "k < 4096" using assms(3) by (simp add: in_page_def k_def)
  have x: "x = KERNEL_DIRECT_BASE + of_nat (unat t + k)"
    by (simp add: k_def page_base algebra_simps)
  have "unat (x - phys_to_virt u) = (if unat u \<le> unat t + k then unat t + k - unat u else 2 ^ 64 - (unat u - (unat t + k)))"
    unfolding x page_base [of u] using k assms(1,2) by (intro unat_offset_diff) (simp_all add: page_ok_def)
  with assms pages_apart [OF assms(1,2) \<open>t \<noteq> u\<close>] k show False
    by (auto simp: in_page_def page_ok_def split: if_splits)
qed

end
