(* ===== verification/Pool_List.thy ===== *)
theory Pool_List
  imports Pool_Spec Pages
begin

text \<open>
  The list of pools and \<open>kmalloc\<close>: the pages of the pools are distinct allocated frames linked from
  \<open>pools\<close> to \<open>tail\<close>, each holding a chain of blocks.
\<close>

section \<open>The pool list\<close>

fun links :: "mem \<Rightarrow> u64 list \<Rightarrow> bool" where
  "links m [] \<longleftrightarrow> True"
| "links m [Q] \<longleftrightarrow> pool_next m Q = 0"
| "links m (Q # R # qs) \<longleftrightarrow> pool_next m Q = R \<and> links m (R # qs)"

definition pool_frame :: "kernel \<Rightarrow> u64 \<Rightarrow> bool" where
  "pool_frame s Q \<longleftrightarrow> (\<exists>t. page_ok t \<and> Q = phys_to_virt t \<and> (unat t div 4096, 0) \<in> alloc_blocks (kpmm s))"

definition pool_ok :: "kernel \<Rightarrow> u64 \<times> blocks \<Rightarrow> bool" where
  "pool_ok s q \<longleftrightarrow> pool_frame s (fst q) \<and> pool_blocks (kmem s) (pool_first (fst q)) (snd q) \<and> span (snd q) = 4072"

definition kpool :: "kernel \<Rightarrow> (u64 \<times> blocks) list \<Rightarrow> bool" where
  "kpool s ps \<longleftrightarrow> ps \<noteq> [] \<and> pools s = fst (hd ps) \<and> pool_tail s = fst (last ps) \<and>
     links (kmem s) (map fst ps) \<and> distinct (map fst ps) \<and> (\<forall>q \<in> set ps. pool_ok s q) \<and>
     pmm_inv (kpmm s) \<and> mm_frames_count (kpmm s) \<le> 2 ^ 35"

definition avail_frames :: "kernel \<Rightarrow> nat set" where
  "avail_frames s = cover (free_blocks (kpmm s))"

lemma links_cong:
  assumes "\<And>Q. Q \<in> set qs \<Longrightarrow> pool_next m' Q = pool_next m Q"
  shows "links m' qs = links m qs"
  using assms by (induction m qs rule: links.induct) auto

lemma links_append:
  "links m (qs @ R # rs) \<longleftrightarrow> links m (R # rs) \<and>
     (\<forall>i < length qs. pool_next m (qs ! i) = (qs @ [R]) ! Suc i)"
proof (induction qs)
  case (Cons Q qs)
  then show ?case
    by (cases qs) (auto simp: nth_Cons split: nat.splits)
qed simp

lemma pool_next_cong:
  assumes "\<And>x. unat (x - Q) < 24 \<Longrightarrow> m' x = m x"
  shows "pool_next m' Q = pool_next m Q"
  unfolding pool_next_def
proof (rule load_word_eqI)
  fix x assume x: "unat (x - (Q + 16)) < LENGTH(64) div 8"
  have "unat (x - Q) = unat ((x - (Q + 16)) + 16)" by simp
  also have "\<dots> = unat (x - (Q + 16)) + 16" using x by (subst unat_add_nowrap) auto
  finally show "m' x = m x" using x by (intro assms) simp
qed simp_all

lemma outside_blocks:
  assumes "unat (x - Q) < 24 \<or> 4096 \<le> unat (x - Q)"
  shows "4072 \<le> unat (x - pool_first Q)"
proof (cases "24 \<le> unat (x - Q)")
  case True
  have e: "x - pool_first Q = (x - Q) - 24" by (simp add: pool_first_def SIZEOF_POOL_def)
  have "unat ((x - Q) - 24) = unat (x - Q) - 24" using True by (subst unat_sub) (simp_all add: word_le_nat_alt)
  then show ?thesis unfolding e using True assms by simp
next
  case False
  have x: "x = Q + of_nat (unat (x - Q))" by simp
  have "unat (x - pool_first Q) = unat ((Q + of_nat (unat (x - Q))) - (Q + of_nat 24))"
    by (simp add: pool_first_def SIZEOF_POOL_def)
  also have "\<dots> = 2 ^ 64 - (24 - unat (x - Q))"
    using False by (subst unat_offset_diff) auto
  finally show ?thesis using False by simp
qed

text \<open>Pages of different pools share no byte.\<close>

lemma pool_pages_disjoint:
  assumes "pool_frame s Q" and "pool_frame s R" and "Q \<noteq> R" and "unat (x - R) < 4096"
  shows "4096 \<le> unat (x - Q)"
proof (rule ccontr)
  obtain t u where t: "page_ok t" "Q = phys_to_virt t" and u: "page_ok u" "R = phys_to_virt u"
    using assms(1,2) by (auto simp: pool_frame_def)
  assume "\<not> 4096 \<le> unat (x - Q)"
  then have "t = u" using in_page_unique [OF t(1) u(1), of x] assms(4) by (simp add: in_page_def t u)
  with assms(3) t u show False by simp
qed

lemma pool_blocks_cong:
  assumes "pool_blocks m (pool_first R) bs" and "span bs = 4072"
    and "\<And>x. 24 \<le> unat (x - R) \<Longrightarrow> unat (x - R) < 4096 \<Longrightarrow> m' x = m x"
  shows "pool_blocks m' (pool_first R) bs"
proof -
  have "m' (pool_first R + of_nat k) = m (pool_first R + of_nat k)" if "k < 4072" for k
  proof (rule assms(3))
    have e: "pool_first R + of_nat k - R = of_nat (k + 24)" by (simp add: pool_first_def SIZEOF_POOL_def)
    show "24 \<le> unat (pool_first R + of_nat k - R)" "unat (pool_first R + of_nat k - R) < 4096"
      unfolding e using that unat_of_nat_small [of "k + 24", where 'a = 64] by simp_all
  qed
  then show ?thesis
    using assms(1,2) chain_bytes [of m "pool_first R" 0 0 bs 0 m'] by (auto simp: pool_blocks_def)
qed

lemma unat_pool: "page_ok t \<Longrightarrow> unat (phys_to_virt t) = 2 ^ 64 - 2 ^ 47 + unat t"
  unfolding phys_to_virt_def by (subst add.commute, subst unat_add_nowrap) (auto simp: page_ok_def KERNEL_DIRECT_BASE_def)

text \<open>Addresses below the direct map lie in no page of it.\<close>

lemma page_high:
  assumes "page_ok t" and "unat x < 2 ^ 64 - 2 ^ 47"
  shows "4096 \<le> unat (x - phys_to_virt t)"
proof (rule ccontr)
  assume a: "\<not> 4096 \<le> unat (x - phys_to_virt t)"
  have "x = phys_to_virt t + (x - phys_to_virt t)" by simp
  moreover have "unat (phys_to_virt t) + unat (x - phys_to_virt t) < 2 ^ 64"
    using a unat_pool [OF assms(1)] assms(1) by (simp add: page_ok_def)
  ultimately have "unat x = unat (phys_to_virt t) + unat (x - phys_to_virt t)"
    using unat_add_nowrap [of "phys_to_virt t" "x - phys_to_virt t"] by simp
  then show False using assms(2) unat_pool [OF assms(1)] by simp
qed

lemma pool_page_high: "pool_frame s Q \<Longrightarrow> unat x < 2 ^ 64 - 2 ^ 47 \<Longrightarrow> 4096 \<le> unat (x - Q)"
  using page_high by (auto simp: pool_frame_def)

lemma pool_frame_nonzero: "pool_frame s Q \<Longrightarrow> Q \<noteq> 0"
  using unat_pool by (fastforce simp: pool_frame_def)

lemma kpool_update:
  assumes K: "kpool s (qs @ (Q, bs) # rs)"
    and out: "\<And>x. 4072 \<le> unat (x - pool_first Q) \<Longrightarrow> m' x = kmem s x"
    and blk: "pool_blocks m' (pool_first Q) bs'" "span bs' = 4072"
  shows "kpool (s\<lparr>kmem := m'\<rparr>) (qs @ (Q, bs') # rs)"
proof -
  let ?ps = "qs @ (Q, bs) # rs"
  have fr: "pool_frame s R" if "R \<in> set (map fst ?ps)" for R
    using K that by (auto simp: kpool_def pool_ok_def)
  have other: "m' x = kmem s x" if "R \<in> set (map fst ?ps)" "R \<noteq> Q" "unat (x - R) < 4096" for R x
    using pool_pages_disjoint [of s Q R x] fr that by (intro out outside_blocks) auto
  have nxt: "pool_next m' R = pool_next (kmem s) R" if "R \<in> set (map fst ?ps)" for R
  proof (rule pool_next_cong)
    fix x assume "unat (x - R) < 24"
    then show "m' x = kmem s x"
      using other [OF that, of x] out [OF outside_blocks, of x] by (cases "R = Q") auto
  qed
  have names: "map fst (qs @ (Q, bs') # rs) = map fst ?ps" by simp
  have "links m' (map fst ?ps)"
    using links_cong [of "map fst ?ps" m' "kmem s"] nxt K by (simp add: kpool_def)
  moreover have "pool_ok (s\<lparr>kmem := m'\<rparr>) q" if "q \<in> set qs \<union> set rs" for q
  proof -
    obtain R cs where q: "q = (R, cs)" by force
    have "R \<in> fst ` (set qs \<union> set rs)" using that q by force
    then have R: "R \<in> set (map fst ?ps)" "R \<noteq> Q" using K by (auto simp: kpool_def)
    have ok: "pool_ok s q" using K that by (auto simp: kpool_def)
    have "pool_blocks m' (pool_first R) cs"
      using ok pool_blocks_cong [of "kmem s" R cs m'] other [OF R] by (auto simp: pool_ok_def q)
    with ok show ?thesis by (simp add: pool_ok_def pool_frame_def q)
  qed
  moreover have "pool_ok (s\<lparr>kmem := m'\<rparr>) (Q, bs')"
    using K blk by (auto simp: kpool_def pool_ok_def pool_frame_def)
  ultimately show ?thesis
    using K unfolding kpool_def names by (auto simp: hd_append)
qed

section \<open>kmalloc from an existing pool\<close>

definition no_fit :: "nat \<Rightarrow> (u64 \<times> blocks) list \<Rightarrow> bool" where
  "no_fit L ps \<longleftrightarrow> (\<forall>q \<in> set ps. \<forall>b \<in> set (snd q). \<not> fits L b)"

lemma kmalloc_loop_skip:
  assumes "kpool s (ds @ (R, cs) # q # rs)" and "\<forall>b \<in> set cs. \<not> fits (round16 (unat len)) b"
    and "unat len \<le> 2 ^ 64 - 48" and "0 < fuel"
  shows "kmalloc_loop fuel R len s = kmalloc_loop (fuel - 1) (fst q) len s"
proof -
  have ok: "pool_ok s (R, cs)" "pool_ok s q" using assms(1) by (auto simp: kpool_def)
  then have nz: "R \<noteq> 0" "fst q \<noteq> 0" using pool_frame_nonzero by (auto simp: pool_ok_def)
  have nxt: "pool_next (kmem s) R = fst q"
    using assms(1) by (auto simp: kpool_def links_append)
  have "allocate (pool_first R) len (kmem s) = Inr (0, kmem s)"
    using ok(1) assms(2,3) by (intro allocate_none) (auto simp: pool_ok_def)
  then show ?thesis
    using nz nxt assms(4) by (subst kmalloc_loop.simps) simp
qed

lemma kmalloc_loop_hit:
  assumes K: "kpool s (ds @ ts @ (Q, xs @ (n, False) # ys) # rs)" and "no_fit L ts" and "length ts \<le> fuel"
    and len: "unat len \<le> 2 ^ 64 - 48" and L: "L = round16 (unat len)"
    and "\<forall>b \<in> set xs. \<not> fits L b" and "fits L (n, False)" and "n = L + 32 \<or> L + 56 \<le> n"
  shows "\<exists>m'. kmalloc_loop fuel (fst (hd (ts @ [(Q, [])]))) len s =
      Inr (Some (pool_first Q + of_nat (span xs + 24)), s\<lparr>kmem := m'\<rparr>) \<and>
    kpool (s\<lparr>kmem := m'\<rparr>) (ds @ ts @ (Q, take_block L xs n ys) # rs) \<and>
    (\<forall>j. in_data (xs @ (n, False) # ys) j \<longrightarrow> m' (pool_first Q + of_nat j) = kmem s (pool_first Q + of_nat j)) \<and>
    (\<forall>x. 4072 \<le> unat (x - pool_first Q) \<longrightarrow> m' x = kmem s x)"
  using assms(1-3)
proof (induction ts arbitrary: ds fuel)
  case Nil
  let ?bs = "xs @ (n, False) # ys" and ?B = "pool_first Q"
  have ok: "pool_ok s (Q, ?bs)" using Nil.prems by (auto simp: kpool_def)
  then have sp: "span ?bs = 4072" and P: "pool_blocks (kmem s) ?B ?bs" and nz: "Q \<noteq> 0"
    using pool_frame_nonzero by (auto simp: pool_ok_def)
  from allocate_first_fit [OF P len L assms(6-8)] obtain m' where m':
    "allocate ?B len (kmem s) = Inr (?B + of_nat (span xs + 24), m')" "pool_blocks m' ?B (take_block L xs n ys)"
    "\<forall>j. in_data ?bs j \<longrightarrow> m' (?B + of_nat j) = kmem s (?B + of_nat j)"
    "\<forall>j < 2 ^ 64. span ?bs \<le> j \<longrightarrow> m' (?B + of_nat j) = kmem s (?B + of_nat j)" by blast
  have out: "m' x = kmem s x" if "4072 \<le> unat (x - ?B)" for x
    using m'(4) [rule_format, of "unat (x - ?B)"] sp that unsigned_less [where 'a = nat and w = "x - ?B"] by simp
  have "span (take_block L xs n ys) = 4072"
    using sp assms(7) by (auto simp: take_block_def fits_def)
  with Nil.prems m'(2) out have "kpool (s\<lparr>kmem := m'\<rparr>) (ds @ (Q, take_block L xs n ys) # rs)"
    by (intro kpool_update [of s ds Q ?bs]) auto
  moreover have "?B + of_nat (span xs + 24) \<noteq> 0"
    using P sp assms(7) by (intro arena_nonzero) (auto simp: pool_blocks_def fits_def)
  ultimately show ?case
    using m' nz out by (subst kmalloc_loop.simps) auto
next
  case (Cons t ts)
  obtain R cs where t: "t = (R, cs)" by force
  have q: "\<exists>q rest. ts @ (Q, xs @ (n, False) # ys) # rs = q # rest \<and> fst q = fst (hd (ts @ [(Q, [])]))"
    by (cases ts) auto
  then obtain q rest where q: "ts @ (Q, xs @ (n, False) # ys) # rs = q # rest" "fst q = fst (hd (ts @ [(Q, [])]))" by blast
  have "kmalloc_loop fuel R len s = kmalloc_loop (fuel - 1) (fst q) len s"
    using Cons.prems len L q(1) by (intro kmalloc_loop_skip [of s ds R cs q rest]) (auto simp: t no_fit_def)
  moreover have "kpool s ((ds @ [t]) @ ts @ (Q, xs @ (n, False) # ys) # rs)" using Cons.prems(1) by simp
  from Cons.IH [OF this, of "fuel - 1"] Cons.prems have
    "\<exists>m'. kmalloc_loop (fuel - 1) (fst (hd (ts @ [(Q, [])]))) len s =
      Inr (Some (pool_first Q + of_nat (span xs + 24)), s\<lparr>kmem := m'\<rparr>) \<and>
    kpool (s\<lparr>kmem := m'\<rparr>) ((ds @ [t]) @ ts @ (Q, take_block L xs n ys) # rs) \<and>
    (\<forall>j. in_data (xs @ (n, False) # ys) j \<longrightarrow> m' (pool_first Q + of_nat j) = kmem s (pool_first Q + of_nat j)) \<and>
    (\<forall>x. 4072 \<le> unat (x - pool_first Q) \<longrightarrow> m' x = kmem s x)"
    by (auto simp: no_fit_def)
  ultimately show ?case using q(2) by (simp add: t)
qed

section \<open>Adding a pool\<close>

lemma init_single_pool_eq:
  "init_single_pool P len m =
     store64 (store64 (store64 (store64 (store64 (store64 m (P + of_nat 0) len) (P + of_nat 16) 0) (P + of_nat 8) 0)
       (P + of_nat 24) (len - SIZEOF_POOL)) (P + of_nat 32) 0) (P + of_nat 40) 0"
  by (simp add: init_single_pool_def pool_first_def SIZEOF_POOL_def set_header_def set_bnext_def set_bprev_def add.assoc)

lemma init_single_pool_loads:
  assumes "m' = init_single_pool P 4096 m"
  shows "pool_next m' P = 0" and "b_header m' (pool_first P) = hdr 4072 False"
    and "b_next m' (pool_first P) = 0" and "b_prev m' (pool_first P) = 0"
proof -
  have l: "load64 m' (P + of_nat 16) = 0" "load64 m' (P + of_nat 24) = 4072" "load64 m' (P + of_nat 32) = 0"
    "load64 m' (P + of_nat 40) = 0"
    unfolding assms init_single_pool_eq by (simp_all add: load_store_offset SIZEOF_POOL_def del: of_nat_numeral of_nat_0)
  then show "pool_next m' P = 0" "b_header m' (pool_first P) = hdr 4072 False"
    "b_next m' (pool_first P) = 0" "b_prev m' (pool_first P) = 0"
    by (simp_all add: pool_next_def pool_first_def SIZEOF_POOL_def b_header_def b_next_def b_prev_def hdr_def add.assoc)
qed

lemma init_single_pool_byte:
  assumes "4096 \<le> unat (x - P)"
  shows "init_single_pool P len m x = m x"
proof -
  define k where "k = unat (x - P)"
  have x: "x = P + of_nat k" and k: "4096 \<le> k" "k < 2 ^ 64"
    using assms unsigned_less [where 'a = nat and w = "x - P"] by (simp_all add: k_def)
  show ?thesis
    unfolding x init_single_pool_eq using k store_offset_byte [of k 0 m P len]
    by (simp add: store_offset_byte del: of_nat_numeral)
qed

lemma fresh_pool_blocks:
  assumes "page_ok t" and "m' = init_single_pool (phys_to_virt t) 4096 m"
  shows "pool_blocks m' (pool_first (phys_to_virt t)) [(4072, False)]" and "pool_next m' (phys_to_virt t) = 0"
proof -
  have u: "unat (pool_first (phys_to_virt t)) = 2 ^ 64 - 2 ^ 47 + unat t + 24"
    unfolding pool_first_def SIZEOF_POOL_def using unat_pool [OF assms(1)] assms(1)
    by (subst unat_add_nowrap) (simp_all add: page_ok_def)
  show "pool_next m' (phys_to_virt t) = 0" by (rule init_single_pool_loads(1) [OF assms(2)])
  show "pool_blocks m' (pool_first (phys_to_virt t)) [(4072, False)]"
    using init_single_pool_loads(2-4) [OF assms(2)] u assms(1) by (simp add: pool_blocks_def arena_def page_ok_def)
qed

lemma extend_bytes:
  assumes "m3 = init_single_pool P 4096 (store64 (zeroed_page m page) (T + 16) P)" and "P = phys_to_virt page"
    and "4096 \<le> unat (x - P)" and "unat (x - T) < 16 \<or> 24 \<le> unat (x - T)"
  shows "m3 x = m x"
proof -
  define k where "k = unat (x - T)"
  have x: "x = T + of_nat k" and k: "k < 2 ^ 64" "k < 16 \<or> 24 \<le> k"
    using assms(4) unsigned_less [where 'a = nat and w = "x - T"] by (auto simp: k_def)
  have "store64 (zeroed_page m page) (T + of_nat 16) P x = zeroed_page m page x"
    unfolding x using k by (intro store_offset_byte) auto
  moreover have "zeroed_page m page x = m x"
    using assms(2,3) by (simp add: zero_page_byte)
  ultimately show ?thesis
    using init_single_pool_byte [OF assms(3)] by (simp add: assms(1))
qed

lemma extend_list:
  assumes K: "kpool s ps" and t: "page_ok page" and P: "P = phys_to_virt page" and fresh: "P \<notin> set (map fst ps)"
    and pm: "pmm_inv pm" "mm_frames_count pm \<le> 2 ^ 35" "alloc_blocks pm = insert (unat page div 4096, 0) (alloc_blocks (kpmm s))"
    and m3: "m3 = init_single_pool P 4096 (store64 (zeroed_page (kmem s) page) (pool_tail s + 16) P)"
  shows "kpool (s\<lparr>kpmm := pm, kmem := m3, pool_tail := P\<rparr>) (ps @ [(P, [(4072, False)])])"
    and "pool_next m3 (pool_tail s) = P"
proof -
  let ?T = "pool_tail s" and ?s = "s\<lparr>kpmm := pm, kmem := m3, pool_tail := P\<rparr>"
  have T: "?T = fst (last ps)" "?T \<in> set (map fst ps)" and ne: "ps \<noteq> []"
    using K by (auto simp: kpool_def)
  have fr: "pool_frame ?s R" if "R \<in> set (map fst ps)" for R
    using K that pm(3) by (auto simp: kpool_def pool_ok_def pool_frame_def)
  have frP: "pool_frame ?s P" using t P pm(3) by (auto simp: pool_frame_def)
  have apart: "4096 \<le> unat (x - P)" if "R \<in> set (map fst ps)" "unat (x - R) < 4096" for R x
    by (rule pool_pages_disjoint [OF frP fr [OF that(1)] _ that(2)]) (use that(1) fresh in auto)
  have apartT: "4096 \<le> unat (x - ?T)" if "R \<in> set (map fst ps)" "R \<noteq> ?T" "unat (x - R) < 4096" for R x
    by (rule pool_pages_disjoint [OF fr [OF T(2)] fr [OF that(1)] _ that(3)]) (use that(2) in auto)
  note byte = extend_bytes [OF m3 P]
  have nxt: "pool_next m3 R = pool_next (kmem s) R" if "R \<in> set (map fst ps)" "R \<noteq> ?T" for R
  proof (rule pool_next_cong)
    fix x assume "unat (x - R) < 24"
    then have "unat (x - R) < 4096" by simp
    from apart [OF that(1) this] apartT [OF that this] show "m3 x = kmem s x" by (intro byte) auto
  qed
  show nT: "pool_next m3 ?T = P"
  proof -
    have "load64 m3 (?T + of_nat 16) = load64 (store64 (zeroed_page (kmem s) page) (?T + 16) P) (?T + of_nat 16)"
    proof (rule load_offset_cong)
      fix j :: nat assume "j < 8"
      then have "unat (?T + of_nat (16 + j) - ?T) < 4096"
        using unat_of_nat_small [of "16 + j", where 'a = 64] by simp
      from init_single_pool_byte [OF apart [OF T(2) this]]
      show "m3 (?T + of_nat (16 + j)) = store64 (zeroed_page (kmem s) page) (?T + 16) P (?T + of_nat (16 + j))"
        by (simp add: m3)
    qed
    then show ?thesis by (simp add: pool_next_def m64.load_store_same)
  qed
  have blk: "pool_blocks m3 (pool_first R) bs" if q: "(R, bs) \<in> set ps" for R bs
  proof (rule pool_blocks_cong)
    show "pool_blocks (kmem s) (pool_first R) bs" "span bs = 4072"
      using K q by (auto simp: kpool_def pool_ok_def)
    have R: "R \<in> set (map fst ps)" using q by force
    fix x assume x: "24 \<le> unat (x - R)" "unat (x - R) < 4096"
    show "m3 x = kmem s x"
      using byte [OF apart [OF R x(2)]] x apartT [OF R _ x(2)] by (cases "R = ?T") auto
  qed
  have "links m3 (map fst ps @ [P])"
  proof -
    define qs where "qs = map fst (butlast ps)"
    have e: "map fst ps = qs @ [?T]"
      using ne T(1) unfolding qs_def by (metis append_butlast_last_id list.simps(8) list.simps(9) map_append)
    have "distinct (map fst ps)" "links (kmem s) (map fst ps)" using K by (simp_all add: kpool_def)
    then have d: "distinct (qs @ [?T])" and "links (kmem s) (qs @ [?T])" by (simp_all only: e)
    then have "\<forall>i < length qs. pool_next (kmem s) (qs ! i) = (qs @ [?T]) ! Suc i"
      using links_append [of "kmem s" qs ?T "[]"] by simp
    moreover have "pool_next m3 (qs ! i) = pool_next (kmem s) (qs ! i)" if "i < length qs" for i
    proof (rule nxt)
      show "qs ! i \<in> set (map fst ps)" "qs ! i \<noteq> ?T" using nth_mem [OF that] e d by auto
    qed
    ultimately show ?thesis
      using links_append [of m3 qs ?T "[P]"] nT fresh_pool_blocks(2) [OF t] m3 P e by simp
  qed
  then show "kpool ?s (ps @ [(P, [(4072, False)])])"
    using K ne fresh frP fr blk pm fresh_pool_blocks(1) [OF t] m3 P
    by (auto simp: kpool_def pool_ok_def hd_append)
qed

lemma kpool_page_fresh:
  assumes "kpool s ps" and "f \<in> avail_frames s" and "f < 2 ^ 35"
  shows "phys_to_virt (push_bit 12 (of_nat f)) \<notin> set (map fst ps)"
proof
  assume "phys_to_virt (push_bit 12 (of_nat f)) \<in> set (map fst ps)"
  then have "pool_frame s (phys_to_virt (push_bit 12 (of_nat f)))"
    using assms(1) by (auto simp: kpool_def pool_ok_def)
  then have "(f, 0) \<in> alloc_blocks (kpmm s)"
    using unat_frame_div [OF assms(3)] by (auto simp: pool_frame_def phys_to_virt_def)
  moreover have "pmm_inv (kpmm s)" using assms(1) by (simp add: kpool_def)
  ultimately show False
    using buddy.used_not_avail [of "kpmm s" "(f, 0)"] assms(2) by (auto simp: avail_frames_def blk_def)
qed

lemma extend_pool_ok:
  assumes K: "kpool s ps" and "avail_frames s \<noteq> {}"
  obtains f m3 pm where "f \<in> avail_frames s"
    and "extend_pool s = Inr (True, s\<lparr>kpmm := pm, kmem := m3, pool_tail := phys_to_virt (push_bit 12 (of_nat f))\<rparr>)"
    and "kpool (s\<lparr>kpmm := pm, kmem := m3, pool_tail := phys_to_virt (push_bit 12 (of_nat f))\<rparr>)
      (ps @ [(phys_to_virt (push_bit 12 (of_nat f)), [(4072, False)])])"
    and "cover (free_blocks pm) = avail_frames s - {f}"
    and "alloc_blocks pm = insert (f, 0) (alloc_blocks (kpmm s))"
    and "pool_next m3 (pool_tail s) = phys_to_virt (push_bit 12 (of_nat f))"
    and "\<And>x. 4096 \<le> unat (x - phys_to_virt (push_bit 12 (of_nat f))) \<Longrightarrow> unat (x - pool_tail s) < 16 \<or> 24 \<le> unat (x - pool_tail s) \<Longrightarrow>
      m3 x = kmem s x"
proof -
  have inv: "pmm_inv (kpmm s)" "mm_frames_count (kpmm s) \<le> 2 ^ 35" using K by (auto simp: kpool_def)
  have "cover (free_blocks (kpmm s)) \<noteq> {}" using assms(2) by (simp add: avail_frames_def)
  then obtain f pm where al: "alloc_frames (int 0) (kpmm s) = Inr (push_bit 12 (of_nat f), pm)" "pmm_inv pm"
      "f < mm_frames_count (kpmm s)" "f \<in> cover (free_blocks (kpmm s))"
      "cover (free_blocks pm) = cover (free_blocks (kpmm s)) - {f}"
      "alloc_blocks pm = insert (f, 0) (alloc_blocks (kpmm s))" "mm_frames_count pm = mm_frames_count (kpmm s)"
    by (rule buddy.alloc_page [OF inv(1)])
  define page :: u64 where "page = push_bit 12 (of_nat f)"
  define m3 where "m3 = init_single_pool (phys_to_virt page) 4096 (store64 (zeroed_page (kmem s) page) (pool_tail s + 16) (phys_to_virt page))"
  have f: "f < 2 ^ 35" using al(3) inv(2) by simp
  have pg: "page_ok page" "unat page div 4096 = f"
    using frame_page(1) [OF f] unat_frame_div [OF f] by (simp_all add: page_def)
  have fresh: "phys_to_virt page \<notin> set (map fst ps)"
    unfolding page_def using al(4) by (intro kpool_page_fresh [OF K _ f]) (simp add: avail_frames_def)
  have bnd: "mm_frames_count pm \<le> 2 ^ 35" using al(7) inv(2) by simp
  have ab: "alloc_blocks pm = insert (unat page div 4096, 0) (alloc_blocks (kpmm s))" using al(6) pg(2) by simp
  note E = extend_list [OF K pg(1) refl fresh al(2) bnd ab m3_def]
  have ni: "page \<noteq> INVALID_ADDRESS" using frame_addr(2) [of f] f by (simp add: page_def INVALID_ADDRESS_def)
  note zp = zero_page_ok [OF pg(1)]
  have "pool_next (store64 (zeroed_page (kmem s) page) (pool_tail s + 16) (phys_to_virt page)) (pool_tail s) = phys_to_virt page"
    by (simp add: pool_next_def m64.load_store_same)
  then have "extend_pool s = Inr (True, s\<lparr>kpmm := pm, kmem := m3, pool_tail := phys_to_virt page\<rparr>)"
    using al(1) ni E(2) zp by (simp add: extend_pool_def page_def [symmetric] PAGE_SIZE_def m3_def [symmetric] Let_def)
  then show thesis
    using that [of f m3 pm] al E extend_bytes [OF m3_def refl] unfolding page_def [symmetric] avail_frames_def by blast
qed

lemma extend_pool_none:
  assumes "pmm_inv (kpmm s)" and "avail_frames s = {}"
  shows "extend_pool s = Inr (False, s)"
  using buddy.alloc_exhausted [OF assms(1)] assms(2) by (simp add: extend_pool_def avail_frames_def)

section \<open>kmalloc when no pool has room\<close>

text \<open>The last pool of the list, with no block that fits.\<close>

lemma kmalloc_loop_last:
  assumes "kpool s (ds @ [(R, cs)])" and "\<forall>b \<in> set cs. \<not> fits (round16 (unat len)) b"
    and "unat len \<le> 2 ^ 64 - 48" and "0 < fuel"
  shows "kmalloc_loop fuel R len s = rbind (extend_pool s) (\<lambda>(ok, s2).
    if \<not> ok then Inr (None, s2) else kmalloc_loop (fuel - 1) (pool_next (kmem s2) R) len s2)"
proof -
  have ok: "pool_ok s (R, cs)" using assms(1) by (auto simp: kpool_def)
  then have nz: "R \<noteq> 0" using pool_frame_nonzero by (auto simp: pool_ok_def)
  have nxt: "pool_next (kmem s) R = 0"
    using assms(1) by (auto simp: kpool_def links_append)
  have "allocate (pool_first R) len (kmem s) = Inr (0, kmem s)"
    using ok assms(2,3) by (intro allocate_none) (auto simp: pool_ok_def)
  then show ?thesis
    using nz nxt assms(4) by (subst kmalloc_loop.simps) simp
qed

lemma kmalloc_loop_to_last:
  assumes "kpool s (ds @ ts @ [(R, cs)])" and "no_fit (round16 (unat len)) ts"
    and "unat len \<le> 2 ^ 64 - 48" and "length ts < fuel"
  shows "kmalloc_loop fuel (fst (hd (ts @ [(R, cs)]))) len s = kmalloc_loop (fuel - length ts) R len s"
  using assms
proof (induction ts arbitrary: ds fuel)
  case (Cons t ts)
  obtain q rest where q: "ts @ [(R, cs)] = q # rest" by (cases "ts @ [(R, cs)]") auto
  have "kmalloc_loop fuel (fst t) len s = kmalloc_loop (fuel - 1) (fst q) len s"
    using Cons.prems q by (intro kmalloc_loop_skip [of s ds "fst t" "snd t" q rest]) (auto simp: no_fit_def)
  moreover have "kpool s ((ds @ [t]) @ ts @ [(R, cs)])" using Cons.prems(1) by simp
  from Cons.IH [OF this, of "fuel - 1"] Cons.prems q
  have "kmalloc_loop (fuel - 1) (fst q) len s = kmalloc_loop (fuel - 1 - length ts) R len s"
    by (auto simp: no_fit_def)
  ultimately show ?case by simp
qed simp

lemma kpool_length:
  assumes "kpool s ps"
  shows "length ps \<le> 2 ^ 35"
proof -
  let ?g = "\<lambda>f. phys_to_virt (push_bit 12 (of_nat f))"
  have "set (map fst ps) \<subseteq> ?g ` {..<2 ^ 35}"
  proof
    fix Q assume "Q \<in> set (map fst ps)"
    then obtain t where t: "page_ok t" "Q = phys_to_virt t" "(unat t div 4096, 0) \<in> alloc_blocks (kpmm s)"
      using assms by (auto simp: kpool_def pool_ok_def pool_frame_def)
    have f: "unat t div 4096 < 2 ^ 35" using t(1) by (auto simp: page_ok_def)
    have "t = push_bit 12 (of_nat (unat t div 4096))"
      unfolding word_unat_eq_iff using frame_page(2) [OF f] t(1) by (simp add: page_ok_def)
    with t(2) have "Q = ?g (unat t div 4096)" by simp
    with f show "Q \<in> ?g ` {..<2 ^ 35}" by (intro image_eqI) auto
  qed
  then have "card (set (map fst ps)) \<le> card {..<2 ^ 35 :: nat}"
    by (meson card_image_le card_mono finite_imageI finite_lessThan le_trans)
  moreover have "card (set (map fst ps)) = length ps"
    using assms distinct_card [of "map fst ps"] by (simp add: kpool_def)
  ultimately show ?thesis by simp
qed

lemma kpool_cpu [simp]: "kpool (s\<lparr>kcpu := c\<rparr>) ps = kpool s ps"
  by (simp add: kpool_def pool_ok_def pool_frame_def)

lemma kpool_cpu_mem [simp]: "kpool (s\<lparr>kcpu := c, kmem := m\<rparr>) ps = kpool (s\<lparr>kmem := m\<rparr>) ps"
  by (simp add: kpool_def pool_ok_def pool_frame_def)

lemma avail_cpu [simp]: "avail_frames (s\<lparr>kcpu := c\<rparr>) = avail_frames s"
  by (simp add: avail_frames_def)

lemma finite_avail: "kpool s ps \<Longrightarrow> finite (avail_frames s)"
  using buddy.avail_bound finite_subset by (fastforce simp: kpool_def avail_frames_def)

lemma card_avail: "kpool s ps \<Longrightarrow> card (avail_frames s) \<le> 2 ^ 35"
proof -
  assume K: "kpool s ps"
  then have "avail_frames s \<subseteq> {..<mm_frames_count (kpmm s)}" "mm_frames_count (kpmm s) \<le> 2 ^ 35"
    using buddy.avail_bound by (auto simp: kpool_def avail_frames_def)
  then show ?thesis using card_mono [of "{..<mm_frames_count (kpmm s)}" "avail_frames s"] by simp
qed

text \<open>A request no page can hold makes the loop add pools until no frame is left.\<close>

lemma kmalloc_loop_exhausts:
  assumes "kpool s (ds @ [(R, cs)])" and "\<forall>b \<in> set cs. \<not> fits (round16 (unat len)) b"
    and "unat len \<le> 2 ^ 64 - 48" and "4040 < round16 (unat len)" and "card (avail_frames s) < fuel"
  shows "\<exists>s' ps'. kmalloc_loop fuel R len s = Inr (None, s') \<and> kpool s' ps' \<and> avail_frames s' = {} \<and> kcpu s' = kcpu s"
  using assms
proof (induction "card (avail_frames s)" arbitrary: s ds R cs fuel)
  case 0
  then have "avail_frames s = {}" using finite_avail [OF "0.prems"(1)] by simp
  moreover have "pmm_inv (kpmm s)" using "0.prems"(1) by (simp add: kpool_def)
  ultimately show ?case
    using kmalloc_loop_last [OF "0.prems"(1-3)] "0.prems"(1,5) extend_pool_none [of s] by auto
next
  case (Suc n)
  have "avail_frames s \<noteq> {}" using Suc.hyps(2) by auto
  then obtain f m3 pm where e: "f \<in> avail_frames s"
    "extend_pool s = Inr (True, s\<lparr>kpmm := pm, kmem := m3, pool_tail := phys_to_virt (push_bit 12 (of_nat f))\<rparr>)"
    "kpool (s\<lparr>kpmm := pm, kmem := m3, pool_tail := phys_to_virt (push_bit 12 (of_nat f))\<rparr>)
      ((ds @ [(R, cs)]) @ [(phys_to_virt (push_bit 12 (of_nat f)), [(4072, False)])])"
    "cover (free_blocks pm) = avail_frames s - {f}" "alloc_blocks pm = insert (f, 0) (alloc_blocks (kpmm s))"
    "pool_next m3 (pool_tail s) = phys_to_virt (push_bit 12 (of_nat f))"
    by (rule extend_pool_ok [OF Suc.prems(1)])
  let ?s = "s\<lparr>kpmm := pm, kmem := m3, pool_tail := phys_to_virt (push_bit 12 (of_nat f))\<rparr>"
  have R: "pool_tail s = R" using Suc.prems(1) by (simp add: kpool_def)
  have a: "avail_frames ?s = avail_frames s - {f}" using e(4) by (simp add: avail_frames_def)
  then have c: "card (avail_frames ?s) = n" using Suc.hyps(2) e(1) by simp
  have "kmalloc_loop fuel R len s = kmalloc_loop (fuel - 1) (phys_to_virt (push_bit 12 (of_nat f))) len ?s"
    using kmalloc_loop_last [OF Suc.prems(1-3)] Suc.prems(5) e(2,6) R by simp
  moreover have "\<forall>b \<in> set [(4072, False)]. \<not> fits (round16 (unat len)) b"
    using Suc.prems(4) by (simp add: fits_def)
  from Suc.hyps(1) [OF c [symmetric] e(3) this Suc.prems(3,4), of "fuel - 1"] c Suc.prems(5) Suc.hyps(2)
  have "\<exists>s' ps'. kmalloc_loop (fuel - 1) (phys_to_virt (push_bit 12 (of_nat f))) len ?s = Inr (None, s') \<and>
      kpool s' ps' \<and> avail_frames s' = {} \<and> kcpu s' = kcpu ?s" by simp
  ultimately show ?case by simp
qed

end
