(* ===== verification/Pool_Free.thy ===== *)
theory Pool_Free
  imports Pool_List
begin

text \<open>
  Releasing a block: \<open>merge\<close> joins two adjacent free blocks, and \<open>kfree\<close>, given the address 32 bytes
  after a block's header, frees the block and joins it with its free neighbours.
\<close>

section \<open>merge\<close>

lemma hdr_add: "hdr n False + hdr k False = hdr (n + k) False"
  by (simp add: hdr_def)

lemma merge_chain:
  assumes c: "chain m B a p ((n, False) # (k, False) # ys) 0" and b: "a + n + k + span ys \<le> 4072" and "arena B"
  shows "chain (merge (B + of_nat a) m) B a p ((n + k, False) # ys) 0"
    and "\<And>j. j < 2 ^ 64 \<Longrightarrow> j < a \<or> a + n + k + span ys \<le> j \<Longrightarrow> merge (B + of_nat a) m (B + of_nat j) = m (B + of_nat j)"
    and "\<And>j. j < 2 ^ 64 \<Longrightarrow> a + n + k + 24 \<le> j \<Longrightarrow> merge (B + of_nat a) m (B + of_nat j) = m (B + of_nat j)"
proof -
  define nxt where "nxt = (if ys = [] then 0 else B + of_nat (a + n + k))"
  have h: "load64 m (B + of_nat a) = hdr n False" "load64 m (B + of_nat (a + 8)) = B + of_nat (a + n)"
    "load64 m (B + of_nat (a + 16)) = p" "load64 m (B + of_nat (a + n)) = hdr k False"
    "load64 m (B + of_nat (a + n + 8)) = nxt" "24 \<le> n" "24 \<le> k"
    and ys: "chain m B (a + n + k) (B + of_nat (a + n)) ys 0"
    using c by (simp_all add: field_offsets nxt_def del: of_nat_add)
  have nz: "nxt \<noteq> 0 \<longleftrightarrow> ys \<noteq> []"
    using arena_nonzero [OF assms(3), of "a + n + k"] b length_chain [OF ys] by (cases ys) (auto simp: nxt_def)
  define m2 where "m2 = store64 (store64 m (B + of_nat a) (hdr (n + k) False)) (B + of_nat (a + 8)) nxt"
  define m' where "m' = (if ys \<noteq> [] then store64 m2 (B + of_nat (a + n + k + 16)) (B + of_nat a) else m2)"
  have l2: "load64 m2 (B + of_nat a) = hdr (n + k) False" "load64 m2 (B + of_nat (a + 8)) = nxt"
    "load64 m2 (B + of_nat (a + 16)) = p" "load64 m2 (B + of_nat (a + n + 8)) = nxt"
    using b h unfolding m2_def by (simp_all add: load_store_offset del: of_nat_add)
  have l1: "load64 (store64 m (B + of_nat a) (hdr (n + k) False)) (B + of_nat (a + n + 8)) = nxt"
    using b h by (simp add: load_store_offset del: of_nat_add)
  have nx: "set_bprev nxt v mm = store64 mm (B + of_nat (a + n + k + 16)) v" if "ys \<noteq> []" for v mm
    using that by (simp add: nxt_def field_offsets del: of_nat_add)
  have run: "merge (B + of_nat a) m = m'"
    unfolding merge_def field_offsets(1,2) h(1,2) Let_def h(4) hdr_add field_offsets(4,5) l1
    unfolding m2_def [symmetric] l2(4) nz m'_def using nx by simp
  have byte2: "m2 (B + of_nat j) = m (B + of_nat j)" if "j < 2 ^ 64" "j < a \<or> a + n + k \<le> j" for j
    using that(2) that(1) b h(6,7) unfolding m2_def by (elim disjE) (simp_all add: store_offset_byte del: of_nat_add)
  have ys2: "chain m2 B (a + n + k) (B + of_nat (a + n)) ys 0"
    by (rule chain_bytes [OF ys], rule byte2) (use b in auto)
  have "chain m' B (a + n + k) (B + of_nat a) ys 0"
  proof (cases ys)
    case (Cons y zs)
    then show ?thesis
      using set_prev_chain [of m2 B "a + n + k" "B + of_nat (a + n)" "fst y" "snd y" zs 0 "B + of_nat a"] ys2 b
      by (simp add: m'_def add.assoc del: chain.simps)
  qed simp
  moreover have "load64 m' (B + of_nat o1) = load64 m2 (B + of_nat o1)" if "o1 + 8 \<le> a + n" for o1
    using that b by (simp add: m'_def load_store_offset del: of_nat_add)
  then have "load64 m' (B + of_nat a) = hdr (n + k) False" "load64 m' (B + of_nat (a + 8)) = nxt"
    "load64 m' (B + of_nat (a + 16)) = p"
    using l2 h(6) by (simp_all del: of_nat_add)
  ultimately show "chain (merge (B + of_nat a) m) B a p ((n + k, False) # ys) 0"
    using h(6) unfolding run by (simp add: field_offsets nxt_def add.assoc del: of_nat_add)
  have ysz: "ys \<noteq> [] \<Longrightarrow> 24 \<le> span ys" using length_chain [OF ys] by (cases ys) auto
  show "merge (B + of_nat a) m (B + of_nat j) = m (B + of_nat j)"
    if "j < 2 ^ 64" "j < a \<or> a + n + k + span ys \<le> j" for j
    unfolding run using byte2 [of j] that b ysz by (auto simp: m'_def store_offset_byte simp del: of_nat_add)
  show "merge (B + of_nat a) m (B + of_nat j) = m (B + of_nat j)" if "j < 2 ^ 64" "a + n + k + 24 \<le> j" for j
    unfolding run using byte2 [of j] that b by (auto simp: m'_def store_offset_byte simp del: of_nat_add)
qed

lemma chain_sizes: "chain m B off prev bs fin \<Longrightarrow> \<forall>b \<in> set bs. 24 \<le> fst b"
  by (induction m B off prev bs fin rule: chain.induct) auto

lemma in_data_ge: "\<forall>b \<in> set bs. 24 \<le> fst b \<Longrightarrow> in_data bs j \<Longrightarrow> 24 \<le> j"
  by (induction bs j rule: in_data.induct) (auto split: if_splits)

section \<open>kfree\<close>

fun join_next :: "nat \<Rightarrow> blocks \<Rightarrow> nat \<times> blocks" where
  "join_next n ((k, False) # ys) = (n + k, ys)"
| "join_next n ys = (n, ys)"

definition join_prev :: "blocks \<Rightarrow> nat \<Rightarrow> blocks \<Rightarrow> blocks" where
  "join_prev xs n ys =
     (if xs \<noteq> [] \<and> \<not> snd (last xs) then butlast xs @ (fst (last xs) + n, False) # ys else xs @ (n, False) # ys)"

definition release_block :: "blocks \<Rightarrow> nat \<Rightarrow> blocks \<Rightarrow> blocks" where
  "release_block xs n ys = (let (n', ys') = join_next n ys in join_prev xs n' ys')"

text \<open>Joining free blocks touches no data.\<close>

lemma join_next_facts:
  assumes "join_next n ys = (n', ys')"
  shows "n' + span ys' = n + span ys" and "n \<le> n'" and "n' \<le> i \<Longrightarrow> in_data ys' (i - n') = in_data ys (i - n)"
    and "n \<le> i \<Longrightarrow> i < n' \<Longrightarrow> \<not> in_data ys (i - n)"
  using assms by (cases "(n, ys)" rule: join_next.cases; auto)+

lemma join_prev_span: "span (join_prev xs n ys) = span xs + n + span ys"
  by (cases xs rule: rev_cases) (auto simp: join_prev_def)

lemma in_data_free_pair: "in_data ((a, False) # (n, False) # ys) i = in_data ((a + n, False) # ys) i"
  by auto

lemma in_data_join_prev: "in_data (join_prev xs n ys) j = in_data (xs @ (n, False) # ys) j"
proof (cases xs rule: rev_cases)
  case (snoc zs x)
  obtain a u where x: "x = (a, u)" by force
  show ?thesis
  proof (cases u)
    case False
    then show ?thesis by (simp add: snoc x join_prev_def in_data_append [of zs] in_data_free_pair del: in_data.simps)
  qed (simp add: snoc x join_prev_def)
qed (simp add: join_prev_def)

lemma in_data_release:
  "in_data (release_block xs n ys) j \<longleftrightarrow> in_data (xs @ (n, True) # ys) j \<and> \<not> (span xs \<le> j \<and> j < span xs + n)"
proof -
  obtain n' ys' where J: "join_next n ys = (n', ys')" by force
  note F = join_next_facts(2) [OF J] join_next_facts(3,4) [OF J, of "j - span xs"]
  show ?thesis
    using F by (simp add: release_block_def J in_data_join_prev in_data_append) linarith
qed

definition free_mem :: "u64 \<Rightarrow> mem \<Rightarrow> mem" where
  "free_mem block m =
     (let m1 = set_header block (b_header m block AND NOT BLOCK_USED) m;
          m2 = (if b_next m1 block \<noteq> 0 \<and> \<not> IS_BLOCK_USED (b_header m1 (b_next m1 block)) then merge block m1 else m1)
      in if b_prev m2 block \<noteq> 0 \<and> \<not> IS_BLOCK_USED (b_header m2 (b_prev m2 block)) then merge (b_prev m2 block) m2 else m2)"

lemma kfree_free_mem:
  "kfree addr s = (if addr = 0 then Inr s
     else if \<not> IS_BLOCK_USED (b_header (kmem s) (addr - SIZEOF_BLOCK)) then Inl (Panic ''Double free detected'')
     else Inr (s\<lparr>kmem := free_mem (addr - SIZEOF_BLOCK) (kmem s)\<rparr>))"
  by (simp add: kfree_def free_mem_def Let_def)

text \<open>Joining with the next block, seen from the block at \<open>a\<close>.\<close>

lemma join_next_chain:
  assumes c: "chain m B a p ((n, False) # ys) 0" and b: "a + n + span ys \<le> 4072" and B: "arena B"
    and m2: "m2 = (if b_next m (B + of_nat a) \<noteq> 0 \<and> \<not> IS_BLOCK_USED (b_header m (b_next m (B + of_nat a)))
       then merge (B + of_nat a) m else m)"
    and J: "join_next n ys = (n', ys')"
  shows "chain m2 B a p ((n', False) # ys') 0"
    and "j < 2 ^ 64 \<Longrightarrow> j < a \<or> a + n + span ys \<le> j \<or> a + n \<le> j \<and> in_data ys (j - (a + n)) \<Longrightarrow> m2 (B + of_nat j) = m (B + of_nat j)"
proof -
  have "chain m2 B a p ((n', False) # ys') 0 \<and> (j < 2 ^ 64 \<longrightarrow>
    j < a \<or> a + n + span ys \<le> j \<or> a + n \<le> j \<and> in_data ys (j - (a + n)) \<longrightarrow> m2 (B + of_nat j) = m (B + of_nat j))" for j
  proof (cases "\<exists>k zs. ys = (k, False) # zs")
    case True
    then obtain k zs where ys: "ys = (k, False) # zs" by blast
    have h: "b_next m (B + of_nat a) = B + of_nat (a + n)" "b_header m (B + of_nat (a + n)) = hdr k False" "24 \<le> k"
      and cz: "chain m B (a + n + k) (B + of_nat (a + n)) zs 0"
      using c by (simp_all add: ys)
    have "\<not> IS_BLOCK_USED (hdr k False)" using hdr_used [of k False] b by (simp add: ys)
    moreover have "B + of_nat (a + n) \<noteq> 0" using B b h(3) by (intro arena_nonzero) (simp_all add: ys)
    ultimately have e: "m2 = merge (B + of_nat a) m" using h by (simp add: m2)
    have b': "a + n + k + span zs \<le> 4072" using b by (simp add: ys add.assoc)
    note M = merge_chain [OF c [unfolded ys] b' B]
    have "a + n + k + 24 \<le> j" if "a + n \<le> j" "in_data ys (j - (a + n))"
      using that in_data_ge [OF chain_sizes [OF cz], of "j - (a + n) - k"] by (auto simp: ys split: if_splits)
    with M J show ?thesis by (auto simp: ys e)
  next
    case False
    then have "join_next n ys = (n, ys)" by (cases "(n, ys)" rule: join_next.cases) auto
    moreover have "m2 = m"
    proof (cases ys)
      case Nil
      then show ?thesis using c by (simp add: m2)
    next
      case (Cons y zs)
      with False obtain k where y: "y = (k, True)" by (metis surj_pair)
      have "IS_BLOCK_USED (hdr k True)" using hdr_used [of k True] b by (simp add: y Cons)
      then show ?thesis using c by (simp add: m2 y Cons)
    qed
    ultimately show ?thesis using c J by simp
  qed
  then show "chain m2 B a p ((n', False) # ys') 0"
    and "j < 2 ^ 64 \<Longrightarrow> j < a \<or> a + n + span ys \<le> j \<or> a + n \<le> j \<and> in_data ys (j - (a + n)) \<Longrightarrow> m2 (B + of_nat j) = m (B + of_nat j)"
    by blast+
qed

text \<open>Joining with the previous block.\<close>

lemma join_prev_blocks:
  assumes P: "pool_blocks m B (xs @ (n, False) # ys)"
    and m': "m' = (if b_prev m (B + of_nat (span xs)) \<noteq> 0 \<and> \<not> IS_BLOCK_USED (b_header m (b_prev m (B + of_nat (span xs))))
      then merge (b_prev m (B + of_nat (span xs))) m else m)"
  shows "pool_blocks m' B (join_prev xs n ys)"
    and "j < 2 ^ 64 \<Longrightarrow> span xs + n + span ys \<le> j \<or> in_data (xs @ (n, False) # ys) j \<Longrightarrow> m' (B + of_nat j) = m (B + of_nat j)"
proof -
  have C: "chain m B 0 0 (xs @ (n, False) # ys) 0" and b: "span xs + n + span ys \<le> 4072" and B: "arena B"
    using P by (simp_all add: pool_blocks_def)
  have "pool_blocks m' B (join_prev xs n ys) \<and> (j < 2 ^ 64 \<longrightarrow> span xs + n + span ys \<le> j \<or> in_data (xs @ (n, False) # ys) j \<longrightarrow>
      m' (B + of_nat j) = m (B + of_nat j))" for j
  proof (cases xs rule: rev_cases)
    case Nil
    then have "b_prev m B = 0" using C by simp
    then show ?thesis using Nil P by (simp add: m' join_prev_def)
  next
    case (snoc zs x)
    obtain k u where x: "x = (k, u)" by force
    define q where "q = (if zs = [] then 0 else B + of_nat (last_off 0 zs))"
    have cz: "chain m B 0 0 zs (B + of_nat (span zs))" and ck: "chain m B (span zs) q ((k, u) # (n, False) # ys) 0"
      using C unfolding snoc x q_def append_assoc chain_append by (auto simp: last_off_def)
    then have k: "24 \<le> k" "b_header m (B + of_nat (span zs)) = hdr k u" "b_prev m (B + of_nat (span xs)) = B + of_nat (span zs)"
        "24 \<le> n" "chain m B (span zs + k + n) (B + of_nat (span zs + k)) ys 0"
      by (simp_all add: snoc x)
    have "B + of_nat (span zs) \<noteq> 0" using B b k(1) by (intro arena_nonzero) (simp_all add: snoc x)
    moreover have "IS_BLOCK_USED (hdr k u) = u" using hdr_used [of k u] b by (simp add: snoc x)
    ultimately have m'': "m' = (if u then m else merge (B + of_nat (span zs)) m)" using k by (simp add: m')
    show ?thesis
    proof (cases u)
      case True
      then show ?thesis using P m'' by (simp add: join_prev_def snoc x)
    next
      case False
      have b': "span zs + k + n + span ys \<le> 4072" using b by (simp add: snoc x)
      have "chain m B (span zs) q ((k, False) # (n, False) # ys) 0" using ck False by simp
      note M = merge_chain [OF this b' B]
      have "chain (merge (B + of_nat (span zs)) m) B 0 0 zs (B + of_nat (span zs))"
        by (rule chain_bytes [OF cz], rule M(2)) (use b' in auto)
      with M(1) have "chain (merge (B + of_nat (span zs)) m) B 0 0 (zs @ (k + n, False) # ys) 0"
        unfolding chain_append q_def by simp
      moreover have "j < span zs \<or> span zs + k + n + 24 \<le> j" if "in_data (xs @ (n, False) # ys) j"
        using that in_data_ge [OF chain_sizes [OF k(5)], of "j - span zs - k - n"] False
        by (auto simp: snoc x in_data_append split: if_splits)
      ultimately show ?thesis
        using False M(2,3) b' B by (auto simp: m'' join_prev_def snoc x pool_blocks_def)
    qed
  qed
  then show "pool_blocks m' B (join_prev xs n ys)"
    and "j < 2 ^ 64 \<Longrightarrow> span xs + n + span ys \<le> j \<or> in_data (xs @ (n, False) # ys) j \<Longrightarrow> m' (B + of_nat j) = m (B + of_nat j)"
    by blast+
qed

lemma free_mem_blocks:
  assumes P: "pool_blocks m B (xs @ (n, True) # ys)"
  shows "pool_blocks (free_mem (B + of_nat (span xs)) m) B (release_block xs n ys)"
    and "span (release_block xs n ys) = span (xs @ (n, True) # ys)"
    and "j < 2 ^ 64 \<Longrightarrow> span (xs @ (n, True) # ys) \<le> j \<or> in_data (release_block xs n ys) j \<Longrightarrow>
      free_mem (B + of_nat (span xs)) m (B + of_nat j) = m (B + of_nat j)"
proof -
  let ?a = "span xs"
  define p where "p = (if xs = [] then 0 else B + of_nat (last_off 0 xs))"
  have b: "?a + n + span ys \<le> 4072" and B: "arena B" and cx: "chain m B 0 0 xs (B + of_nat ?a)"
    and cy: "chain m B ?a p ((n, True) # ys) 0"
    using P unfolding pool_blocks_def chain_append p_def by (auto simp: add.assoc)
  have n: "24 \<le> n" "n < 2 ^ 63" using cy b by simp_all
  obtain n' ys' where J: "join_next n ys = (n', ys')" by force
  note F = join_next_facts [OF J]
  define m1 where "m1 = store64 m (B + of_nat ?a) (hdr n False)"
  define m2 where "m2 = (if b_next m1 (B + of_nat ?a) \<noteq> 0 \<and> \<not> IS_BLOCK_USED (b_header m1 (b_next m1 (B + of_nat ?a)))
    then merge (B + of_nat ?a) m1 else m1)"
  have "b_header m (B + of_nat ?a) AND NOT BLOCK_USED = hdr n False" using cy hdr_unmark [OF n(2)] by simp
  then have run: "free_mem (B + of_nat ?a) m =
      (if b_prev m2 (B + of_nat ?a) \<noteq> 0 \<and> \<not> IS_BLOCK_USED (b_header m2 (b_prev m2 (B + of_nat ?a)))
       then merge (b_prev m2 (B + of_nat ?a)) m2 else m2)"
    unfolding free_mem_def Let_def field_offsets(4) by (simp only: m1_def [symmetric] m2_def [symmetric])
  have c1: "chain m1 B ?a p ((n, False) # ys) 0"
    unfolding m1_def using cy b by (intro set_header_chain) auto
  note N = join_next_chain [OF c1 b B m2_def J]
  have byte: "m2 (B + of_nat j) = m (B + of_nat j)"
    if "j < 2 ^ 64" "j < ?a \<or> ?a + n + span ys \<le> j \<or> ?a + n \<le> j \<and> in_data ys (j - (?a + n))" for j
    using N(2) [OF that] that b n(1) by (auto simp: m1_def store_offset_byte)
  have "chain m2 B 0 0 xs (B + of_nat ?a)"
    by (rule chain_bytes [OF cx], rule byte) (use b in auto)
  then have "pool_blocks m2 B (xs @ (n', False) # ys')"
    using N(1) b B F(1) unfolding pool_blocks_def chain_append p_def by simp
  note R = join_prev_blocks [OF this run]
  have rel: "release_block xs n ys = join_prev xs n' ys'" by (simp add: release_block_def J)
  show "pool_blocks (free_mem (B + of_nat ?a) m) B (release_block xs n ys)" using R(1) by (simp add: rel)
  show "span (release_block xs n ys) = span (xs @ (n, True) # ys)" using F(1) by (simp add: rel join_prev_span)
  show "free_mem (B + of_nat ?a) m (B + of_nat j) = m (B + of_nat j)"
    if "j < 2 ^ 64" "span (xs @ (n, True) # ys) \<le> j \<or> in_data (release_block xs n ys) j"
  proof -
    have "j < ?a \<or> ?a + n + span ys \<le> j \<or> ?a + n \<le> j \<and> in_data ys (j - (?a + n))"
      using that(2) by (auto simp: in_data_release in_data_append split: if_splits)
    moreover have "?a + n' + span ys' \<le> j \<or> in_data (xs @ (n', False) # ys') j"
      using that(2) F(1) by (auto simp: rel in_data_join_prev)
    ultimately show ?thesis using R(2) [OF that(1)] byte [OF that(1)] by simp
  qed
qed

end
