(* ===== verification/Demo.thy ===== *)
theory Demo
  imports Pool
begin

text \<open>
  A small machine on which the properties are applied: four frames, of which frame 2 is in use and
  cleared memory, on the processor \<open>demo_cpu\<close>.
\<close>

text \<open>Cleared memory, the four frames of \<open>demo_pmm\<close>, and the allocated frame 2 as the root table.\<close>

definition demo_kernel :: kernel where
  "demo_kernel = \<lparr>kmem = (\<lambda>_. 0), kpmm = demo_pmm, kcpu = demo_cpu, pools = 0, pool_tail = 0,
     kernel_mm = 0x2000, current_mm = 0\<rparr>"

lemma load_word_zero [simp]: "8 dvd LENGTH('a) \<Longrightarrow> load_word (\<lambda>_. 0) a = (0 :: 'a::len word)"
  by (intro bit_word_eqI) (simp add: bit_load_word)

end
