(* ===== verification/Pool_Thms.thy ===== *)
theory Pool_Thms
  imports Pool_Free Demo
begin

text \<open>
  The properties of \<open>mm/pool.c\<close>: initialisation, first-fit allocation from the list of pools, growth
  by a page, release with joining of neighbours; and what the code does for requests no page can
  hold and for addresses \<open>kmalloc\<close> itself returned.
\<close>

section \<open>Initialisation and fresh regions\<close>

lemma init_pool_ok:
  assumes "pmm_inv (kpmm s)" and "mm_frames_count (kpmm s) \<le> 2 ^ 35" and "avail_frames s \<noteq> {}"
  shows "\<exists>f s'. init_pool s = Inr (True, s') \<and> f \<in> avail_frames s \<and> avail_frames s' = avail_frames s - {f} \<and>
    kpool s' [(phys_to_virt (push_bit 12 (of_nat f)), [(4072, False)])] \<and> kcpu s' = kcpu s"
proof -
  have "cover (free_blocks (kpmm s)) \<noteq> {}" using assms(3) by (simp add: avail_frames_def)
  then obtain f pm where al: "alloc_frames (int 0) (kpmm s) = Inr (push_bit 12 (of_nat f), pm)" "pmm_inv pm"
      "f < mm_frames_count (kpmm s)" "f \<in> cover (free_blocks (kpmm s))"
      "cover (free_blocks pm) = cover (free_blocks (kpmm s)) - {f}"
      "alloc_blocks pm = insert (f, 0) (alloc_blocks (kpmm s))" "mm_frames_count pm = mm_frames_count (kpmm s)"
    by (rule buddy.alloc_page [OF assms(1)])
  define page :: u64 where "page = push_bit 12 (of_nat f)"
  have f: "f < 2 ^ 35" using al(3) assms(2) by simp
  have pg: "page_ok page" "unat page div 4096 = f" and ni: "page \<noteq> INVALID_ADDRESS"
    using frame_page(1) [OF f] unat_frame_div [OF f] frame_addr(2) [of f] f by (simp_all add: page_def INVALID_ADDRESS_def)
  define m' where "m' = init_single_pool (phys_to_virt page) 4096 (zeroed_page (kmem s) page)"
  define s' where "s' = s\<lparr>kpmm := pm, pools := phys_to_virt page, pool_tail := phys_to_virt page, kmem := m'\<rparr>"
  note F = fresh_pool_blocks [OF pg(1) m'_def]
  have "init_pool s = Inr (True, s')"
    using al(1) ni zero_page_ok [OF pg(1)] by (simp add: init_pool_def page_def [symmetric] PAGE_SIZE_def s'_def m'_def Let_def)
  moreover have "pool_frame s' (phys_to_virt page)"
    using pg al(6) by (auto simp: pool_frame_def s'_def)
  then have "kpool s' [(phys_to_virt page, [(4072, False)])]"
    using F al(2,7) assms(2) by (simp add: kpool_def pool_ok_def s'_def)
  ultimately show ?thesis
    using al(4,5) by (intro exI [of _ f] exI [of _ s']) (simp add: page_def avail_frames_def s'_def)
qed

lemma taken_data:
  assumes "fits L (n, False)" and "j < L"
  shows "in_data (take_block L xs n ys) (span xs + 24 + j)" and "\<not> in_data (xs @ (n, False) # ys) (span xs + 24 + j)"
  using assms by (auto simp: take_block_def in_data_append fits_def)

section \<open>kmalloc\<close>

lemma kmalloc_hit:
  assumes "kpool s (ts @ (Q, xs @ (n, False) # ys) # rs)" and "no_fit (round16 (unat len)) ts"
    and "unat len \<le> 2 ^ 64 - 48" and "\<forall>b \<in> set xs. \<not> fits (round16 (unat len)) b" and "fits (round16 (unat len)) (n, False)"
    and "n = round16 (unat len) + 32 \<or> round16 (unat len) + 56 \<le> n"
  shows "\<exists>s'. kmalloc len s = Inr (pool_first Q + of_nat (span xs + 24), s') \<and>
    kpool s' (ts @ (Q, take_block (round16 (unat len)) xs n ys) # rs) \<and> kcpu s' = kcpu s \<and>
    avail_frames s' = avail_frames s \<and>
    (\<forall>j < unat len. in_data (take_block (round16 (unat len)) xs n ys) (span xs + 24 + j) \<and>
       \<not> in_data (xs @ (n, False) # ys) (span xs + 24 + j)) \<and>
    (\<forall>j. in_data (xs @ (n, False) # ys) j \<longrightarrow> kmem s' (pool_first Q + of_nat j) = kmem s (pool_first Q + of_nat j)) \<and>
    (\<forall>x. 4072 \<le> unat (x - pool_first Q) \<longrightarrow> kmem s' x = kmem s x) \<and> kpmm s' = kpmm s"
proof -
  define c where "c = disable_interrupts (kcpu s)"
  let ?L = "round16 (unat len)" and ?s = "s\<lparr>kcpu := c\<rparr>"
  have K: "kpool ?s ([] @ ts @ (Q, xs @ (n, False) # ys) # rs)" using assms(1) by simp
  have "length ts \<le> 2 ^ 65" using kpool_length [OF assms(1)] by simp
  from kmalloc_loop_hit [OF K assms(2) this assms(3) refl assms(4-6)] obtain m' where
    m': "kmalloc_loop (2 ^ 65) (fst (hd (ts @ [(Q, [])]))) len ?s =
        Inr (Some (pool_first Q + of_nat (span xs + 24)), ?s\<lparr>kmem := m'\<rparr>)"
      "kpool (?s\<lparr>kmem := m'\<rparr>) (ts @ (Q, take_block ?L xs n ys) # rs)"
      "\<forall>j. in_data (xs @ (n, False) # ys) j \<longrightarrow> m' (pool_first Q + of_nat j) = kmem s (pool_first Q + of_nat j)"
      "\<forall>x. 4072 \<le> unat (x - pool_first Q) \<longrightarrow> m' x = kmem s x"
    by auto
  have hd: "pools s = fst (hd (ts @ [(Q, [])]))" using assms(1) by (cases ts) (auto simp: kpool_def)
  define s' where "s' = s\<lparr>kmem := m', kcpu := kcpu s\<rparr>"
  have "kmalloc len s = Inr (pool_first Q + of_nat (span xs + 24), s')"
    using m'(1) hd by (simp add: kmalloc_def save_and_disable_interrupts_def c_def [symmetric] s'_def) (simp add: c_def)
  moreover have "kpool s' (ts @ (Q, take_block ?L xs n ys) # rs)"
    using m'(2) by (simp add: s'_def)
  moreover have "j < ?L" if "j < unat len" for j using that round16_bounds(1) [of "unat len"] by simp
  ultimately show ?thesis
    using m'(3,4) taken_data [OF assms(5)] by (intro exI [of _ s']) (simp add: s'_def avail_frames_def)
qed

text \<open>Where no existing block is long enough, one frame becomes a new pool and the request is served from it.\<close>

lemma kmalloc_extend:
  assumes K: "kpool s ps" and nf: "no_fit (round16 (unat len)) ps" and L: "round16 (unat len) \<le> 4016" and "avail_frames s \<noteq> {}"
  shows "\<exists>f s'. f \<in> avail_frames s \<and> kmalloc len s = Inr (phys_to_virt (push_bit 12 (of_nat f)) + 48, s') \<and>
    kpool s' (ps @ [(phys_to_virt (push_bit 12 (of_nat f)), take_block (round16 (unat len)) [] 4072 [])]) \<and>
    avail_frames s' = avail_frames s - {f} \<and> kcpu s' = kcpu s \<and>
    (\<forall>x. 4096 \<le> unat (x - phys_to_virt (push_bit 12 (of_nat f))) \<longrightarrow> unat (x - pool_tail s) < 16 \<or> 24 \<le> unat (x - pool_tail s) \<longrightarrow>
       kmem s' x = kmem s x) \<and>
    alloc_blocks (kpmm s') = insert (f, 0) (alloc_blocks (kpmm s))"
proof -
  define c where "c = disable_interrupts (kcpu s)"
  define s0 where "s0 = s\<lparr>kcpu := c\<rparr>"
  obtain qs R cs where ps: "ps = qs @ [(R, cs)]" using K by (cases ps rule: rev_cases) (auto simp: kpool_def)
  have K0: "kpool s0 ([] @ qs @ [(R, cs)])" and K1: "kpool s0 (qs @ [(R, cs)])" and K2: "kpool s0 ps"
    using K by (simp_all add: ps s0_def)
  have R: "R = pool_tail s0" "pools s0 = fst (hd (qs @ [(R, cs)]))" using K1 by (auto simp: kpool_def)
  have len: "unat len \<le> 2 ^ 64 - 48" using L round16_bounds(1) [of "unat len"] by simp
  have lq: "length qs \<le> 2 ^ 35" using kpool_length [OF K] by (simp add: ps)
  have "avail_frames s0 \<noteq> {}" using assms(4) by (simp add: s0_def)
  from extend_pool_ok [OF K2 this] obtain f m3 pm where
    e: "f \<in> avail_frames s0" "extend_pool s0 = Inr (True, s0\<lparr>kpmm := pm, kmem := m3, pool_tail := phys_to_virt (push_bit 12 (of_nat f))\<rparr>)"
      "kpool (s0\<lparr>kpmm := pm, kmem := m3, pool_tail := phys_to_virt (push_bit 12 (of_nat f))\<rparr>)
        (ps @ [(phys_to_virt (push_bit 12 (of_nat f)), [(4072, False)])])"
      "cover (free_blocks pm) = avail_frames s0 - {f}" "pool_next m3 (pool_tail s0) = phys_to_virt (push_bit 12 (of_nat f))"
      "\<And>x. 4096 \<le> unat (x - phys_to_virt (push_bit 12 (of_nat f))) \<Longrightarrow> unat (x - pool_tail s0) < 16 \<or> 24 \<le> unat (x - pool_tail s0) \<Longrightarrow>
        m3 x = kmem s0 x"
      "alloc_blocks pm = insert (f, 0) (alloc_blocks (kpmm s0))"
    by metis
  define P :: u64 where "P = phys_to_virt (push_bit 12 (of_nat f))"
  define s2 where "s2 = s0\<lparr>kpmm := pm, kmem := m3, pool_tail := P\<rparr>"
  have K3: "kpool s2 (ps @ [] @ (P, [] @ (4072, False) # []) # [])" using e(3) by (simp add: s2_def P_def)
  have "fits (round16 (unat len)) (4072, False)" using L by (simp add: fits_def)
  with kmalloc_loop_hit [OF K3, of "round16 (unat len)" "2 ^ 65 - length qs - 1" len] len L obtain m' where
    m': "kmalloc_loop (2 ^ 65 - length qs - 1) P len s2 = Inr (Some (pool_first P + 24), s2\<lparr>kmem := m'\<rparr>)"
      "kpool (s2\<lparr>kmem := m'\<rparr>) (ps @ [(P, take_block (round16 (unat len)) [] 4072 [])])"
      "\<forall>x. 4072 \<le> unat (x - pool_first P) \<longrightarrow> m' x = m3 x"
    by (auto simp: no_fit_def s2_def)
  have "kmalloc_loop (2 ^ 65) (pools s0) len s0 = kmalloc_loop (2 ^ 65 - length qs) R len s0"
    unfolding R(2) using kmalloc_loop_to_last [OF K0 _ len, of "2 ^ 65"] nf lq by (auto simp: ps no_fit_def)
  also have "\<dots> = kmalloc_loop (2 ^ 65 - length qs - 1) (pool_next m3 R) len s2"
    using kmalloc_loop_last [OF K1 _ len, of "2 ^ 65 - length qs"] nf lq e(2) by (auto simp: ps no_fit_def s2_def P_def)
  also have "pool_next m3 R = P" using e(5) by (simp add: R(1) P_def)
  finally have loop: "kmalloc_loop (2 ^ 65) (pools s0) len s0 = Inr (Some (pool_first P + 24), s2\<lparr>kmem := m'\<rparr>)"
    using m'(1) by simp
  define s' where "s' = s2\<lparr>kmem := m', kcpu := kcpu s\<rparr>"
  have "kmalloc len s = Inr (P + 48, s')"
    using loop by (simp add: kmalloc_def save_and_disable_interrupts_def c_def [symmetric] s0_def [symmetric])
      (simp add: s'_def s2_def s0_def c_def pool_first_def SIZEOF_POOL_def)
  moreover have "kpool s' (ps @ [(P, take_block (round16 (unat len)) [] 4072 [])])"
    using m'(2) by (simp add: s'_def)
  moreover have "m' x = kmem s x" if "4096 \<le> unat (x - P)" "unat (x - pool_tail s) < 16 \<or> 24 \<le> unat (x - pool_tail s)" for x
    using m'(3) outside_blocks [OF disjI2, OF that(1)] e(6) [of x] that unfolding P_def by (simp add: s0_def)
  ultimately show ?thesis
    using e(1,4,7) unfolding P_def
    by (intro exI [of _ f] exI [of _ s']) (simp add: s'_def s2_def s0_def avail_frames_def)
qed

lemma demo_avail: "avail_frames demo_kernel = {0, 1, 3}"
  by (auto simp: avail_frames_def demo_kernel_def demo_pmm_inv(2) cover_def blk_def)

lemma demo_pool_hyps: "pmm_inv (kpmm demo_kernel)" "mm_frames_count (kpmm demo_kernel) \<le> 2 ^ 35" "avail_frames demo_kernel \<noteq> {}"
proof -
  have e: "kpmm demo_kernel = demo_pmm" by (simp add: demo_kernel_def)
  show "pmm_inv (kpmm demo_kernel)" unfolding e by (rule demo_pmm_inv(1))
  show "mm_frames_count (kpmm demo_kernel) \<le> 2 ^ 35" unfolding e by (simp add: demo_pmm_def)
  show "avail_frames demo_kernel \<noteq> {}" by (simp add: demo_avail)
qed

text \<open>A request no page can hold takes every frame there is, and returns with interrupts disabled.\<close>

lemma no_fit_large:
  assumes "kpool s ps" and "4040 < L"
  shows "no_fit L ps"
  unfolding no_fit_def
proof (intro ballI)
  fix q b assume q: "q \<in> set ps" and b: "b \<in> set (snd q)"
  have "span (snd q) = 4072" using assms(1) q by (auto simp: kpool_def pool_ok_def)
  then have "fst b \<le> 4072" using member_le_sum_list [of "fst b" "map fst (snd q)"] b by (simp add: span_def)
  with assms(2) show "\<not> fits L b" by (simp add: fits_def)
qed

lemma kmalloc_exhausts:
  assumes K: "kpool s ps" and len: "unat len \<le> 2 ^ 64 - 48" and big: "4040 < round16 (unat len)"
  shows "\<exists>s' ps'. kmalloc len s = Inr (0, s') \<and> kpool s' ps' \<and> avail_frames s' = {} \<and> kcpu s' = disable_interrupts (kcpu s)"
proof -
  define s0 where "s0 = s\<lparr>kcpu := disable_interrupts (kcpu s)\<rparr>"
  obtain qs R cs where ps: "ps = qs @ [(R, cs)]" using K by (cases ps rule: rev_cases) (auto simp: kpool_def)
  have K0: "kpool s0 ([] @ qs @ [(R, cs)])" and K1: "kpool s0 (qs @ [(R, cs)])"
    using K by (simp_all add: ps s0_def)
  have nf: "no_fit (round16 (unat len)) qs" "\<forall>b \<in> set cs. \<not> fits (round16 (unat len)) b"
    using no_fit_large [OF K big] by (auto simp: ps no_fit_def)
  have lq: "length qs \<le> 2 ^ 35" using kpool_length [OF K] by (simp add: ps)
  have "pools s0 = fst (hd (qs @ [(R, cs)]))" using K1 by (auto simp: kpool_def)
  then have "kmalloc_loop (2 ^ 65) (pools s0) len s0 = kmalloc_loop (2 ^ 65 - length qs) R len s0"
    using kmalloc_loop_to_last [OF K0 nf(1) len, of "2 ^ 65"] lq by simp
  moreover have "card (avail_frames s0) < 2 ^ 65 - length qs" using card_avail [OF K1] lq by simp
  ultimately obtain s' ps' where "kmalloc_loop (2 ^ 65) (pools s0) len s0 = Inr (None, s')" "kpool s' ps'"
      "avail_frames s' = {}" "kcpu s' = kcpu s0"
    using kmalloc_loop_exhausts [OF K1 nf(2) len big] by metis
  then show ?thesis
    by (intro exI [of _ s'] exI [of _ ps']) (simp add: kmalloc_def save_and_disable_interrupts_def s0_def)
qed

lemma kfree_block:
  assumes K: "kpool s (ts @ (Q, xs @ (n, True) # ys) # rs)" and "32 < n"
  shows "\<exists>s'. kfree (pool_first Q + of_nat (span xs + 32)) s = Inr s' \<and> kpool s' (ts @ (Q, release_block xs n ys) # rs) \<and>
    (\<forall>x. 4072 \<le> unat (x - pool_first Q) \<longrightarrow> kmem s' x = kmem s x) \<and>
    (\<forall>j. in_data (release_block xs n ys) j \<longrightarrow> kmem s' (pool_first Q + of_nat j) = kmem s (pool_first Q + of_nat j)) \<and>
    kpmm s' = kpmm s"
proof -
  let ?B = "pool_first Q" and ?bs = "xs @ (n, True) # ys"
  have P: "pool_blocks (kmem s) ?B ?bs" and sp: "span ?bs = 4072" using K by (auto simp: kpool_def pool_ok_def)
  have n: "n < 2 ^ 63" and cy: "b_header (kmem s) (?B + of_nat (span xs)) = hdr n True" "24 \<le> n" and B: "arena ?B"
    using P by (auto simp: pool_blocks_def chain_append)
  have a: "?B + of_nat (span xs + 32) - SIZEOF_BLOCK = ?B + of_nat (span xs)" by (simp add: SIZEOF_BLOCK_def)
  define m' where "m' = free_mem (?B + of_nat (span xs)) (kmem s)"
  note F = free_mem_blocks [OF P, folded m'_def]
  have out: "m' x = kmem s x" if "4072 \<le> unat (x - ?B)" for x
    using F(3) [of "unat (x - ?B)"] that sp unsigned_less [where 'a = nat and w = "x - ?B"] by simp
  have K': "kpool (s\<lparr>kmem := m'\<rparr>) (ts @ (Q, release_block xs n ys) # rs)"
    by (rule kpool_update [OF K out F(1)]) (use F(2) sp in simp_all)
  have "?B + of_nat (span xs + 32) \<noteq> 0"
    using B sp assms(2) by (intro arena_nonzero) simp_all
  then have "kfree (?B + of_nat (span xs + 32)) s = Inr (s\<lparr>kmem := m'\<rparr>)"
    unfolding kfree_free_mem a using cy(1) hdr_used [OF n, of True] by (simp add: m'_def)
  moreover have "m' (?B + of_nat j) = kmem s (?B + of_nat j)" if "in_data (release_block xs n ys) j" for j
    using that in_data_bound [OF that] F(2) sp by (intro F(3)) simp_all
  ultimately show ?thesis using K' out by (intro exI [of _ "s\<lparr>kmem := m'\<rparr>"]) simp
qed

lemma demo_pool:
  obtains s Q where "init_pool demo_kernel = Inr (True, s)" and "kpool s [(Q, [(4072, False)])]" and "card (avail_frames s) = 2"
proof -
  obtain f s where "init_pool demo_kernel = Inr (True, s)" "f \<in> avail_frames demo_kernel"
    and av: "avail_frames s = avail_frames demo_kernel - {f}" and K: "kpool s [(phys_to_virt (push_bit 12 (of_nat f)), [(4072, False)])]"
    using init_pool_ok [OF demo_pool_hyps] by blast
  moreover from this(2) have "card (avail_frames s) = 2" unfolding av demo_avail by auto
  ultimately show thesis using that by blast
qed

section \<open>Data in use\<close>

text \<open>The addresses of the data of all blocks in use.\<close>

definition live :: "(u64 \<times> blocks) list \<Rightarrow> u64 set" where
  "live ps = {pool_first Q + of_nat j | Q bs j. (Q, bs) \<in> set ps \<and> in_data bs j}"

lemma live_append [simp]: "live (ps @ qs) = live ps \<union> live qs"
  unfolding live_def by auto

lemma live_offset:
  assumes K: "kpool s ps" and Q: "(Q, bs) \<in> set ps" and j: "in_data bs j" and R: "R \<in> set (map fst ps)"
  shows "if R = Q then unat (pool_first Q + of_nat j - R) = 24 + j else 4096 \<le> unat (pool_first Q + of_nat j - R)"
proof -
  have e: "pool_first Q + of_nat j - Q = of_nat (24 + j)" by (simp add: pool_first_def SIZEOF_POOL_def)
  have "j < 4072" using in_data_bound [OF j] K Q by (auto simp: kpool_def pool_ok_def)
  then have u: "unat (pool_first Q + of_nat j - Q) = 24 + j" "24 + j < 4096" unfolding e by (simp_all add: unat_of_nat_small del: of_nat_add)
  have "pool_frame s Q" "pool_frame s R" using K Q R by (auto simp: kpool_def pool_ok_def)
  from pool_pages_disjoint [OF this(2) this(1)] u show ?thesis by auto
qed

lemma kmalloc_extend_live:
  assumes K: "kpool s ps" and "no_fit (round16 (unat len)) ps" and "round16 (unat len) \<le> 4016" and "avail_frames s \<noteq> {}"
  shows "\<exists>f s'. f \<in> avail_frames s \<and> kmalloc len s = Inr (phys_to_virt (push_bit 12 (of_nat f)) + 48, s') \<and>
    kpool s' (ps @ [(phys_to_virt (push_bit 12 (of_nat f)), take_block (round16 (unat len)) [] 4072 [])]) \<and>
    avail_frames s' = avail_frames s - {f} \<and> kcpu s' = kcpu s \<and>
    (\<forall>x \<in> live ps. kmem s' x = kmem s x) \<and> alloc_blocks (kpmm s') = insert (f, 0) (alloc_blocks (kpmm s)) \<and>
    (\<forall>x. unat x < 2 ^ 64 - 2 ^ 47 \<longrightarrow> kmem s' x = kmem s x)"
proof -
  obtain f s' where r: "f \<in> avail_frames s" "kmalloc len s = Inr (phys_to_virt (push_bit 12 (of_nat f)) + 48, s')"
    "kpool s' (ps @ [(phys_to_virt (push_bit 12 (of_nat f)), take_block (round16 (unat len)) [] 4072 [])])"
    "avail_frames s' = avail_frames s - {f}" "kcpu s' = kcpu s"
    "\<forall>x. 4096 \<le> unat (x - phys_to_virt (push_bit 12 (of_nat f))) \<longrightarrow>
      unat (x - pool_tail s) < 16 \<or> 24 \<le> unat (x - pool_tail s) \<longrightarrow> kmem s' x = kmem s x"
    "alloc_blocks (kpmm s') = insert (f, 0) (alloc_blocks (kpmm s))"
    using kmalloc_extend [OF assms] by blast
  let ?P = "phys_to_virt (push_bit 12 (of_nat f))" and ?new = "take_block (round16 (unat len)) [] 4072 []"
  have "kmem s' x = kmem s x" if x: "x \<in> live ps" for x
  proof -
    obtain Q bs j where q: "(Q, bs) \<in> set ps" "in_data bs j" "x = pool_first Q + of_nat j" using x unfolding live_def by blast
    have "distinct (map fst (ps @ [(?P, ?new)]))" using r(3) by (simp add: kpool_def)
    then have "?P \<noteq> Q" using q(1) by force
    then have "4096 \<le> unat (x - ?P)" using live_offset [OF r(3), of Q bs j ?P] q by auto
    moreover have "pool_tail s \<in> set (map fst ps)" using K by (auto simp: kpool_def intro!: image_eqI)
    from live_offset [OF K q(1,2) this] have "24 \<le> unat (x - pool_tail s)" unfolding q(3) by (cases "pool_tail s = Q") simp_all
    ultimately show ?thesis using r(6) by blast
  qed
  moreover have "kmem s' x = kmem s x" if x: "unat x < 2 ^ 64 - 2 ^ 47" for x
  proof -
    have "pool_frame s' ?P" using r(3) by (simp add: kpool_def pool_ok_def)
    moreover have "pool_frame s (pool_tail s)" using K by (auto simp: kpool_def pool_ok_def)
    ultimately show ?thesis using pool_page_high [OF _ x] r(6) by fastforce
  qed
  ultimately show ?thesis using r by (intro exI [of _ f] exI [of _ s']) blast
qed

section \<open>Properties of pool.c\<close>

text \<open>C18. First fit: \<open>kmalloc\<close> takes the first free block that is long enough in the first pool that has
  one, and returns the address of its data. The bytes returned were in no block in use; every
  byte of a block in use, in this and in all other pools, keeps its value; the pools stay well formed
  and the processor is as it was. The block is split unless it fits exactly; the remainder must
  be able to hold a block's header.\<close>

theorem kmalloc_first_fit:
  assumes "kpool s (ts @ (Q, xs @ (n, False) # ys) # rs)" and "no_fit (round16 (unat len)) ts"
    and "unat len \<le> 2 ^ 64 - 48" and "\<forall>b \<in> set xs. \<not> fits (round16 (unat len)) b" and "fits (round16 (unat len)) (n, False)"
    and "n = round16 (unat len) + 32 \<or> round16 (unat len) + 56 \<le> n"
  shows "\<exists>s'. kmalloc len s = Inr (pool_first Q + of_nat (span xs + 24), s') \<and>
    kpool s' (ts @ (Q, take_block (round16 (unat len)) xs n ys) # rs) \<and> kcpu s' = kcpu s \<and>
    avail_frames s' = avail_frames s \<and>
    (\<forall>j < unat len. in_data (take_block (round16 (unat len)) xs n ys) (span xs + 24 + j) \<and>
       \<not> in_data (xs @ (n, False) # ys) (span xs + 24 + j)) \<and>
    (\<forall>j. in_data (xs @ (n, False) # ys) j \<longrightarrow> kmem s' (pool_first Q + of_nat j) = kmem s (pool_first Q + of_nat j)) \<and>
    (\<forall>x. 4072 \<le> unat (x - pool_first Q) \<longrightarrow> kmem s' x = kmem s x)"
  using kmalloc_hit [OF assms] by blast

theorem kmalloc_first_fit_witness:
  "\<exists>s Q s'. init_pool demo_kernel = Inr (True, s) \<and> kmalloc 100 s = Inr (pool_first Q + 24, s') \<and>
    kpool s' [(Q, [(144, True), (3928, False)])]"
proof -
  obtain s Q where s: "init_pool demo_kernel = Inr (True, s)" "kpool s [(Q, [(4072, False)])]" by (rule demo_pool)
  have r: "round16 100 = 112" by (simp add: round16_def)
  from s(2) kmalloc_first_fit [of s "[]" Q "[]" 4072 "[]" "[]" 100]
  obtain s' where "kmalloc 100 s = Inr (pool_first Q + 24, s')" "kpool s' [(Q, take_block 112 [] 4072 [])]"
    by (auto simp: no_fit_def fits_def r)
  with s(1) show ?thesis by (auto simp: take_block_def)
qed

text \<open>C8. \<open>kfree\<close>, given the address 32 bytes after the header of a block in use (with room for data), frees that block, joins it with
  the free neighbour on either side, and leaves all pools well formed; the data of every other block in use keeps its value, and no byte outside that page changes.\<close>

theorem kfree_correct:
  assumes "kpool s (ts @ (Q, xs @ (n, True) # ys) # rs)" and "32 < n"
  shows "\<exists>s'. kfree (pool_first Q + of_nat (span xs + 32)) s = Inr s' \<and> kpool s' (ts @ (Q, release_block xs n ys) # rs) \<and>
    (\<forall>x. 4072 \<le> unat (x - pool_first Q) \<longrightarrow> kmem s' x = kmem s x) \<and>
    (\<forall>j. in_data (xs @ (n, True) # ys) j \<and> \<not> (span xs \<le> j \<and> j < span xs + n) \<longrightarrow>
       in_data (release_block xs n ys) j \<and> kmem s' (pool_first Q + of_nat j) = kmem s (pool_first Q + of_nat j))"
  using kfree_block [OF assms] in_data_release [of xs n ys] by blast

theorem kfree_correct_witness:
  "\<exists>s Q s1 s'. init_pool demo_kernel = Inr (True, s) \<and> kmalloc 100 s = Inr (pool_first Q + 24, s1) \<and>
    kfree (pool_first Q + 32) s1 = Inr s' \<and> kpool s' [(Q, [(4072, False)])]"
proof -
  obtain s Q where s: "init_pool demo_kernel = Inr (True, s)" "kpool s [(Q, [(4072, False)])]" by (rule demo_pool)
  have r: "round16 100 = 112" by (simp add: round16_def)
  from s(2) kmalloc_hit [of s "[]" Q "[]" 4072 "[]" "[]" 100]
  obtain s1 where s1: "kmalloc 100 s = Inr (pool_first Q + 24, s1)" "kpool s1 [(Q, take_block 112 [] 4072 [])]"
    by (auto simp: no_fit_def fits_def r)
  then have "kpool s1 ([] @ (Q, [] @ (144, True) # [(3928, False)]) # [])" by (simp add: take_block_def)
  from kfree_correct [OF this] obtain s' where "kfree (pool_first Q + 32) s1 = Inr s'" "kpool s' [(Q, [(4072, False)])]"
    by (auto simp: release_block_def join_prev_def)
  with s(1) s1(1) show ?thesis by blast
qed

text \<open>The address \<open>kmalloc\<close> returns is not the one \<open>kfree\<close> expects: \<open>data\<close> is 24 bytes into a block and \<open>kfree\<close> goes
  back 32. With a single pool, freeing what \<open>kmalloc\<close> took from the head of the pool reads the pool's null link as a header
  and panics.\<close>

lemma kmalloc_kfree_panics:
  assumes "kpool s [(Q, (n, False) # ys)]" and "unat len \<le> 2 ^ 64 - 48" and "fits (round16 (unat len)) (n, False)"
    and "n = round16 (unat len) + 32 \<or> round16 (unat len) + 56 \<le> n"
  shows "\<exists>a s'. kmalloc len s = Inr (a, s') \<and> a \<noteq> 0 \<and> kfree a s' = Inl (Panic ''Double free detected'')"
proof -
  from assms kmalloc_hit [of s "[]" Q "[]" n ys "[]" len] obtain s' where
    s': "kmalloc len s = Inr (pool_first Q + 24, s')" "kpool s' [(Q, take_block (round16 (unat len)) [] n ys)]"
    by (auto simp: no_fit_def)
  have "pool_next (kmem s') Q = 0" and B: "arena (pool_first Q)"
    using s'(2) by (simp_all add: kpool_def pool_ok_def pool_blocks_def)
  then have "b_header (kmem s') (pool_first Q + 24 - SIZEOF_BLOCK) = 0"
    by (simp add: pool_next_def b_header_def pool_first_def SIZEOF_POOL_def SIZEOF_BLOCK_def add.commute)
  moreover have "pool_first Q + 24 \<noteq> 0" using arena_nonzero [OF B, of 24] by simp
  ultimately show ?thesis
    using s'(1) by (intro exI [of _ "pool_first Q + 24"] exI [of _ s']) (simp add: kfree_free_mem IS_BLOCK_USED_def)
qed

text \<open>
  Lengths next to \<open>2 ^ 64\<close> overflow when they are rounded up and the header is added: such a request looks like one of at most 32 bytes with
  its header, so that the first free block will do.
\<close>

lemma align_overflow:
  assumes "2 ^ 64 - 48 < unat len"
  shows "align_up_mask len 15 + SIZEOF_BLOCK \<le> 32"
proof -
  define d where "d = unat (- 1 - len)"
  have "unat (- 1 - len) = 2 ^ 64 - 1 - unat len"
    by (subst unat_sub) (simp_all add: unsigned_minus_1_eq_mask mask_eq_exp_minus_1)
  then have d: "d < 47" using assms by (simp add: d_def)
  have len: "len = - 1 - of_nat d" by (simp add: d_def)
  have "\<forall>i \<in> set [0..<47]. align_up_mask (- 1 - of_nat i) 15 + SIZEOF_BLOCK \<le> 32" by code_simp
  then show ?thesis using d unfolding len by simp
qed

lemma allocate_first:
  assumes "first \<noteq> 0" and "\<not> IS_BLOCK_USED (b_header m first)" and "align_up_mask len 15 + SIZEOF_BLOCK \<le> GET_BLOCK_LEN (b_header m first)"
  shows "\<exists>m'. allocate first len m = Inr (first + 24, m')"
proof -
  have "find_block (2 ^ 64) first (align_up_mask len 15) m = Inr first" using assms by (subst find_block.simps) simp
  then show ?thesis using assms(1,2) by (simp add: allocate_def BLOCK_DATA_def Let_def)
qed

lemma kmalloc_overflow:
  assumes K: "kpool s ((Q, (n, False) # ys) # rs)" and n: "32 \<le> n" and len: "2 ^ 64 - 48 < unat len"
  shows "\<exists>s'. kmalloc len s = Inr (pool_first Q + 24, s') \<and> pool_first Q + 24 \<noteq> 0"
proof -
  have P: "pool_blocks (kmem s) (pool_first Q) ((n, False) # ys)" and sp: "span ((n, False) # ys) = 4072" and Q: "pools s = Q" "Q \<noteq> 0"
    using K pool_frame_nonzero by (auto simp: kpool_def pool_ok_def)
  then have h: "b_header (kmem s) (pool_first Q) = hdr n False" and A: "arena (pool_first Q)" by (simp_all add: pool_blocks_def)
  have "n < 2 ^ 63" using sp by simp
  then have u: "\<not> IS_BLOCK_USED (hdr n False)" "GET_BLOCK_LEN (hdr n False) = of_nat n" by (simp_all add: hdr_used hdr_len)
  have nz: "pool_first Q \<noteq> 0" "pool_first Q + 24 \<noteq> 0" using arena_nonzero [OF A, of 0] arena_nonzero [OF A, of 24] by simp_all
  have "unat (of_nat n :: u64) = n" using \<open>n < 2 ^ 63\<close> by (simp add: unat_of_nat_small)
  then have "(32 :: u64) \<le> of_nat n" using n by (simp add: word_le_nat_alt)
  then obtain m' where m': "allocate (pool_first Q) len (kmem s) = Inr (pool_first Q + 24, m')"
    using allocate_first [of "pool_first Q" "kmem s" len] nz(1) u align_overflow [OF len] unfolding h by force
  then have "kmalloc_loop (2 ^ 65) Q len (s\<lparr>kcpu := disable_interrupts (kcpu s)\<rparr>) =
      Inr (Some (pool_first Q + 24), s\<lparr>kcpu := disable_interrupts (kcpu s), kmem := m'\<rparr>)"
    using Q(2) nz(2) by (subst kmalloc_loop.simps) simp
  then show ?thesis using Q(1) nz(2) by (simp add: kmalloc_def save_and_disable_interrupts_def)
qed

text \<open>C39. Requests no page can hold. A request of more than 4040 bytes after rounding, up to \<open>2 ^ 64 - 48\<close> bytes, is not refused at once: \<open>kmalloc\<close> adds
  every free frame as a pool, then returns NULL, with interrupts still disabled. A still larger request overflows in \<open>ALIGN_UP\<close> or when the header is
  added, and succeeds: when the first block of the first pool is free and has at least 32 bytes, \<open>kmalloc\<close> returns it.\<close>

theorem kmalloc_too_large:
  assumes "kpool s ps"
  shows "(4040 < round16 (unat len) \<and> unat len \<le> 2 ^ 64 - 48 \<longrightarrow>
      (\<exists>s' ps'. kmalloc len s = Inr (0, s') \<and> kpool s' ps' \<and> avail_frames s' = {} \<and> \<not> interrupts_enabled (kcpu s'))) \<and>
    (\<forall>Q n ys rs. ps = (Q, (n, False) # ys) # rs \<and> 32 \<le> n \<and> 2 ^ 64 - 48 < unat len \<longrightarrow>
      (\<exists>s'. kmalloc len s = Inr (pool_first Q + 24, s') \<and> pool_first Q + 24 \<noteq> 0))"
proof (intro conjI allI impI)
  assume "4040 < round16 (unat len) \<and> unat len \<le> 2 ^ 64 - 48"
  then obtain s' ps' where "kmalloc len s = Inr (0, s')" "kpool s' ps'" "avail_frames s' = {}" "kcpu s' = disable_interrupts (kcpu s)"
    using kmalloc_exhausts [OF assms, of len] by blast
  then show "\<exists>s' ps'. kmalloc len s = Inr (0, s') \<and> kpool s' ps' \<and> avail_frames s' = {} \<and> \<not> interrupts_enabled (kcpu s')"
    by (intro exI [of _ s'] exI [of _ ps']) simp
next
  fix Q n ys rs assume "ps = (Q, (n, False) # ys) # rs \<and> 32 \<le> n \<and> 2 ^ 64 - 48 < unat len"
  then show "\<exists>s'. kmalloc len s = Inr (pool_first Q + 24, s') \<and> pool_first Q + 24 \<noteq> 0"
    using kmalloc_overflow assms by blast
qed

theorem kmalloc_too_large_witness:
  "\<exists>s s' s'' Q. init_pool demo_kernel = Inr (True, s) \<and> kmalloc 4096 s = Inr (0, s') \<and> avail_frames s' = {} \<and>
    kmalloc 0xFFFFFFFFFFFFFFF8 s = Inr (pool_first Q + 24, s'') \<and> pool_first Q + 24 \<noteq> 0"
proof -
  obtain s Q where s: "init_pool demo_kernel = Inr (True, s)" "kpool s [(Q, [(4072, False)])]" by (rule demo_pool)
  have "2 ^ 64 - 48 < unat (0xFFFFFFFFFFFFFFF8 :: u64)" by simp
  then have "\<exists>s''. kmalloc 0xFFFFFFFFFFFFFFF8 s = Inr (pool_first Q + 24, s'') \<and> pool_first Q + 24 \<noteq> 0" using kmalloc_too_large [OF s(2), of "0xFFFFFFFFFFFFFFF8"] by auto
  moreover have "\<exists>s'. kmalloc 4096 s = Inr (0, s') \<and> avail_frames s' = {}" using kmalloc_too_large [OF s(2), of 4096] by (auto simp: round16_def)
  ultimately show ?thesis using s(1) by blast
qed

end
