(* ===== verification/Pool_Heap.thy ===== *)
theory Pool_Heap
  imports Pool_Thms
begin

text \<open>
  The kernel pools as a heap used by clients: any sequence of sound requests and releases keeps the pools well formed, gives out
  data no one uses, and never changes data in use. A request is sound when every free block it fits into either fits exactly or
  leaves room for the header of the remainder; the last section shows what \<open>divide\<close> does to the neighbouring page when it does not.
\<close>

definition leaves_room :: "nat \<Rightarrow> (u64 \<times> blocks) list \<Rightarrow> bool" where
  "leaves_room L ps \<longleftrightarrow> (\<forall>q \<in> set ps. \<forall>b \<in> set (snd q). fits L b \<longrightarrow> fst b = L + 32 \<or> L + 56 \<le> fst b)"

lemma live_iff:
  assumes K: "kpool s ps" and Q: "(Q, bs) \<in> set ps" and k: "k < 4072"
  shows "pool_first Q + of_nat k \<in> live ps \<longleftrightarrow> in_data bs k"
proof
  assume "pool_first Q + of_nat k \<in> live ps"
  then obtain R cs j where R: "(R, cs) \<in> set ps" "in_data cs j" "pool_first Q + of_nat k = pool_first R + of_nat j" unfolding live_def by blast
  have e: "pool_first Q + of_nat k - Q = of_nat (24 + k)" by (simp add: pool_first_def SIZEOF_POOL_def)
  have u: "unat (pool_first Q + of_nat k - Q) = 24 + k" unfolding e using k by (simp add: unat_of_nat_small del: of_nat_add)
  have "Q \<in> set (map fst ps)" using Q by force
  from live_offset [OF K R(1,2) this] have "Q = R \<and> j = k" using u k unfolding R(3) [symmetric] by (auto split: if_splits)
  moreover have "distinct (map fst ps)" using K by (simp add: kpool_def)
  ultimately show "in_data bs k" using R(1,2) Q eq_key_imp_eq_value by metis
qed (use Q in \<open>auto simp: live_def\<close>)

text \<open>Data in use in one pool and in the others, from what a call changes in that pool's page.\<close>

lemma live_kept:
  assumes K: "kpool s (ts @ (Q, bs) # rs)"
    and data: "\<And>j. in_data bs j \<Longrightarrow> P j \<Longrightarrow> m' (pool_first Q + of_nat j) = kmem s (pool_first Q + of_nat j)"
    and out: "\<And>x. 4072 \<le> unat (x - pool_first Q) \<Longrightarrow> m' x = kmem s x"
    and x: "x \<in> live (ts @ (Q, bs) # rs)" and P: "\<And>j. x = pool_first Q + of_nat j \<Longrightarrow> in_data bs j \<Longrightarrow> P j"
  shows "m' x = kmem s x"
proof -
  obtain R cs j where R: "(R, cs) \<in> set (ts @ (Q, bs) # rs)" "in_data cs j" "x = pool_first R + of_nat j" using x unfolding live_def by blast
  show ?thesis
  proof (cases "R = Q")
    case True
    have "distinct (map fst (ts @ (Q, bs) # rs))" using K by (simp add: kpool_def)
    moreover have "(Q, bs) \<in> set (ts @ (Q, bs) # rs)" by simp
    ultimately have "cs = bs" using R(1) True eq_key_imp_eq_value by metis
    with R True data P show ?thesis by simp
  next
    case False
    have "Q \<in> set (map fst (ts @ (Q, bs) # rs))" by simp
    from live_offset [OF K R(1,2) this] have "4096 \<le> unat (x - Q)" using False R(3) by simp
    then show ?thesis by (intro out outside_blocks) simp
  qed
qed

lemma first_fit_exists:
  assumes "\<not> no_fit L ps"
  obtains ts Q xs n ys rs where "ps = ts @ (Q, xs @ (n, False) # ys) # rs" and "no_fit L ts" and "\<forall>b \<in> set xs. \<not> fits L b" and "fits L (n, False)"
proof -
  have "\<exists>q \<in> set ps. \<exists>b \<in> set (snd q). fits L b" using assms by (auto simp: no_fit_def)
  from split_list_first_prop [OF this] obtain ts q rs where
    q: "ps = ts @ q # rs" "\<exists>b \<in> set (snd q). fits L b" "\<forall>r \<in> set ts. \<not> (\<exists>b \<in> set (snd r). fits L b)" by blast
  from split_list_first_prop [OF q(2)] obtain xs b ys where b: "snd q = xs @ b # ys" "fits L b" "\<forall>c \<in> set xs. \<not> fits L c" by blast
  obtain n where "b = (n, False)" using b(2) by (cases b) (auto simp: fits_def)
  with q b show thesis by (intro that [of ts "fst q" xs n ys rs]) (auto simp: no_fit_def prod_eq_iff)
qed

lemma kmalloc_full:
  assumes K: "kpool s ps" and len: "unat len \<le> 2 ^ 64 - 48" and nf: "no_fit (round16 (unat len)) ps" and av: "avail_frames s = {}"
  shows "kmalloc len s = Inr (0, s\<lparr>kcpu := disable_interrupts (kcpu s)\<rparr>)"
proof -
  define s0 where "s0 = s\<lparr>kcpu := disable_interrupts (kcpu s)\<rparr>"
  obtain qs R cs where ps: "ps = qs @ [(R, cs)]" using K by (cases ps rule: rev_cases) (auto simp: kpool_def)
  have K0: "kpool s0 ([] @ qs @ [(R, cs)])" and K1: "kpool s0 (qs @ [(R, cs)])" using K by (simp_all add: ps s0_def)
  have n: "no_fit (round16 (unat len)) qs" "\<forall>b \<in> set cs. \<not> fits (round16 (unat len)) b" using nf by (auto simp: ps no_fit_def)
  have lq: "length qs \<le> 2 ^ 35" using kpool_length [OF K] by (simp add: ps)
  have "pools s0 = fst (hd (qs @ [(R, cs)]))" using K1 by (auto simp: kpool_def)
  then have "kmalloc_loop (2 ^ 65) (pools s0) len s0 = kmalloc_loop (2 ^ 65 - length qs) R len s0"
    using kmalloc_loop_to_last [OF K0 n(1) len, of "2 ^ 65"] lq by simp
  moreover have "extend_pool s0 = Inr (False, s0)"
    using K av by (intro extend_pool_none) (simp_all add: s0_def kpool_def avail_frames_def)
  moreover have "0 < 2 ^ 65 - length qs" using lq by simp
  ultimately have "kmalloc_loop (2 ^ 65) (pools s0) len s0 = Inr (None, s0)"
    using kmalloc_loop_last [OF K1 n(2) len] by simp
  then show ?thesis by (simp add: kmalloc_def save_and_disable_interrupts_def s0_def)
qed

section \<open>Pieces of data\<close>

text \<open>\<open>L\<close> bytes of data from address \<open>a\<close> on, in one block in use.\<close>

definition chunk :: "(u64 \<times> blocks) list \<Rightarrow> u64 \<Rightarrow> nat \<Rightarrow> bool" where
  "chunk ps a L \<longleftrightarrow> (\<exists>Q bs k. (Q, bs) \<in> set ps \<and> a = pool_first Q + of_nat k \<and> (\<forall>j < L. in_data bs (k + j)))"

lemma chunk_live: "chunk ps a L \<Longrightarrow> j < L \<Longrightarrow> a + of_nat j \<in> live ps"
  unfolding chunk_def live_def by (force simp: add.assoc)

lemma live_chunk: "x \<in> live ps \<Longrightarrow> chunk ps x 1"
  unfolding chunk_def live_def by auto

lemma chunk_byte: "chunk ps a L \<Longrightarrow> unat (x - a) < L \<Longrightarrow> x \<in> live ps"
  using chunk_live [of ps a L "unat (x - a)"] by simp

lemma chunk_grow:
  assumes "chunk ps a L" and "\<And>Q bs. (Q, bs) \<in> set ps \<Longrightarrow> \<exists>cs. (Q, cs) \<in> set qs \<and> (\<forall>j. in_data bs j \<longrightarrow> in_data cs j)"
  shows "chunk qs a L"
proof -
  obtain Q bs k where q: "(Q, bs) \<in> set ps" "a = pool_first Q + of_nat k" "\<forall>j < L. in_data bs (k + j)" using assms(1) unfolding chunk_def by blast
  obtain cs where "(Q, cs) \<in> set qs" "\<forall>j. in_data bs j \<longrightarrow> in_data cs j" using assms(2) [OF q(1)] by blast
  then show ?thesis unfolding chunk_def using q(2,3) by (intro exI [of _ Q] exI [of _ cs] exI [of _ k]) simp
qed

lemma chunk_sub: "chunk ps a L \<Longrightarrow> i + l \<le> L \<Longrightarrow> chunk ps (a + of_nat i) l"
proof -
  assume "chunk ps a L" "i + l \<le> L"
  then obtain Q bs k where q: "(Q, bs) \<in> set ps" "a = pool_first Q + of_nat k" "\<forall>j < L. in_data bs (k + j)" unfolding chunk_def by blast
  have "\<forall>j < l. in_data bs (k + i + j)" using q(3) \<open>i + l \<le> L\<close> by (auto simp: add.assoc)
  then show ?thesis unfolding chunk_def using q(1,2) by (intro exI [of _ Q] exI [of _ bs] exI [of _ "k + i"]) (simp add: add.assoc)
qed

text \<open>A piece lies in a single block.\<close>

lemma in_data_block:
  assumes "\<forall>b \<in> set bs. 24 \<le> fst b" and "\<forall>i < L. in_data bs (j + i)" and "0 < L"
  shows "\<exists>xs n ys. bs = xs @ (n, True) # ys \<and> span xs + 24 \<le> j \<and> j + L \<le> span xs + n"
  using assms(1,2)
proof (induction bs arbitrary: j)
  case Nil
  then show ?case using assms(3) by auto
next
  case (Cons b bs)
  obtain n u where b: "b = (n, u)" by force
  have "in_data (b # bs) j" using Cons.prems(2) assms(3) by (metis add_0_right)
  show ?case
  proof (cases "j < n")
    case True
    then have u: "u" "24 \<le> j" using \<open>in_data (b # bs) j\<close> by (simp_all add: b)
    have "j + L \<le> n"
    proof (rule ccontr)
      assume "\<not> j + L \<le> n"
      then have "n - j < L" "j + (n - j) = n" using True by simp_all
      then have "in_data (b # bs) n" using Cons.prems(2) by metis
      then show False using in_data_ge [of bs 0] Cons.prems(1) by (simp add: b)
    qed
    then show ?thesis using u by (intro exI [of _ "[]"] exI [of _ n] exI [of _ bs]) (simp add: b)
  next
    case False
    then have "\<forall>i < L. in_data bs (j - n + i)" using Cons.prems(2) by (auto simp: b)
    with Cons.IH [of "j - n"] Cons.prems(1) obtain xs n' ys where
      "bs = xs @ (n', True) # ys" "span xs + 24 \<le> j - n" "j - n + L \<le> span xs + n'" by auto
    then have "b # bs = (b # xs) @ (n', True) # ys \<and> span (b # xs) + 24 \<le> j \<and> j + L \<le> span (b # xs) + n'" using False by (auto simp: b)
    then show ?thesis by (intro exI)
  qed
qed

text \<open>A write into the data of a block in use leaves the pool as it is.\<close>

lemma data_store_blocks:
  assumes P: "pool_blocks m B (xs @ (n, True) # ys)" and o1: "span xs + 24 \<le> o1" "o1 + 8 \<le> span xs + n"
  shows "pool_blocks (store64 m (B + of_nat o1) v) B (xs @ (n, True) # ys)"
proof -
  let ?m = "store64 m (B + of_nat o1) v" and ?a = "span xs"
  define p where "p = (if xs = [] then 0 else B + of_nat (last_off 0 xs))"
  have b: "?a + n + span ys \<le> 4072" and cx: "chain m B 0 0 xs (B + of_nat ?a)" and cy: "chain m B ?a p ((n, True) # ys) 0"
    using P unfolding pool_blocks_def chain_append p_def by (auto simp: add.assoc)
  have byte: "?m (B + of_nat k) = m (B + of_nat k)" if "k < o1 \<or> o1 + 8 \<le> k" "k < 2 ^ 64" for k
    using that b o1 by (intro store_offset_byte) auto
  have "chain ?m B 0 0 xs (B + of_nat ?a)" by (rule chain_bytes [OF cx], rule byte) (use b o1 in auto)
  moreover have "chain ?m B (?a + n) (B + of_nat ?a) ys 0"
    by (rule chain_bytes [of m], use cy in simp, rule byte) (use b o1 in auto)
  moreover have "load64 ?m (B + of_nat (?a + k)) = load64 m (B + of_nat (?a + k))" if "k \<in> {0, 8, 16}" for k
    using that b o1 by (subst load_store_offset) auto
  then have "b_header ?m (B + of_nat ?a) = b_header m (B + of_nat ?a)" "b_next ?m (B + of_nat ?a) = b_next m (B + of_nat ?a)"
    "b_prev ?m (B + of_nat ?a) = b_prev m (B + of_nat ?a)"
    unfolding field_offsets by (metis add_0_right insertI1, metis insertI1 insertI2, metis insertI1 insertI2)
  ultimately have "chain ?m B 0 0 (xs @ (n, True) # ys) 0"
    using cy unfolding chain_append p_def by simp
  then show ?thesis using P by (simp add: pool_blocks_def)
qed

text \<open>Data that stays live stays in one piece.\<close>

lemma chunk_stays:
  assumes "chunk ps a L" and "kpool s' ps'" and "set (map fst ps) \<subseteq> set (map fst ps')" and sp: "\<And>Q bs. (Q, bs) \<in> set ps \<Longrightarrow> span bs = 4072"
    and "\<And>j. j < L \<Longrightarrow> a + of_nat j \<in> live ps'"
  shows "chunk ps' a L"
proof -
  obtain Q bs k where q: "(Q, bs) \<in> set ps" "a = pool_first Q + of_nat k" "\<And>j. j < L \<Longrightarrow> in_data bs (k + j)" using assms(1) unfolding chunk_def by blast
  then obtain cs where cs: "(Q, cs) \<in> set ps'" using assms(3) by fastforce
  have "in_data cs (k + j)" if "j < L" for j
  proof -
    have "k + j < 4072" using in_data_bound [OF q(3) [OF that]] sp [OF q(1)] by simp
    from live_iff [OF assms(2) cs this] assms(5) [OF that] show ?thesis by (simp add: q(2) add.assoc)
  qed
  then show ?thesis unfolding chunk_def using cs q(2) by blast
qed

lemma chunk_store:
  assumes K: "kpool s ps" and c: "chunk ps a 8"
  shows "kpool (s\<lparr>kmem := store64 (kmem s) a v\<rparr>) ps"
proof -
  obtain Q bs k where q: "(Q, bs) \<in> set ps" "a = pool_first Q + of_nat k" "\<forall>j < 8. in_data bs (k + j)" using c unfolding chunk_def by blast
  obtain ts rs where ps: "ps = ts @ (Q, bs) # rs" using q(1) by (metis split_list)
  have P: "pool_blocks (kmem s) (pool_first Q) bs" "span bs = 4072" using K q(1) by (auto simp: kpool_def pool_ok_def)
  then have "\<forall>b \<in> set bs. 24 \<le> fst b" unfolding pool_blocks_def by (intro chain_sizes [of "kmem s" "pool_first Q" 0 0 bs 0]) blast
  from in_data_block [OF this q(3)] obtain xs n ys where b: "bs = xs @ (n, True) # ys" "span xs + 24 \<le> k" "k + 8 \<le> span xs + n" by auto
  have B: "pool_blocks (store64 (kmem s) a v) (pool_first Q) bs"
    using data_store_blocks [OF P(1) [unfolded b(1)] b(2,3)] unfolding q(2) b(1) .
  have out: "store64 (kmem s) a v x = kmem s x" if "4072 \<le> unat (x - pool_first Q)" for x
  proof -
    define i where "i = unat (x - pool_first Q)"
    have "x = pool_first Q + of_nat i" "i < 2 ^ 64" using unsigned_less [where 'a = nat and w = "x - pool_first Q"] by (simp_all add: i_def)
    moreover have "k + 8 \<le> 4072" using b P(2) by simp
    ultimately show ?thesis using that unfolding q(2) i_def [symmetric] by (simp add: store_offset_byte)
  qed
  show ?thesis unfolding ps by (rule kpool_update [OF K [unfolded ps] out B P(2)])
qed

lemma chunk_fresh: "\<forall>j < L. a + of_nat j \<notin> live ps \<Longrightarrow> x \<in> live ps \<Longrightarrow> L \<le> unat (x - a)"
proof (rule ccontr)
  assume a: "\<forall>j < L. a + of_nat j \<notin> live ps" "x \<in> live ps" "\<not> L \<le> unat (x - a)"
  then have "a + of_nat (unat (x - a)) \<notin> live ps" by (meson not_le)
  then show False using a(2) by simp
qed

section \<open>What the pools do not depend on\<close>

text \<open>The pools when the frame allocator moves on without touching their pages.\<close>

lemma kpool_pmm:
  assumes "kpool k ps" and "pmm_inv pm" and "mm_frames_count pm \<le> 2 ^ 35"
    and "\<And>f. (f, 0) \<in> alloc_blocks (kpmm k) \<Longrightarrow> phys_to_virt (push_bit 12 (of_nat f)) \<in> set (map fst ps) \<Longrightarrow> (f, 0) \<in> alloc_blocks pm"
  shows "kpool (k\<lparr>kpmm := pm\<rparr>) ps"
proof -
  have "pool_frame (k\<lparr>kpmm := pm\<rparr>) Q" if "Q \<in> set (map fst ps)" for Q
  proof -
    have "pool_frame k Q" using assms(1) that by (auto simp: kpool_def pool_ok_def)
    then obtain t where t: "page_ok t" "Q = phys_to_virt t" "(unat t div 4096, 0) \<in> alloc_blocks (kpmm k)"
      unfolding pool_frame_def by blast
    have "push_bit 12 (of_nat (unat t div 4096)) = (of_nat (unat t div 4096 * 4096) :: u64)" by (simp add: push_bit_eq_mult)
    also have "\<dots> = t" using t(1) by (simp add: page_ok_def del: of_nat_mult)
    finally have "push_bit 12 (of_nat (unat t div 4096)) = t" .
    then show ?thesis using assms(4) [OF t(3)] t that by (auto simp: pool_frame_def)
  qed
  then show ?thesis using assms(1-3) by (force simp: kpool_def pool_ok_def)
qed

text \<open>Bytes outside the pools' pages.\<close>

lemma kpool_outside:
  assumes K: "kpool s ps" and same: "\<And>Q x. Q \<in> set (map fst ps) \<Longrightarrow> unat (x - Q) < 4096 \<Longrightarrow> m x = kmem s x"
  shows "kpool (s\<lparr>kmem := m\<rparr>) ps"
proof -
  have "pool_next m Q = pool_next (kmem s) Q" if "Q \<in> set (map fst ps)" for Q by (rule pool_next_cong) (use same [OF that] in simp)
  then have "links m (map fst ps)" using links_cong [of "map fst ps" m "kmem s"] K by (simp add: kpool_def)
  moreover have "pool_ok (s\<lparr>kmem := m\<rparr>) (Q, bs)" if q: "(Q, bs) \<in> set ps" for Q bs
  proof -
    have ok: "pool_ok s (Q, bs)" and "Q \<in> set (map fst ps)" using K q by (auto simp: kpool_def intro!: image_eqI)
    then have "pool_blocks m (pool_first Q) bs" using pool_blocks_cong [of "kmem s" Q bs m] same [of Q] by (simp add: pool_ok_def)
    with ok show ?thesis by (simp add: pool_ok_def pool_frame_def)
  qed
  ultimately show ?thesis using K unfolding kpool_def by auto
qed

lemma live_in_pools:
  assumes K: "kpool s ps" and x: "x \<in> live ps"
  obtains Q where "Q \<in> set (map fst ps)" and "unat (x - Q) < 4096"
proof -
  obtain Q bs j where q: "(Q, bs) \<in> set ps" "in_data bs j" "x = pool_first Q + of_nat j" using x unfolding live_def by blast
  have Q: "Q \<in> set (map fst ps)" using q(1) by force
  have "span bs = 4072" using K q(1) by (auto simp: kpool_def pool_ok_def)
  then have "j < 4072" using in_data_bound [OF q(2)] by simp
  then have "unat (x - Q) < 4096" using live_offset [OF K q(1,2) Q] q(3) by simp
  with Q show thesis by (rule that)
qed

lemma live_high: "kpool s ps \<Longrightarrow> unat x < 2 ^ 64 - 2 ^ 47 \<Longrightarrow> x \<notin> live ps"
proof
  assume K: "kpool s ps" and x: "unat x < 2 ^ 64 - 2 ^ 47" "x \<in> live ps"
  obtain Q where "Q \<in> set (map fst ps)" "unat (x - Q) < 4096" by (rule live_in_pools [OF K x(2)])
  moreover from this(1) have "pool_frame s Q" using K by (auto simp: kpool_def pool_ok_def)
  ultimately show False using pool_page_high [OF _ x(1)] by fastforce
qed

section \<open>Service\<close>

text \<open>
  A request is served when it returns data no block in use held, or NULL because no frame is left (then with interrupts disabled and nothing
  else changed); data in use and the pools stay as they were, nothing below the direct map is written, and a new pool's page was a free frame.
\<close>

definition served :: "kernel \<Rightarrow> (u64 \<times> blocks) list \<Rightarrow> u64 \<Rightarrow> u64 \<Rightarrow> kernel \<Rightarrow> bool" where
  "served s ps len a s' \<longleftrightarrow>
     (if a = 0 then avail_frames s = {} \<and> s' = s\<lparr>kcpu := disable_interrupts (kcpu s)\<rparr>
      else \<exists>ps'. kpool s' ps' \<and> kcpu s' = kcpu s \<and> (\<forall>x. unat x < 2 ^ 64 - 2 ^ 47 \<longrightarrow> kmem s' x = kmem s x) \<and>
        chunk ps' a (unat len) \<and> (\<forall>j < unat len. a + of_nat j \<notin> live ps) \<and>
        (\<forall>b L. chunk ps b L \<longrightarrow> chunk ps' b L) \<and> (\<forall>x \<in> live ps. kmem s' x = kmem s x) \<and>
        alloc_blocks (kpmm s) \<subseteq> alloc_blocks (kpmm s') \<and>
        (\<forall>Q \<in> set (map fst ps'). Q \<in> set (map fst ps) \<or> (\<exists>f \<in> avail_frames s. Q = phys_to_virt (push_bit 12 (of_nat f)))))"

lemma served_hit:
  assumes K: "kpool s (ts @ (Q, xs @ (n, False) # ys) # rs)" (is "kpool s ?ps") and len: "unat len \<le> 2 ^ 64 - 48" and L: "L = round16 (unat len)"
    and f: "no_fit L ts" "\<forall>b \<in> set xs. \<not> fits L b" "fits L (n, False)" and n: "n = L + 32 \<or> L + 56 \<le> n"
  shows "\<exists>a s'. kmalloc len s = Inr (a, s') \<and> served s ?ps len a s'"
proof -
  let ?ps' = "ts @ (Q, take_block L xs n ys) # rs" and ?a = "pool_first Q + of_nat (span xs + 24)"
  from kmalloc_hit [OF K f(1) [unfolded L] len f(2,3) [unfolded L] n [unfolded L]] obtain s' where
    s': "kmalloc len s = Inr (?a, s')" "kpool s' ?ps'"
      "\<forall>j < unat len. in_data (take_block L xs n ys) (span xs + 24 + j) \<and> \<not> in_data (xs @ (n, False) # ys) (span xs + 24 + j)"
      "\<forall>j. in_data (xs @ (n, False) # ys) j \<longrightarrow> kmem s' (pool_first Q + of_nat j) = kmem s (pool_first Q + of_nat j)"
      "\<forall>x. 4072 \<le> unat (x - pool_first Q) \<longrightarrow> kmem s' x = kmem s x" "kcpu s' = kcpu s" "kpmm s' = kpmm s"
    unfolding L [symmetric] by blast
  have more: "in_data (take_block L xs n ys) j" if "in_data (xs @ (n, False) # ys) j" for j
    using that f(3) by (auto simp: take_block_def in_data_append fits_def split: if_splits)
  have sub: "chunk ?ps' b l" if "chunk ?ps b l" for b l
    by (rule chunk_grow [OF that]) (use more in auto)
  have keep: "kmem s' x = kmem s x" if "x \<in> live ?ps" for x
    by (rule live_kept [OF K, where P = "\<lambda>_. True"]) (use that s'(4,5) in simp_all)
  have fresh: "?a + of_nat j \<notin> live ?ps" if "j < unat len" for j
  proof -
    define k where "k = span xs + 24 + j"
    have d: "in_data (take_block L xs n ys) k" "\<not> in_data (xs @ (n, False) # ys) k" using s'(3) that by (auto simp: k_def)
    have "span (take_block L xs n ys) = 4072" using s'(2) by (simp add: kpool_def pool_ok_def)
    then have k: "k < 4072" using in_data_bound [OF d(1)] by simp
    have "(Q, xs @ (n, False) # ys) \<in> set ?ps" by simp
    from live_iff [OF K this k] d have "pool_first Q + of_nat k \<notin> live ?ps" by blast
    moreover have "?a + of_nat j = pool_first Q + of_nat k" by (simp add: k_def add.assoc)
    ultimately show ?thesis by metis
  qed
  have "chunk ?ps' ?a (unat len)"
    unfolding chunk_def using s'(3) by (intro exI [of _ Q] exI [of _ "take_block L xs n ys"] exI [of _ "span xs + 24"]) simp
  moreover have "span xs + 24 < 4072" "arena (pool_first Q)" using K f(3) by (auto simp: kpool_def pool_ok_def pool_blocks_def fits_def)
  then have anz: "?a \<noteq> 0" by (intro arena_nonzero)
  moreover have "map fst ?ps' = map fst ?ps" by simp
  moreover have low: "kmem s' x = kmem s x" if "unat x < 2 ^ 64 - 2 ^ 47" for x
    using s'(5) outside_blocks [OF disjI2] pool_page_high [OF _ that, of s Q] K by (auto simp: kpool_def pool_ok_def)
  ultimately have "served s ?ps len ?a s'"
    unfolding served_def if_not_P [OF anz] using s'(2,6,7) sub keep fresh low by (intro exI [of _ ?ps'] conjI) (blast | simp only: | auto)+
  then show ?thesis using s'(1) by blast
qed

lemma served_grow:
  assumes K: "kpool s ps" and nf: "no_fit (round16 (unat len)) ps" and L: "round16 (unat len) \<le> 4016" and av: "avail_frames s \<noteq> {}"
  shows "\<exists>a s'. kmalloc len s = Inr (a, s') \<and> served s ps len a s'"
proof -
  from kmalloc_extend_live [OF assms] obtain f s' where
    s': "kmalloc len s = Inr (phys_to_virt (push_bit 12 (of_nat f)) + 48, s')"
      "kpool s' (ps @ [(phys_to_virt (push_bit 12 (of_nat f)), take_block (round16 (unat len)) [] 4072 [])])"
      "\<forall>x \<in> live ps. kmem s' x = kmem s x" "f \<in> avail_frames s" "kcpu s' = kcpu s"
      "alloc_blocks (kpmm s') = insert (f, 0) (alloc_blocks (kpmm s))" "\<forall>x. unat x < 2 ^ 64 - 2 ^ 47 \<longrightarrow> kmem s' x = kmem s x" by blast
  define P :: u64 where "P = phys_to_virt (push_bit 12 (of_nat f))"
  define new where "new = take_block (round16 (unat len)) [] 4072 []"
  have K': "kpool s' (ps @ [(P, new)])" using s'(2) by (simp add: P_def new_def)
  have nP: "(P, cs) \<notin> set ps" for cs using K' by (force simp: kpool_def)
  have a: "P + 48 = pool_first P + of_nat 24" by (simp add: pool_first_def SIZEOF_POOL_def)
  have d: "in_data new (24 + j)" "24 + j < 4072" if "j < unat len" for j
    using that L round16_bounds(1) [of "unat len"] by (auto simp: new_def take_block_def)
  have fresh: "P + 48 + of_nat j \<notin> live ps" if j: "j < unat len" for j
  proof
    assume "P + 48 + of_nat j \<in> live ps"
    then obtain R cs i where R: "(R, cs) \<in> set ps" "in_data cs i" "P + 48 + of_nat j = pool_first R + of_nat i" unfolding live_def by blast
    have "4096 \<le> unat (pool_first R + of_nat i - P)" using live_offset [OF K', of R cs i P] R(1,2) nP by (auto split: if_splits)
    then have "4096 \<le> unat (P + 48 + of_nat j - P)" unfolding R(3) .
    moreover have "P + 48 + of_nat j - P = of_nat (48 + j)" by simp
    moreover have "unat (of_nat (48 + j) :: u64) = 48 + j" using d(2) [OF j] by (intro unat_of_nat_small) simp
    ultimately show False using d(2) [OF j] by (simp only:)
  qed
  have "chunk (ps @ [(P, new)]) (P + 48) (unat len)"
    unfolding chunk_def a using d(1) by (intro exI [of _ P] exI [of _ new] exI [of _ 24]) simp
  moreover have "chunk ps b l \<Longrightarrow> chunk (ps @ [(P, new)]) b l" for b l by (erule chunk_grow) auto
  moreover have "arena (pool_first P)" using K' by (simp add: kpool_def pool_ok_def pool_blocks_def)
  then have "P + 48 \<noteq> 0" using arena_nonzero [of "pool_first P" 24] by (simp add: pool_first_def SIZEOF_POOL_def add.commute)
  ultimately have "served s ps len (P + 48) s'"
    unfolding served_def using K' s'(3-7) fresh by (simp, intro exI [of _ "ps @ [(P, new)]"]) (auto simp: P_def)
  then show ?thesis using s'(1) unfolding P_def by blast
qed

lemma kmalloc_served:
  assumes K: "kpool s ps" and room: "leaves_room (round16 (unat len)) ps" and L: "round16 (unat len) \<le> 4016"
  shows "\<exists>a s'. kmalloc len s = Inr (a, s') \<and> served s ps len a s'"
proof -
  have len: "unat len \<le> 2 ^ 64 - 48" using L round16_bounds(1) [of "unat len"] by simp
  consider (hit) "\<not> no_fit (round16 (unat len)) ps" | (grow) "no_fit (round16 (unat len)) ps" "avail_frames s \<noteq> {}"
    | (full) "no_fit (round16 (unat len)) ps" "avail_frames s = {}" by blast
  then show ?thesis
  proof cases
    case hit
    obtain ts Q xs n ys rs where ps: "ps = ts @ (Q, xs @ (n, False) # ys) # rs"
      and f: "no_fit (round16 (unat len)) ts" "\<forall>b \<in> set xs. \<not> fits (round16 (unat len)) b" "fits (round16 (unat len)) (n, False)"
      by (rule first_fit_exists [OF hit])
    have "n = round16 (unat len) + 32 \<or> round16 (unat len) + 56 \<le> n" using room f(3) by (auto simp: leaves_room_def ps)
    from served_hit [OF K [unfolded ps] len refl f this] show ?thesis unfolding ps .
  next
    case grow
    then show ?thesis by (intro served_grow K L)
  next
    case full
    have "served s ps len 0 (s\<lparr>kcpu := disable_interrupts (kcpu s)\<rparr>)"
      unfolding served_def using full(2) by simp
    then show ?thesis using kmalloc_full [OF K len full] by blast
  qed
qed

lemma kfree_memory: "kfree a s = Inr s' \<Longrightarrow> s' = s\<lparr>kmem := kmem s'\<rparr>"
  by (auto simp: kfree_free_mem split: if_splits)

lemma kfree_kept:
  assumes K: "kpool s (ts @ (Q, xs @ (n, True) # ys) # rs)" (is "kpool s ?ps") and "32 < n"
  shows "\<exists>s' ps'. kfree (pool_first Q + of_nat (span xs + 32)) s = Inr s' \<and> kpool s' ps' \<and>
    live ps' = live ?ps - {pool_first Q + of_nat j | j. span xs \<le> j \<and> j < span xs + n} \<and> (\<forall>x \<in> live ps'. kmem s' x = kmem s x) \<and>
    map fst ps' = map fst ?ps \<and> (\<forall>x. unat x < 2 ^ 64 - 2 ^ 47 \<longrightarrow> kmem s' x = kmem s x)"
proof -
  let ?ps' = "ts @ (Q, release_block xs n ys) # rs" and ?C = "{pool_first Q + of_nat j | j. span xs \<le> j \<and> j < span xs + n}"
  obtain s' where s': "kfree (pool_first Q + of_nat (span xs + 32)) s = Inr s'" "kpool s' ?ps'"
      "\<forall>x. 4072 \<le> unat (x - pool_first Q) \<longrightarrow> kmem s' x = kmem s x"
      "\<forall>j. in_data (release_block xs n ys) j \<longrightarrow> kmem s' (pool_first Q + of_nat j) = kmem s (pool_first Q + of_nat j)"
    using kfree_block [OF assms] by blast
  have sp: "span (xs @ (n, True) # ys) = 4072" using K by (simp add: kpool_def pool_ok_def)
  have sub: "live ?ps' \<subseteq> live ?ps" unfolding live_def using in_data_release [of xs n ys] by fastforce
  have kept: "kmem s' x = kmem s x" if x: "x \<in> live ?ps'" for x
  proof (rule live_kept [OF K, where P = "in_data (release_block xs n ys)"])
    fix j assume e: "x = pool_first Q + of_nat j" "in_data (xs @ (n, True) # ys) j"
    have "j < 4072" "(Q, release_block xs n ys) \<in> set ?ps'" using in_data_bound [OF e(2)] sp by simp_all
    with live_iff [OF s'(2)] x e(1) show "in_data (release_block xs n ys) j" by blast
  qed (use sub x s'(3,4) in auto)
  have "x \<in> live ?ps' \<longleftrightarrow> x \<in> live ?ps - ?C" for x
  proof (cases "\<exists>j < 4072. x = pool_first Q + of_nat j")
    case True
    then obtain j where j: "j < 4072" "x = pool_first Q + of_nat j" by blast
    have inj: "j' = j" if "pool_first Q + of_nat j = pool_first Q + of_nat j'" "j' < 4072" for j'
    proof -
      have "unat (of_nat j' :: u64) = unat (of_nat j :: u64)" using that(1) by simp
      then show ?thesis using j(1) that(2) by (simp add: unat_of_nat_small)
    qed
    have "x \<in> ?C \<longleftrightarrow> span xs \<le> j \<and> j < span xs + n"
      using inj sp j(2) by (force intro!: exI [of _ j])
    moreover have "(Q, release_block xs n ys) \<in> set ?ps'" "(Q, xs @ (n, True) # ys) \<in> set ?ps" by simp_all
    ultimately show ?thesis
      using live_iff [OF s'(2) _ j(1)] live_iff [OF K _ j(1)] in_data_release [of xs n ys j] unfolding j(2) by blast
  next
    case False
    have "in_data (release_block xs n ys) j \<or> in_data (xs @ (n, True) # ys) j \<Longrightarrow> j < 4072" for j
      using in_data_bound [of "xs @ (n, True) # ys" j] sp by (auto simp: in_data_release)
    then have "x \<notin> live [(Q, release_block xs n ys)]" "x \<notin> live [(Q, xs @ (n, True) # ys)]"
      using False unfolding live_def by auto
    moreover have "x \<notin> ?C"
    proof
      assume "x \<in> ?C"
      then obtain j where "x = pool_first Q + of_nat j" "j < span xs + n" by blast
      moreover have "span xs + n \<le> 4072" using sp by simp
      ultimately show False using False order_less_le_trans by blast
    qed
    moreover have "live (q # rs) = live [q] \<union> live rs" for q :: "u64 \<times> blocks" using live_append [of "[q]" rs] by simp
    ultimately show ?thesis using live_append [of ts "(Q, release_block xs n ys) # rs"] live_append [of ts "(Q, xs @ (n, True) # ys) # rs"] by blast
  qed
  then have "live ?ps' = live ?ps - ?C" by blast
  moreover have "kmem s' x = kmem s x" if "unat x < 2 ^ 64 - 2 ^ 47" for x
    using s'(3) outside_blocks [OF disjI2] pool_page_high [OF _ that, of s Q] K by (auto simp: kpool_def pool_ok_def)
  moreover have "map fst ?ps' = map fst ?ps" by simp
  ultimately show ?thesis using s'(1,2) kept by blast
qed

section \<open>The block lists are determined by memory\<close>

lemma hdr_inject: "n < 2 ^ 63 \<Longrightarrow> k < 2 ^ 63 \<Longrightarrow> hdr n u = hdr k v \<Longrightarrow> n = k \<and> u = v"
proof -
  assume a: "n < 2 ^ 63" "k < 2 ^ 63" "hdr n u = hdr k v"
  then have "u = v" using hdr_used [of n u] hdr_used [of k v] by simp
  moreover have "unat (of_nat n :: u64) = unat (of_nat k :: u64)" using hdr_len [of n u] hdr_len [of k v] a by simp
  ultimately show ?thesis using a(1,2) by (simp add: unat_of_nat_small)
qed

lemma chain_unique:
  assumes "chain m B off p bs 0" and "chain m B off p cs 0" and "arena B" and "off + span bs = 4072" and "off + span cs = 4072"
  shows "bs = cs"
  using assms
proof (induction bs arbitrary: off p cs)
  case Nil
  then show ?case using length_chain [of m B off p cs 0] by simp
next
  case (Cons b bs)
  obtain n u where b: "b = (n, u)" by force
  have c: "24 \<le> n" "b_header m (B + of_nat off) = hdr n u" "chain m B (off + n) (B + of_nat off) bs 0" using Cons.prems(1) by (simp_all add: b)
  obtain k v ds where cs: "cs = (k, v) # ds" using Cons.prems(4,5) c(1) by (cases cs) (auto simp: b)
  have d: "b_header m (B + of_nat off) = hdr k v" "chain m B (off + k) (B + of_nat off) ds 0" using Cons.prems(2) by (simp_all add: cs)
  have "n < 2 ^ 63" "k < 2 ^ 63" using Cons.prems(4,5) by (simp_all add: b cs)
  then have "n = k" "u = v" using hdr_inject c(2) d(1) by metis+
  moreover have "bs = ds" using Cons.IH [OF c(3)] d(2) Cons.prems(3-5) \<open>n = k\<close> by (simp add: b cs add.assoc)
  ultimately show ?case by (simp add: b cs)
qed

lemma links_unique: "links m (Q # qs) \<Longrightarrow> links m (Q # rs) \<Longrightarrow> 0 \<notin> set qs \<Longrightarrow> 0 \<notin> set rs \<Longrightarrow> qs = rs"
proof (induction qs arbitrary: Q rs)
  case Nil
  then show ?case by (cases rs) auto
next
  case (Cons q qs)
  then obtain r rs' where "rs = r # rs'" by (cases rs) auto
  with Cons show ?case by auto
qed

lemma kpool_nonzero: "kpool s ps \<Longrightarrow> q \<in> set ps \<Longrightarrow> fst q \<noteq> 0"
  using pool_frame_nonzero [of s "fst q"] by (auto simp: kpool_def pool_ok_def)

lemma kpool_unique:
  assumes "kpool s ps" and "kpool s qs"
  shows "ps = qs"
proof -
  have nz: "0 \<notin> set (map fst ps)" "0 \<notin> set (map fst qs)" using kpool_nonzero [OF assms(1)] kpool_nonzero [OF assms(2)] by auto
  obtain p ps' q qs' where e: "ps = p # ps'" "qs = q # qs'" using assms by (cases ps; cases qs) (auto simp: kpool_def)
  have "map fst ps' = map fst qs'" by (rule links_unique [of "kmem s" "fst p"]) (use assms e nz in \<open>auto simp: kpool_def\<close>)
  then have m: "map fst ps = map fst qs" using assms e by (auto simp: kpool_def)
  show ?thesis
  proof (rule nth_equalityI)
    show len: "length ps = length qs" using m by (metis length_map)
    fix i assume i: "i < length ps"
    have "pool_ok s (ps ! i)" "pool_ok s (qs ! i)" using assms i len by (auto simp: kpool_def)
    moreover have "fst (ps ! i) = fst (qs ! i)" using m i len by (metis nth_map)
    ultimately have "snd (ps ! i) = snd (qs ! i)"
      by (intro chain_unique [of "kmem s" "pool_first (fst (ps ! i))" 0 0]) (auto simp: pool_ok_def pool_blocks_def)
    with \<open>fst (ps ! i) = fst (qs ! i)\<close> show "ps ! i = qs ! i" by (simp add: prod_eq_iff)
  qed
qed

section \<open>Clients of the heap as steps\<close>

text \<open>A client asks for memory with a sound request, or gives back a block in use, by the address 32 bytes after the block's header.\<close>

inductive heap_step :: "kernel \<Rightarrow> kernel \<Rightarrow> bool" where
  step_malloc: "kpool s ps \<Longrightarrow> leaves_room (round16 (unat len)) ps \<Longrightarrow> round16 (unat len) \<le> 4016 \<Longrightarrow>
    kmalloc len s = Inr (a, s') \<Longrightarrow> heap_step s s'"
| step_mfree: "kpool s (ts @ (Q, xs @ (n, True) # ys) # rs) \<Longrightarrow> 32 < n \<Longrightarrow>
    kfree (pool_first Q + of_nat (span xs + 32)) s = Inr s' \<Longrightarrow> heap_step s s'"

definition heap_ok :: "kernel \<Rightarrow> bool" where "heap_ok s \<longleftrightarrow> (\<exists>ps. kpool s ps)"

lemma heap_step_ok:
  assumes "heap_step s s'"
  shows "heap_ok s'"
  using assms
proof (cases rule: heap_step.cases)
  case (step_malloc ps len a)
  from kmalloc_served [OF step_malloc(1-3)] step_malloc(4) have "served s ps len a s'" by simp
  with step_malloc(1) show ?thesis by (auto simp: served_def heap_ok_def split: if_splits)
next
  case (step_mfree ts Q xs n ys rs)
  from kfree_kept [OF step_mfree(1,2)] step_mfree(3) show ?thesis by (auto simp: heap_ok_def)
qed

interpretation heap: transition_system heap_step heap_ok
  by unfold_locales (rule heap_step_ok)

section \<open>A remainder without room for its header\<close>

text \<open>In a fresh page, 4032 bytes leave 8 bytes behind the block, where \<open>divide\<close> writes a header of 24 bytes.\<close>

lemma divide_beyond_page:
  assumes h: "b_header m B = hdr 4072 False" "b_next m B = 0" and B: "arena B"
  shows "\<exists>m'. allocate B 4032 m = Inr (B + 24, m') \<and> load64 m' (B + 4072) = 0 \<and> load64 m' (B + 4080) = B"
proof -
  have l: "GET_BLOCK_LEN (b_header m B) = 4072" "\<not> IS_BLOCK_USED (b_header m B)" unfolding h(1) by (simp_all add: hdr_len hdr_used)
  have ne: "\<not> GET_BLOCK_LEN (b_header m B) \<le> 4032 + SIZEOF_BLOCK" by (simp add: l(1) SIZEOF_BLOCK_def)
  have e0: "B + 4032 + SIZEOF_BLOCK = B + 4064" and e1: "B + 4064 + 8 = B + 4072" "B + 4064 + 16 = B + 4080" by (simp_all add: SIZEOF_BLOCK_def)
  have nz: "B \<noteq> 0" using B by (auto simp: arena_def)
  have al: "align_up_mask 4032 15 = 4032" by (simp add: align_up_mask_def)
  define m6 where "m6 = store64 (store64 (store64 (store64 (store64 m (B + of_nat 4064) 8) (B + of_nat 0) 4064) (B + of_nat 8) (B + of_nat 4064))
    (B + of_nat 4072) 0) (B + of_nat 4080) B"
  have d: "divide B 4032 m = (True, m6)"
    unfolding divide_def if_not_P [OF ne] Let_def e0 set_header_def set_bnext_def set_bprev_def e1 l(1) h(2) m6_def
    by (simp add: SIZEOF_BLOCK_def)
  have l6: "load64 m6 (B + of_nat 4072) = 0" "load64 m6 (B + of_nat 4080) = B"
    unfolding m6_def by (simp_all add: load_store_offset del: of_nat_numeral)
  have first: "load64 (store64 m6 (B + of_nat 0) v) (B + of_nat k) = w" if "8 \<le> k" "k < 8192" "load64 m6 (B + of_nat k) = w" for k v w
    using that load_store_offset [of 0 k m6 B v] by (simp del: of_nat_0)
  have fb: "find_block (2 ^ 64) B 4032 m = Inr B"
    using l nz by (subst find_block.simps) (simp add: SIZEOF_BLOCK_def)
  have big: "(GET_BLOCK_LEN (b_header m B) - SIZEOF_BLOCK > 4032) = True" unfolding l(1) by (simp add: SIZEOF_BLOCK_def)
  have "allocate B 4032 m = Inr (B + 24, store64 m6 (B + of_nat 0) (b_header m6 B OR BLOCK_USED))"
    unfolding allocate_def al Let_def fb rbind.simps big if_True d snd_conv set_header_def using nz l(2) by (simp add: BLOCK_DATA_def)
  moreover have "load64 (store64 m6 (B + of_nat 0) v) (B + of_nat 4072) = 0" for v by (rule first [OF _ _ l6(1)]) simp_all
  moreover have "load64 (store64 m6 (B + of_nat 0) v) (B + of_nat 4080) = B" for v by (rule first [OF _ _ l6(2)]) simp_all
  ultimately show ?thesis by simp
qed

section \<open>Properties of the heap\<close>

text \<open>C6. Heap safety: in every state that sound requests and releases reach from \<open>init_pool\<close> (on a valid frame allocator of at most \<open>2 ^ 35\<close> frames, one of them free),
  the pools are well formed; a request of at most 4016 bytes after rounding is sound when every free block that fits leaves nothing or room for a header, a release when it
  is by the address 32 bytes after the header of a block in use with data. A sound request returns, with a block whose bytes no block in use held, or with NULL when no frame is left; a sound release returns and
  removes exactly that block; and neither changes a byte of data that stays in use.\<close>

theorem heap_reachable_safe:
  assumes "pmm_inv (kpmm s0)" and "mm_frames_count (kpmm s0) \<le> 2 ^ 35" and "avail_frames s0 \<noteq> {}"
    and "init_pool s0 = Inr (True, s1)" and "heap_step\<^sup>*\<^sup>* s1 s"
  shows "\<exists>ps. kpool s ps \<and>
    (\<forall>len. leaves_room (round16 (unat len)) ps \<and> round16 (unat len) \<le> 4016 \<longrightarrow>
       (\<exists>a s'. kmalloc len s = Inr (a, s') \<and> served s ps len a s')) \<and>
    (\<forall>ts Q xs n ys rs. ps = ts @ (Q, xs @ (n, True) # ys) # rs \<and> 32 < n \<longrightarrow>
       (\<exists>s' ps'. kfree (pool_first Q + of_nat (span xs + 32)) s = Inr s' \<and> kpool s' ps' \<and>
          live ps' = live ps - {pool_first Q + of_nat j | j. span xs \<le> j \<and> j < span xs + n} \<and>
          (\<forall>x \<in> live ps'. kmem s' x = kmem s x)))"
proof -
  have "heap_ok s1" using init_pool_ok [OF assms(1-3)] assms(4) by (auto simp: heap_ok_def)
  then have "heap_ok s" by (rule heap.run_inv [OF assms(5)])
  then obtain ps where K: "kpool s ps" by (auto simp: heap_ok_def)
  show ?thesis
  proof (intro exI [of _ ps] conjI allI impI)
    show "kpool s ps" by (rule K)
    show "\<exists>a s'. kmalloc len s = Inr (a, s') \<and> served s ps len a s'"
      if "leaves_room (round16 (unat len)) ps \<and> round16 (unat len) \<le> 4016" for len
      using kmalloc_served [OF K] that by blast
    show "\<exists>s' ps'. kfree (pool_first Q + of_nat (span xs + 32)) s = Inr s' \<and> kpool s' ps' \<and>
        live ps' = live ps - {pool_first Q + of_nat j | j. span xs \<le> j \<and> j < span xs + n} \<and> (\<forall>x \<in> live ps'. kmem s' x = kmem s x)"
      if "ps = ts @ (Q, xs @ (n, True) # ys) # rs \<and> 32 < n" for ts Q xs n ys rs
      using kfree_kept [of s ts Q xs n ys rs] K that by auto
  qed
qed

theorem heap_reachable_safe_witness:
  "\<exists>s1 s a s' ps. init_pool demo_kernel = Inr (True, s1) \<and> heap_step s1 s \<and> kpool s ps \<and> kmalloc 16 s = Inr (a, s') \<and> a \<noteq> 0 \<and>
    a \<notin> live ps"
proof -
  obtain s1 Q where s1: "init_pool demo_kernel = Inr (True, s1)" "kpool s1 [(Q, [(4072, False)])]" "card (avail_frames s1) = 2" by (rule demo_pool)
  have r: "round16 100 = 112" "round16 16 = 16" by (simp_all add: round16_def)
  have room: "leaves_room 112 [(Q, [(4072, False)])]" by (simp add: leaves_room_def)
  from s1(2) kmalloc_hit [of s1 "[]" Q "[]" 4072 "[]" "[]" 100] obtain s where s: "kmalloc 100 s1 = Inr (pool_first Q + 24, s)"
      "kpool s [(Q, [(144, True), (3928, False)])]" "avail_frames s = avail_frames s1"
    by (auto simp: no_fit_def fits_def r take_block_def)
  have step: "heap_step s1 s" using s1(2) room s(1) by (intro step_malloc [of s1 "[(Q, [(4072, False)])]" 100]) (simp_all add: r)
  obtain ps where ps: "kpool s ps" and serve: "\<forall>len. leaves_room (round16 (unat len)) ps \<and> round16 (unat len) \<le> 4016 \<longrightarrow>
       (\<exists>a s'. kmalloc len s = Inr (a, s') \<and> served s ps len a s')"
    using heap_reachable_safe [OF demo_pool_hyps s1(1) r_into_rtranclp [of heap_step, OF step]] by blast
  have "ps = [(Q, [(144, True), (3928, False)])]" by (rule kpool_unique [OF ps s(2)])
  then have "leaves_room 16 ps" by (simp add: leaves_room_def fits_def)
  then obtain a s' where a: "kmalloc 16 s = Inr (a, s')" "served s ps 16 a s'" using serve [rule_format, of 16] by (auto simp: r)
  have "avail_frames s \<noteq> {}" using s(3) s1(3) by auto
  then have "a \<noteq> 0" using a(2) by (auto simp: served_def split: if_splits)
  then have "\<forall>j < unat (16 :: u64). a + of_nat j \<notin> live ps" using a(2) by (auto simp: served_def)
  then have "a + of_nat 0 \<notin> live ps" by (rule allE [of _ 0]) simp
  then show ?thesis using s1(1) step ps a(1) \<open>a \<noteq> 0\<close> by auto
qed

text \<open>C37. Requests that leave a remainder of 8 bytes damage the next page: with one fresh pool, \<open>kmalloc(4032)\<close> succeeds, and the
  links of the remainder's header overwrite the first 16 bytes of the page behind the pool, which the pool does not own.\<close>

theorem kmalloc_writes_beyond_page:
  assumes "kpool s [(Q, [(4072, False)])]"
  shows "\<exists>s'. kmalloc 4032 s = Inr (pool_first Q + 24, s') \<and> load64 (kmem s') (Q + 4096) = 0 \<and> load64 (kmem s') (Q + 4104) = pool_first Q"
proof -
  have P: "pool_blocks (kmem s) (pool_first Q) [(4072, False)]" and Q: "pools s = Q" "Q \<noteq> 0"
    using assms pool_frame_nonzero by (auto simp: kpool_def pool_ok_def)
  then have "b_header (kmem s) (pool_first Q) = hdr 4072 False" "b_next (kmem s) (pool_first Q) = 0" "arena (pool_first Q)"
    by (simp_all add: pool_blocks_def)
  from divide_beyond_page [OF this] obtain m' where m': "allocate (pool_first Q) 4032 (kmem s) = Inr (pool_first Q + 24, m')"
    "load64 m' (pool_first Q + 4072) = 0" "load64 m' (pool_first Q + 4080) = pool_first Q" by blast
  have "pool_first Q + 24 \<noteq> 0" using arena_nonzero [of "pool_first Q" 24] P by (simp add: pool_blocks_def)
  moreover have "pool_first Q + 4072 = Q + 4096" "pool_first Q + 4080 = Q + 4104" by (simp_all add: pool_first_def SIZEOF_POOL_def)
  moreover have "kmalloc_loop (2 ^ 65) Q 4032 (s\<lparr>kcpu := disable_interrupts (kcpu s)\<rparr>) =
      Inr (Some (pool_first Q + 24), s\<lparr>kcpu := disable_interrupts (kcpu s), kmem := m'\<rparr>)"
    using m'(1) Q(2) calculation(1) by (subst kmalloc_loop.simps) simp
  ultimately show ?thesis using m'(2,3) Q(1) by (simp add: kmalloc_def save_and_disable_interrupts_def ac_simps)
qed

theorem kmalloc_writes_beyond_page_witness:
  "\<exists>s Q s'. init_pool demo_kernel = Inr (True, s) \<and> kmalloc 4032 s = Inr (pool_first Q + 24, s') \<and> load64 (kmem s') (Q + 4104) = pool_first Q"
proof -
  obtain s Q where s: "init_pool demo_kernel = Inr (True, s)" "kpool s [(Q, [(4072, False)])]" by (rule demo_pool)
  from kmalloc_writes_beyond_page [OF s(2)] s(1) show ?thesis by blast
qed

end
