(* ===== verification/Vmm.thy ===== *)
theory Vmm
  imports Pool
begin

text \<open>
  The virtual memory manager of \<open>mm/vmm.c\<close>: four-level page tables in byte memory, reached
  through the direct map. A table is the physical address of its page and an entry is the 64-bit
  word at its index. Functions that only read \<open>mm->pml4\<close> take the record \<open>mm\<close>; those for which
  the address of the object matters take the pointer.
\<close>

record mm =
  pml4 :: u64

definition entry_addr :: "phys_addr \<Rightarrow> u64 \<Rightarrow> u64" where
  "entry_addr table i = phys_to_virt table + 8 * i"

definition entry :: "mem \<Rightarrow> phys_addr \<Rightarrow> u64 \<Rightarrow> u64" where
  "entry m table i = load64 m (entry_addr table i)"

definition present :: "u64 \<Rightarrow> bool" where
  "present e \<longleftrightarrow> e AND PAGE_PRESENT \<noteq> 0"

section \<open>Translation\<close>

definition virt_to_phys :: "mem \<Rightarrow> mm \<Rightarrow> virt_addr \<Rightarrow> phys_addr" where
  "virt_to_phys m mm virt =
     (let ppml4 = pml4 mm AND PAGE_MASK in
      if \<not> present (entry m ppml4 (PML4_INDEX virt)) then INVALID_ADDRESS else
      let ppdpt = entry m ppml4 (PML4_INDEX virt) AND PAGE_MASK in
      if \<not> present (entry m ppdpt (PDPT_INDEX virt)) then INVALID_ADDRESS else
      let ppd = entry m ppdpt (PDPT_INDEX virt) AND PAGE_MASK in
      if \<not> present (entry m ppd (PD_INDEX virt)) then INVALID_ADDRESS else
      let ppt = entry m ppd (PD_INDEX virt) AND PAGE_MASK in
      if \<not> present (entry m ppt (PT_INDEX virt)) then INVALID_ADDRESS
      else (entry m ppt (PT_INDEX virt) AND PAGE_MASK) + PAGE_OFFSET virt)"

definition init_kernel_mm :: "'e list \<Rightarrow> kernel \<Rightarrow> kernel" where
  "init_kernel_mm entries s = s"

section \<open>Mapping\<close>

text \<open>
  One level of \<open>map_page\<close>: when the entry is absent a frame is allocated, stored in the entry and
  cleared, and the entry gets its permission bits. The result is the next table.
\<close>

definition ensure_table :: "phys_addr \<Rightarrow> u64 \<Rightarrow> kernel \<Rightarrow> (phys_addr \<times> kernel) res" where
  "ensure_table table i s =
     (let a = entry_addr table i in
      if \<not> present (load64 (kmem s) a) then
        rbind (alloc_frames 0 (kpmm s)) (\<lambda>(page, pm).
          rbind (zero_page (store64 (kmem s) a page) page) (\<lambda>m2.
          let m3 = store64 m2 a (load64 m2 a OR ((PAGE_PRESENT OR PAGE_WRITABLE) OR PAGE_USER))
          in Inr (load64 m3 a AND NOT 0xFFF, s\<lparr>kmem := m3, kpmm := pm\<rparr>)))
      else Inr (load64 (kmem s) a AND NOT 0xFFF, s))"

definition map_page :: "mm \<Rightarrow> phys_addr \<Rightarrow> virt_addr \<Rightarrow> u32 \<Rightarrow> kernel \<Rightarrow> (bool \<times> kernel) res" where
  "map_page mm frame page attr s =
     rbind (ensure_table (pml4 mm) (PML4_INDEX page) s) (\<lambda>(ppdpt, s1).
     rbind (ensure_table ppdpt (PDPT_INDEX page) s1) (\<lambda>(ppd, s2).
     rbind (ensure_table ppd (PD_INDEX page) s2) (\<lambda>(ppt, s3).
       let a = entry_addr ppt (PT_INDEX page) in
       if present (load64 (kmem s3) a) then Inr (False, s3)
       else Inr (True, s3\<lparr>kmem := store64 (kmem s3) a (frame OR ucast attr)\<rparr>))))"

definition unmap_page :: "mm \<Rightarrow> virt_addr \<Rightarrow> mem \<Rightarrow> phys_addr \<times> mem" where
  "unmap_page mm page m =
     (let e4 = entry m (pml4 mm) (PML4_INDEX page) in
      if \<not> present e4 then (INVALID_ADDRESS, m) else
      let e3 = entry m (e4 AND NOT 0xFFF) (PDPT_INDEX page) in
      if \<not> present e3 then (INVALID_ADDRESS, m) else
      let e2 = entry m (e3 AND NOT 0xFFF) (PD_INDEX page) in
      if \<not> present e2 then (INVALID_ADDRESS, m) else
      let ppt = e2 AND NOT 0xFFF; e1 = entry m ppt (PT_INDEX page) in
      if \<not> present e1 then (INVALID_ADDRESS, m)
      else (e1 AND NOT 0xFFF, store64 m (entry_addr ppt (PT_INDEX page)) 0))"

section \<open>Address spaces\<close>

text \<open>\<open>for (int i = lo; i < hi; i++) user_pml4[i] = kernel_pml4[i];\<close>\<close>

definition copy_entries :: "phys_addr \<Rightarrow> phys_addr \<Rightarrow> nat \<Rightarrow> nat \<Rightarrow> mem \<Rightarrow> mem" where
  "copy_entries upml4 kpml4 lo hi m =
     fold (\<lambda>i m. store64 m (entry_addr upml4 (of_nat i)) (entry m kpml4 (of_nat i))) [lo..<hi] m"

definition map_kernel_for_user_mm :: "mm \<Rightarrow> kernel \<Rightarrow> kernel" where
  "map_kernel_for_user_mm mm s = s\<lparr>kmem := copy_entries (pml4 mm) (kernel_mm s) 256 512 (kmem s)\<rparr>"

definition create_mm :: "kernel \<Rightarrow> (u64 \<times> kernel) res" where
  "create_mm s =
     rbind (alloc_frames 0 (kpmm s)) (\<lambda>(pml4_page, pm).
     let s1 = s\<lparr>kpmm := pm\<rparr> in
     if pml4_page = INVALID_ADDRESS then Inr (0, s1)
     else
       rbind (kmalloc 8 s1) (\<lambda>(mm, s2).
       if mm = 0 then rbind (free_frame pml4_page (kpmm s2)) (\<lambda>pm'. Inr (0, s2\<lparr>kpmm := pm'\<rparr>))
       else rbind (zero_page (kmem s2) pml4_page) (\<lambda>m. Inr (mm, s2\<lparr>kmem := store64 m mm pml4_page\<rparr>))))"

definition swap_mm :: "u64 \<Rightarrow> kernel \<Rightarrow> kernel" where
  "swap_mm mm s =
     (if mm = 0 \<or> current_mm s = mm then s
      else s\<lparr>current_mm := mm, kcpu := write_cr3 (load64 (kmem s) mm) (kcpu s)\<rparr>)"

text \<open>
  \<open>free_page_table\<close>: entries \<open>i\<close> to 511 of a table of the given level (0 for a table whose entries
  are pages), then the table itself. Freeing changes the frame allocator, not memory.
\<close>

function free_page_table :: "phys_addr \<Rightarrow> nat \<Rightarrow> mem \<Rightarrow> pmm \<Rightarrow> pmm res"
  and free_entries :: "phys_addr \<Rightarrow> nat \<Rightarrow> nat \<Rightarrow> mem \<Rightarrow> pmm \<Rightarrow> pmm res" where
  "free_page_table table level m pm =
     rbind (free_entries table level 0 m pm) (\<lambda>pm1. free_frame table pm1)"
| "free_entries table level i m pm =
     (if i < 512 then
        if \<not> present (entry m table (of_nat i)) then free_entries table level (i + 1) m pm
        else
          let child = entry m table (of_nat i) AND PAGE_MASK in
          rbind (if level > 0 then free_page_table child (level - 1) m pm else free_frame child pm)
            (\<lambda>pm1. free_entries table level (i + 1) m pm1)
      else Inr pm)"
  by pat_completeness auto
termination
  by (relation "inv_image (less_than <*lex*> less_than)
        (\<lambda>x. case x of Inl (t, l, m, pm) \<Rightarrow> (l, 513) | Inr (t, l, i, m, pm) \<Rightarrow> (l, 512 - i))")
    auto

declare free_page_table.simps [simp del] free_entries.simps [simp del]

definition delete_mm :: "u64 \<Rightarrow> kernel \<Rightarrow> kernel res" where
  "delete_mm mm s =
     rbind (free_page_table (load64 (kmem s) mm) 3 (kmem s) (kpmm s)) (\<lambda>pm.
     kfree mm (s\<lparr>kpmm := pm\<rparr>))"

end
