(* ===== verification/Vmm_Spec.thy ===== *)
theory Vmm_Spec
  imports Vmm Pages
begin

text \<open>
  Page tables as a map. \<open>tbl\<close> follows present entries from a root; \<open>pmap\<close> is the leaf entry of a
  page; an address space is well formed when its tables are distinct pages of the direct map owned
  by the frame allocator. On well-formed spaces \<open>map_page\<close> and \<open>unmap_page\<close> are updates of the
  abstract map, \<open>virt_to_phys\<close> reads it, and no byte outside the tables changes.
\<close>

section \<open>Words of an entry\<close>

lemma index_bound:
  "PML4_INDEX v < 512" "PDPT_INDEX v < 512" "PD_INDEX v < 512" "PT_INDEX v < 512"
proof -
  have *: "x AND 0x1FF < (512 :: u64)" for x
    by (simp add: word_less_nat_alt mask_numerals(2) unat_and_mask)
  show "PML4_INDEX v < 512" "PDPT_INDEX v < 512" "PD_INDEX v < 512" "PT_INDEX v < 512"
    by (simp_all add: PML4_INDEX_def PDPT_INDEX_def PD_INDEX_def PT_INDEX_def *)
qed

lemma entry_addr_offset:
  "entry_addr t i = KERNEL_DIRECT_BASE + of_nat (unat t + 8 * unat i)"
  by (simp add: entry_addr_def phys_to_virt_def)

lemma entry_offset_bound:
  assumes "page_ok t" and "i < (512 :: u64)"
  shows "unat t + 8 * unat i + 8 \<le> 2 ^ 47" and "unat i < 512"
  using assms by (auto simp: page_ok_def word_less_nat_alt)

lemma entries_apart:
  assumes "page_ok t" and "page_ok u" and "i < 512" and "j < 512" and "(t, i) \<noteq> (u, j)"
  shows "apart 8 (entry_addr t i) (entry_addr u j)"
proof -
  note b = entry_offset_bound [OF assms(1,3)] entry_offset_bound [OF assms(2,4)]
  have "unat t + 8 * unat i + 8 \<le> unat u + 8 * unat j \<or> unat u + 8 * unat j + 8 \<le> unat t + 8 * unat i"
  proof (cases "t = u")
    case True
    with assms(5) have "unat i \<noteq> unat j" using unsigned_word_eqI by blast
    with True show ?thesis by auto
  next
    case False
    with pages_apart [OF assms(1,2)] b show ?thesis by linarith
  qed
  with b show ?thesis
    unfolding entry_addr_offset by (intro apart_offsets) simp_all
qed

lemma entry_store:
  assumes "page_ok t" and "page_ok u" and "i < 512" and "j < 512"
  shows "entry (store64 m (entry_addr t i) v) u j = (if (t, i) = (u, j) then v else entry m u j)"
  using entries_apart [OF assms] by (auto simp: entry_def m64.load_store_same m64.load_store_apart)

lemma entry_zero_page:
  assumes "page_ok t" and "page_ok u" and "j < 512"
  shows "entry (zeroed_page m t) u j = (if t = u then 0 else entry m u j)"
proof -
  have a: "unat (entry_addr u j - phys_to_virt t) =
      (if unat t \<le> unat u + 8 * unat j then unat u + 8 * unat j - unat t
       else 2 ^ 64 - (unat t - (unat u + 8 * unat j)))"
    unfolding entry_addr_offset phys_to_virt_def
    using unat_offset_diff [of "unat u + 8 * unat j" "unat t" KERNEL_DIRECT_BASE] assms
      entry_offset_bound [OF assms(2,3)]
    by (simp add: add.commute page_ok_def)
  show ?thesis
  proof (cases "t = u")
    case True
    then show ?thesis
      using a entry_offset_bound [OF assms(2,3)] by (simp add: entry_def load_word_zero_page)
  next
    case False
    have "entry (zeroed_page m t) u j = entry m u j"
      unfolding entry_def
    proof (rule load_word_zero_page_other)
      fix y assume y: "unat (y - entry_addr u j) < LENGTH(64) div 8"
      define k where "k = unat (y - entry_addr u j)"
      have "y = entry_addr u j + of_nat k" by (simp add: k_def)
      then have y': "y = KERNEL_DIRECT_BASE + of_nat (unat u + 8 * unat j + k)"
        by (simp add: entry_addr_offset)
      have t': "phys_to_virt t = KERNEL_DIRECT_BASE + of_nat (unat t)"
        by (simp add: phys_to_virt_def)
      have "k < 8" using y by (simp add: k_def)
      then show "4096 \<le> unat (y - phys_to_virt t)"
        unfolding y' t' using pages_apart [OF assms(1,2) False] entry_offset_bound [OF assms(2,3)] assms(1)
        by (subst unat_offset_diff) (auto simp: page_ok_def)
    qed simp_all
    with False show ?thesis by simp
  qed
qed

section \<open>Tables and the abstract map\<close>

fun tbl :: "mem \<Rightarrow> phys_addr \<Rightarrow> u64 list \<Rightarrow> phys_addr option" where
  "tbl m t [] = Some t"
| "tbl m t (i # p) = (if present (entry m t i) then tbl m (entry m t i AND PAGE_MASK) p else None)"

definition dir_path :: "virt_addr \<Rightarrow> u64 list" where
  "dir_path v = [PML4_INDEX v, PDPT_INDEX v, PD_INDEX v]"

definition pmap :: "mem \<Rightarrow> phys_addr \<Rightarrow> virt_addr \<Rightarrow> u64 option" where
  "pmap m root v =
     (case tbl m root (dir_path v) of None \<Rightarrow> None
      | Some t \<Rightarrow> let e = entry m t (PT_INDEX v) in if present e then Some e else None)"

definition same_page :: "virt_addr \<Rightarrow> virt_addr \<Rightarrow> bool" where
  "same_page u v \<longleftrightarrow> dir_path u = dir_path v \<and> PT_INDEX u = PT_INDEX v"

definition path_ok :: "u64 list \<Rightarrow> bool" where
  "path_ok p \<longleftrightarrow> length p \<le> 3 \<and> (\<forall>i \<in> set p. i < 512)"

definition in_tables :: "mem \<Rightarrow> phys_addr \<Rightarrow> u64 \<Rightarrow> bool" where
  "in_tables m root x \<longleftrightarrow> (\<exists>p t. path_ok p \<and> tbl m root p = Some t \<and> in_page x t)"

definition free_frames :: "kernel \<Rightarrow> nat set" where
  "free_frames s = cover (free_blocks (kpmm s))"

definition vm_inv :: "kernel \<Rightarrow> phys_addr \<Rightarrow> bool" where
  "vm_inv s root \<longleftrightarrow>
     pmm_inv (kpmm s) \<and> mm_frames_count (kpmm s) \<le> 2 ^ 35 \<and>
     (\<forall>p t. path_ok p \<longrightarrow> tbl (kmem s) root p = Some t \<longrightarrow>
        page_ok t \<and> (unat t div 4096, 0) \<in> alloc_blocks (kpmm s)) \<and>
     (\<forall>p q t. path_ok p \<longrightarrow> path_ok q \<longrightarrow> tbl (kmem s) root p = Some t \<longrightarrow>
        tbl (kmem s) root q = Some t \<longrightarrow> p = q)"

lemma virt_to_phys_pmap:
  "virt_to_phys m mm v =
     (case pmap m (pml4 mm AND PAGE_MASK) v of None \<Rightarrow> INVALID_ADDRESS
      | Some e \<Rightarrow> (e AND PAGE_MASK) + PAGE_OFFSET v)"
  by (simp add: virt_to_phys_def pmap_def dir_path_def Let_def)

lemma pmap_same_page: "same_page u v \<Longrightarrow> pmap m root u = pmap m root v"
  unfolding pmap_def same_page_def by (elim conjE) (simp only:)

lemma tbl_snoc:
  "tbl m t (p @ [i]) =
     (case tbl m t p of None \<Rightarrow> None
      | Some u \<Rightarrow> if present (entry m u i) then Some (entry m u i AND PAGE_MASK) else None)"
  by (induction p arbitrary: t) auto

declare tbl.simps(2) [simp del]

lemma path_ok_prefix: "path_ok (p @ q) \<Longrightarrow> path_ok p"
  by (auto simp: path_ok_def)

lemma path_ok_dir: "path_ok (dir_path v)"
  by (simp add: path_ok_def dir_path_def index_bound)

lemma vm_invD:
  assumes "vm_inv s root"
  shows "pmm_inv (kpmm s)" and "mm_frames_count (kpmm s) \<le> 2 ^ 35"
    and "path_ok p \<Longrightarrow> tbl (kmem s) root p = Some t \<Longrightarrow> page_ok t"
    and "path_ok p \<Longrightarrow> tbl (kmem s) root p = Some t \<Longrightarrow> (unat t div 4096, 0) \<in> alloc_blocks (kpmm s)"
    and "path_ok p \<Longrightarrow> path_ok q \<Longrightarrow> tbl (kmem s) root p = Some t \<Longrightarrow> tbl (kmem s) root q = Some t \<Longrightarrow> p = q"
  using assms unfolding vm_inv_def by blast+

section \<open>Adding a table\<close>

text \<open>
  Memory in which the entry \<open>i\<close> of the table at \<open>p\<close> now points to the cleared page \<open>new\<close>, which was no
  table before.
\<close>

lemma tbl_add:
  assumes inj: "\<And>q t'. path_ok q \<Longrightarrow> tbl m root q = Some t' \<Longrightarrow> page_ok t' \<and> t' \<noteq> new \<and> (t' = t \<longrightarrow> q = p)"
    and p: "path_ok (p @ [i])" "tbl m root p = Some t" "\<not> present (entry m t i)"
    and new: "entry m' t i = e" "present e" "e AND PAGE_MASK = new" "\<And>j. j < 512 \<Longrightarrow> \<not> present (entry m' new j)"
    and other: "\<And>u j. page_ok u \<Longrightarrow> j < 512 \<Longrightarrow> u \<noteq> new \<Longrightarrow> (u, j) \<noteq> (t, i) \<Longrightarrow> entry m' u j = entry m u j"
    and q: "path_ok q"
  shows "tbl m' root q = (if q = p @ [i] then Some new else tbl m root q)"
  using q
proof (induction q rule: rev_induct)
  case Nil
  then show ?case by simp
next
  case (snoc j q)
  then have q: "path_ok q" "j < 512" by (auto simp: path_ok_def)
  have IH: "tbl m' root q = (if q = p @ [i] then Some new else tbl m root q)"
    by (rule snoc.IH [OF q(1)])
  have gone: "tbl m root (p @ [i]) = None" using p by (simp add: tbl_snoc)
  consider "q = p" "j = i" | "q = p @ [i]" | "q \<noteq> p @ [i]" "(q, j) \<noteq> (p, i)" by auto
  then show ?case
  proof cases
    case 1
    then show ?thesis using IH p new by (simp add: tbl_snoc)
  next
    case 2
    then show ?thesis using IH gone new(4) [OF q(2)] by (simp add: tbl_snoc del: append_assoc)
  next
    case 3
    have "entry m' u j = entry m u j" if "tbl m root q = Some u" for u
      using inj [OF q(1) that] 3(2) q(2) by (intro other) auto
    then show ?thesis
      using IH 3 by (auto simp: tbl_snoc split: option.splits)
  qed
qed

definition table_bits :: u64 where
  "table_bits = (PAGE_PRESENT OR PAGE_WRITABLE) OR PAGE_USER"

lemma table_bits_eq: "table_bits = 7"
  by (simp add: table_bits_def kconst)

lemma table_entry:
  assumes "page_ok t"
  shows "present (t OR table_bits)" and "(t OR table_bits) AND PAGE_MASK = t"
    and "(t OR table_bits) AND NOT 0xFFF = t"
proof -
  have "table_bits AND NOT 0xFFF = 0" by (simp add: table_bits_eq)
  then show m: "(t OR table_bits) AND NOT 0xFFF = t"
    by (simp only: bit.conj_disj_distrib2 page_ok_mask(2) [OF assms] or.right_neutral)
  then show "(t OR table_bits) AND PAGE_MASK = t"
    by (simp only: PAGE_MASK_eq)
  show "present (t OR table_bits)"
    unfolding present_def PAGE_PRESENT_def table_bits_eq
    using and_exp_eq_0_iff_not_bit [of "t OR 7" 0] by (simp add: bit_simps)
qed

definition new_table_mem :: "mem \<Rightarrow> u64 \<Rightarrow> phys_addr \<Rightarrow> mem" where
  "new_table_mem m a page =
     (let m2 = zeroed_page (store64 m a page) page in store64 m2 a (load64 m2 a OR table_bits))"

lemma ensure_table_alt:
  "ensure_table table i s =
     (if present (entry (kmem s) table i) then Inr (entry (kmem s) table i AND NOT 0xFFF, s)
      else rbind (alloc_frames 0 (kpmm s)) (\<lambda>(page, pm).
             rbind (zero_page (store64 (kmem s) (entry_addr table i) page) page) (\<lambda>_.
             let m = new_table_mem (kmem s) (entry_addr table i) page
             in Inr (entry m table i AND NOT 0xFFF, s\<lparr>kmem := m, kpmm := pm\<rparr>))))"
  unfolding ensure_table_def
  by (subst zero_page_bind) (simp add: entry_def new_table_mem_def table_bits_def Let_def)

lemma entry_new_table:
  assumes "page_ok t" and "page_ok page" and "t \<noteq> page" and "i < 512" and "page_ok u" and "j < 512"
  shows "entry (new_table_mem m (entry_addr t i) page) u j =
    (if (u, j) = (t, i) then page OR table_bits else if u = page then 0 else entry m u j)"
proof -
  let ?m1 = "store64 m (entry_addr t i) page" and ?m2 = "zeroed_page (store64 m (entry_addr t i) page) page"
  have "entry ?m2 t i = page"
    using assms by (simp add: entry_zero_page entry_store)
  moreover have "entry ?m2 u j = (if u = page then 0 else entry ?m1 u j)"
    using assms by (auto simp: entry_zero_page)
  ultimately show ?thesis
    using assms unfolding new_table_mem_def Let_def entry_def [symmetric]
    by (auto simp: entry_store)
qed

lemma in_page_entry:
  assumes "page_ok t" and "i < 512" and "unat (x - entry_addr t i) < 8"
  shows "in_page x t"
proof -
  define k where "k = unat (x - entry_addr t i)"
  have x: "x = KERNEL_DIRECT_BASE + of_nat (unat t + 8 * unat i + k)"
    using entry_addr_offset [of t i] by (simp add: k_def algebra_simps)
  have t: "phys_to_virt t = KERNEL_DIRECT_BASE + of_nat (unat t)"
    by (simp add: phys_to_virt_def)
  have "unat (x - phys_to_virt t) = 8 * unat i + k"
    unfolding x t using entry_offset_bound [OF assms(1,2)] assms(3)
    by (subst unat_offset_diff) (auto simp: k_def)
  then show ?thesis
    using assms(3) entry_offset_bound(2) [OF assms(1,2)] by (simp add: in_page_def k_def)
qed

lemma store_entry_byte:
  assumes "page_ok t" and "i < 512" and "\<not> in_page x t"
  shows "store64 m (entry_addr t i) v x = m x"
  using in_page_entry [OF assms(1,2), of x] assms(3) by (intro m64.store_byte_other) (meson not_le)

lemma new_table_byte:
  assumes "page_ok t" and "i < 512" and "\<not> in_page x t" and "\<not> in_page x page"
  shows "new_table_mem m (entry_addr t i) page x = m x"
  using assms by (simp add: new_table_mem_def Let_def store_entry_byte zero_page_byte in_page_def)

lemma new_frame_not_table:
  assumes "vm_inv s root" and "f \<in> free_frames s" and "f < 2 ^ 35"
    and "path_ok q" and "tbl (kmem s) root q = Some t"
  shows "t \<noteq> push_bit 12 (of_nat f)"
proof
  assume "t = push_bit 12 (of_nat f)"
  with vm_invD(4) [OF assms(1,4,5)] assms(3) have "(f, 0) \<in> alloc_blocks (kpmm s)"
    by (simp only: unat_frame_div)
  from buddy.used_not_avail [OF vm_invD(1) [OF assms(1)] this] assms(2) show False
    by (auto simp: free_frames_def blk_def)
qed

text \<open>One level of \<open>map_page\<close> on a table that is already reached.\<close>

definition extends :: "phys_addr \<Rightarrow> kernel \<Rightarrow> kernel \<Rightarrow> bool" where
  "extends root s s' \<longleftrightarrow> vm_inv s' root \<and> (\<forall>v. pmap (kmem s') root v = pmap (kmem s) root v) \<and>
     (\<forall>p t. path_ok p \<longrightarrow> tbl (kmem s) root p = Some t \<longrightarrow> tbl (kmem s') root p = Some t) \<and>
     (\<forall>x. \<not> in_tables (kmem s') root x \<longrightarrow> kmem s' x = kmem s x) \<and>
     alloc_blocks (kpmm s) \<subseteq> alloc_blocks (kpmm s') \<and>
     (\<exists>m pm. s' = s\<lparr>kmem := m, kpmm := pm\<rparr>)"

lemma extends_refl: "vm_inv s root \<Longrightarrow> extends root s s"
proof -
  assume "vm_inv s root"
  moreover have "s = s\<lparr>kmem := kmem s, kpmm := kpmm s\<rparr>" by simp
  ultimately show ?thesis unfolding extends_def by blast
qed

lemma extends_trans: "extends root s s1 \<Longrightarrow> extends root s1 s2 \<Longrightarrow> extends root s s2"
  unfolding extends_def in_tables_def by (auto; metis)

lemma ensure_table_new:
  assumes inv: "vm_inv s root" and p: "path_ok (p @ [i])" "tbl (kmem s) root p = Some t"
    and absent: "\<not> present (entry (kmem s) t i)"
    and f: "f \<in> free_frames s" "f < mm_frames_count (kpmm s)" "page = push_bit 12 (of_nat f)"
    and al: "pmm_inv pm" "alloc_blocks pm = insert (f, 0) (alloc_blocks (kpmm s))"
      "mm_frames_count pm = mm_frames_count (kpmm s)"
    and s': "s' = s\<lparr>kmem := new_table_mem (kmem s) (entry_addr t i) page, kpmm := pm\<rparr>"
  shows "extends root s s'" and "tbl (kmem s') root (p @ [i]) = Some page"
    and "entry (kmem s') t i AND NOT 0xFFF = page"
proof -
  have f35: "f < 2 ^ 35" using f(2) vm_invD(2) [OF inv] by simp
  have pg: "page_ok page" using frame_page(1) [OF f35] f(3) by simp
  have i: "i < 512" and pok: "path_ok p" using p(1) by (auto simp: path_ok_def)
  have t: "page_ok t" by (rule vm_invD(3) [OF inv pok p(2)])
  have fresh: "u \<noteq> page" if "path_ok q" "tbl (kmem s) root q = Some u" for q u
    using new_frame_not_table [OF inv f(1) f35 that] f(3) by simp
  have tp: "t \<noteq> page" by (rule fresh [OF pok p(2)])
  let ?m' = "kmem s'"
  have ent: "entry ?m' u j = (if (u, j) = (t, i) then page OR table_bits else if u = page then 0 else entry (kmem s) u j)"
    if "page_ok u" "j < 512" for u j
    using entry_new_table [OF t pg tp i that] by (simp add: s')
  have e: "entry ?m' t i = page OR table_bits" using ent [OF t i] by simp
  then show "entry ?m' t i AND NOT 0xFFF = page" by (simp only: table_entry(3) [OF pg])
  have T: "tbl ?m' root q = (if q = p @ [i] then Some page else tbl (kmem s) root q)" if "path_ok q" for q
  proof (rule tbl_add [OF _ p absent e table_entry(1,2) [OF pg] _ _ that])
    show "page_ok u \<and> u \<noteq> page \<and> (u = t \<longrightarrow> q = p)" if "path_ok q" "tbl (kmem s) root q = Some u" for q u
      using vm_invD(3,5) [OF inv that(1)] that pok p(2) fresh by blast
    show "\<not> present (entry ?m' page j)" if "j < 512" for j
      using ent [OF pg that] tp by (simp add: present_def)
    show "entry ?m' u j = entry (kmem s) u j" if "page_ok u" "j < 512" "u \<noteq> page" "(u, j) \<noteq> (t, i)" for u j
      using ent [OF that(1,2)] that by auto
  qed
  from T [OF p(1)] show tnew: "tbl ?m' root (p @ [i]) = Some page" by simp
  have old: "tbl (kmem s) root (p @ [i]) = None" using p(2) absent by (simp add: tbl_snoc)
  have pm: "pmap ?m' root v = pmap (kmem s) root v" for v
  proof (cases "dir_path v = p @ [i]")
    case True
    then show ?thesis
      using old tnew ent [OF pg index_bound(4) [of v]] tp by (simp add: pmap_def present_def)
  next
    case False
    have "u \<noteq> page \<and> u \<noteq> t \<and> page_ok u" if "tbl (kmem s) root (dir_path v) = Some u" for u
    proof -
      have "length p \<le> 2" using p(1) by (simp add: path_ok_def)
      then have "dir_path v \<noteq> p" by (auto simp: dir_path_def)
      then show ?thesis
        using vm_invD(3) [OF inv path_ok_dir that] vm_invD(5) [OF inv path_ok_dir pok that] fresh [OF path_ok_dir that]
          p(2) by blast
    qed
    then show ?thesis
      using T [OF path_ok_dir [of v]] False ent index_bound(4) [of v]
      by (auto simp: pmap_def split: option.splits)
  qed
  have "vm_inv s' root"
    unfolding vm_inv_def
  proof (intro conjI allI impI)
    show "pmm_inv (kpmm s')" "mm_frames_count (kpmm s') \<le> 2 ^ 35"
      using al vm_invD(2) [OF inv] by (simp_all add: s')
    fix q u assume q: "path_ok q" "tbl ?m' root q = Some u"
    show "page_ok u" "(unat u div 4096, 0) \<in> alloc_blocks (kpmm s')"
      using q T [OF q(1)] pg vm_invD(3,4) [OF inv q(1)] al f(3) unat_frame_div [OF f35]
      by (auto simp: s' split: if_splits)
    fix r assume r: "path_ok r" "tbl ?m' root r = Some u"
    show "q = r"
      using q r T [OF q(1)] T [OF r(1)] fresh [OF q(1)] fresh [OF r(1)] vm_invD(5) [OF inv q(1) r(1)]
      by (auto split: if_splits)
  qed
  moreover have "?m' x = kmem s x" if "\<not> in_tables ?m' root x" for x
  proof -
    have "tbl ?m' root p = Some t" using T [OF pok] p(2) by simp
    with that tnew pok p(1) have "\<not> in_page x t" "\<not> in_page x page" unfolding in_tables_def by blast+
    then show ?thesis using new_table_byte [OF t i] by (simp add: s')
  qed
  ultimately show "extends root s s'"
    using pm T old al by (auto simp: extends_def s')
qed

lemma finite_free_frames: "vm_inv s root \<Longrightarrow> finite (free_frames s)"
  using buddy.avail_bound [OF vm_invD(1)] finite_subset unfolding free_frames_def by blast

lemma ensure_table_ok:
  assumes inv: "vm_inv s root" and p: "path_ok (p @ [i])" "tbl (kmem s) root p = Some t"
    and free: "n < card (free_frames s)"
  obtains t' s' where "ensure_table t i s = Inr (t', s')" and "extends root s s'"
    and "tbl (kmem s') root (p @ [i]) = Some t'" and "n \<le> card (free_frames s')"
    and "present (entry (kmem s) t i) \<Longrightarrow> s' = s"
proof (cases "present (entry (kmem s) t i)")
  case True
  have "PAGE_MASK = (NOT 0xFFF :: u64)" by (simp only: PAGE_MASK_eq)
  with True p have "tbl (kmem s) root (p @ [i]) = Some (entry (kmem s) t i AND NOT 0xFFF)"
    by (simp only: tbl_snoc) simp
  with True free extends_refl [OF inv] show thesis
    by (intro that [of "entry (kmem s) t i AND NOT 0xFFF" s]) (simp_all add: ensure_table_alt)
next
  case False
  have "cover (free_blocks (kpmm s)) \<noteq> {}" using free by (auto simp: free_frames_def)
  from buddy.alloc_page [OF vm_invD(1) [OF inv] this] obtain f pm where
    al: "alloc_frames (int 0) (kpmm s) = Inr (push_bit 12 (of_nat f), pm)" "pmm_inv pm"
      "f < mm_frames_count (kpmm s)" "f \<in> free_frames s"
      "cover (free_blocks pm) = free_frames s - {f}"
      "alloc_blocks pm = insert (f, 0) (alloc_blocks (kpmm s))" "mm_frames_count pm = mm_frames_count (kpmm s)"
    unfolding free_frames_def by blast
  define s' where "s' = s\<lparr>kmem := new_table_mem (kmem s) (entry_addr t i) (push_bit 12 (of_nat f)), kpmm := pm\<rparr>"
  note new = ensure_table_new [OF inv p False al(4,3) refl al(2,6,7) s'_def]
  have "ensure_table t i s = Inr (push_bit 12 (of_nat f), s')"
    using False al(1) new(3) zero_page_ok [OF frame_page(1), of f] al(3) vm_invD(2) [OF inv] by (simp add: ensure_table_alt s'_def Let_def)
  moreover have "n \<le> card (free_frames s')"
    using al(4,5) free finite_free_frames [OF inv] by (simp add: free_frames_def s'_def)
  ultimately show thesis
    using new False by (intro that [of "push_bit 12 (of_nat f)" s']) auto
qed

section \<open>Changing a leaf\<close>

lemma tbl_leaf_store:
  assumes inv: "vm_inv s root" and t: "tbl (kmem s) root (dir_path v) = Some t" and i: "i < 512" and q: "path_ok q"
  shows "tbl (store64 (kmem s) (entry_addr t i) e) root q = tbl (kmem s) root q"
  using q
proof (induction q rule: rev_induct)
  case (snoc j q)
  then have q: "path_ok q" "j < 512" "length q \<le> 2" by (auto simp: path_ok_def)
  have "entry (store64 (kmem s) (entry_addr t i) e) u j = entry (kmem s) u j"
    if "tbl (kmem s) root q = Some u" for u
  proof -
    have "q \<noteq> dir_path v" using q(3) by (auto simp: dir_path_def)
    then have "u \<noteq> t" using vm_invD(5) [OF inv q(1) path_ok_dir that] t by blast
    then show ?thesis
      using entry_store vm_invD(3) [OF inv q(1) that] vm_invD(3) [OF inv path_ok_dir t] i q(2) by auto
  qed
  with snoc.IH [OF q(1)] show ?case
    by (auto simp: tbl_snoc split: option.splits)
qed simp

lemma leaf_store:
  fixes e :: u64
  assumes inv: "vm_inv s root" and t: "tbl (kmem s) root (dir_path v) = Some t"
  defines "m' \<equiv> store64 (kmem s) (entry_addr t (PT_INDEX v)) e"
  shows "vm_inv (s\<lparr>kmem := m'\<rparr>) root"
    and "pmap m' root u = (if same_page u v then if present e then Some e else None else pmap (kmem s) root u)"
    and "\<not> in_tables m' root x \<Longrightarrow> m' x = kmem s x"
proof -
  have T: "path_ok q \<Longrightarrow> tbl m' root q = tbl (kmem s) root q" for q
    unfolding m'_def by (rule tbl_leaf_store [OF inv t index_bound(4)])
  have tok: "page_ok t" by (rule vm_invD(3) [OF inv path_ok_dir t])
  show "vm_inv (s\<lparr>kmem := m'\<rparr>) root"
    using inv T unfolding vm_inv_def by simp
  show "pmap m' root u = (if same_page u v then if present e then Some e else None else pmap (kmem s) root u)"
  proof (cases "tbl (kmem s) root (dir_path u)")
    case None
    then show ?thesis using T [OF path_ok_dir [of u]] t by (auto simp: pmap_def same_page_def)
  next
    case (Some w)
    have "w = t \<longleftrightarrow> dir_path u = dir_path v"
    proof
      show "dir_path u = dir_path v" if "w = t"
        using vm_invD(5) [OF inv path_ok_dir path_ok_dir Some] t that by blast
      show "w = t" if "dir_path u = dir_path v" using Some t that by simp
    qed
    moreover have "entry m' w (PT_INDEX u) = (if (t, PT_INDEX v) = (w, PT_INDEX u) then e else entry (kmem s) w (PT_INDEX u))"
      unfolding m'_def by (rule entry_store [OF tok vm_invD(3) [OF inv path_ok_dir Some] index_bound(4) index_bound(4)])
    ultimately have "entry m' w (PT_INDEX u) = (if same_page u v then e else entry (kmem s) w (PT_INDEX u))"
      unfolding same_page_def by (metis prod.inject)
    then show ?thesis
      using T [OF path_ok_dir [of u]] Some by (simp add: pmap_def)
  qed
  show "m' x = kmem s x" if "\<not> in_tables m' root x"
  proof -
    have "\<not> in_page x t" using that T [OF path_ok_dir [of v]] t path_ok_dir unfolding in_tables_def by metis
    then show ?thesis unfolding m'_def by (rule store_entry_byte [OF tok index_bound(4)])
  qed
qed

section \<open>map_page and unmap_page\<close>

lemma map_page_spec:
  assumes inv: "vm_inv s root" and root: "pml4 mm = root" and free: "3 \<le> card (free_frames s)"
    and e: "present (frame OR ucast attr)"
  shows "\<exists>s'. map_page mm frame page attr s = Inr (pmap (kmem s) root page = None, s') \<and> vm_inv s' root \<and>
     (\<forall>v. pmap (kmem s') root v =
        (if same_page v page \<and> pmap (kmem s) root page = None then Some (frame OR ucast attr)
         else pmap (kmem s) root v)) \<and>
     (\<forall>x. \<not> in_tables (kmem s') root x \<longrightarrow> kmem s' x = kmem s x) \<and>
     alloc_blocks (kpmm s) \<subseteq> alloc_blocks (kpmm s')"
proof -
  have ok: "path_ok ([] @ [PML4_INDEX page])" "path_ok ([PML4_INDEX page] @ [PDPT_INDEX page])"
    "path_ok ([PML4_INDEX page, PDPT_INDEX page] @ [PD_INDEX page])"
    by (simp_all add: path_ok_def index_bound)
  have 0: "tbl (kmem s) root [] = Some root" "2 < card (free_frames s)" using free by simp_all
  obtain t1 s1 where 1: "ensure_table root (PML4_INDEX page) s = Inr (t1, s1)" "extends root s s1"
      "tbl (kmem s1) root ([] @ [PML4_INDEX page]) = Some t1" "2 \<le> card (free_frames s1)"
    by (rule ensure_table_ok [OF inv ok(1) 0])
  have i1: "vm_inv s1 root" "tbl (kmem s1) root [PML4_INDEX page] = Some t1" "1 < card (free_frames s1)"
    using 1 by (simp_all add: extends_def)
  obtain t2 s2 where 2: "ensure_table t1 (PDPT_INDEX page) s1 = Inr (t2, s2)" "extends root s1 s2"
      "tbl (kmem s2) root ([PML4_INDEX page] @ [PDPT_INDEX page]) = Some t2" "1 \<le> card (free_frames s2)"
    by (rule ensure_table_ok [OF i1(1) ok(2) i1(2,3)])
  have i2: "vm_inv s2 root" "tbl (kmem s2) root [PML4_INDEX page, PDPT_INDEX page] = Some t2" "0 < card (free_frames s2)"
    using 2 by (simp_all add: extends_def)
  obtain t3 s3 where 3: "ensure_table t2 (PD_INDEX page) s2 = Inr (t3, s3)" "extends root s2 s3"
      "tbl (kmem s3) root ([PML4_INDEX page, PDPT_INDEX page] @ [PD_INDEX page]) = Some t3"
    by (rule ensure_table_ok [OF i2(1) ok(3) i2(2,3)])
  then have d: "tbl (kmem s3) root (dir_path page) = Some t3" by (simp add: dir_path_def)
  have x: "extends root s s3" using 1(2) 2(2) 3(2) extends_trans by blast
  then have i3: "vm_inv s3 root" and same: "pmap (kmem s3) root v = pmap (kmem s) root v" for v
    by (simp_all add: extends_def)
  have leaf: "present (entry (kmem s3) t3 (PT_INDEX page)) \<longleftrightarrow> pmap (kmem s) root page \<noteq> None"
  proof -
    have "pmap (kmem s3) root page = (let e = entry (kmem s3) t3 (PT_INDEX page) in if present e then Some e else None)"
      by (simp add: pmap_def d)
    then show ?thesis using same [of page] by (auto simp: Let_def)
  qed
  let ?m = "store64 (kmem s3) (entry_addr t3 (PT_INDEX page)) (frame OR ucast attr)"
  have run: "map_page mm frame page attr s =
      (if pmap (kmem s) root page \<noteq> None then Inr (False, s3) else Inr (True, s3\<lparr>kmem := ?m\<rparr>))"
    using 1(1) 2(1) 3(1) leaf by (simp add: map_page_def root entry_def)
  show ?thesis
  proof (cases "pmap (kmem s) root page = None")
    case True
    note L = leaf_store [OF i3 d, of "frame OR ucast attr"]
    have "in_tables ?m root x \<or> kmem s3 x = kmem s x" for x
      using x tbl_leaf_store [OF i3 d index_bound(4)] unfolding extends_def in_tables_def by metis
    then show ?thesis
      using run True L e same x by (intro exI [of _ "s3\<lparr>kmem := ?m\<rparr>"]) (auto simp: extends_def)
  next
    case False
    then show ?thesis using run x by (intro exI [of _ s3]) (auto simp: extends_def)
  qed
qed

lemma unmap_page_spec:
  assumes inv: "vm_inv s root" and root: "pml4 mm = root"
  shows "unmap_page mm page (kmem s) =
     (case pmap (kmem s) root page of None \<Rightarrow> (INVALID_ADDRESS, kmem s)
      | Some e \<Rightarrow> (e AND PAGE_MASK,
          store64 (kmem s) (entry_addr (the (tbl (kmem s) root (dir_path page))) (PT_INDEX page)) 0))"
proof -
  have "NOT 0xFFF = PAGE_MASK" by (simp only: PAGE_MASK_eq)
  then show ?thesis
    unfolding unmap_page_def root pmap_def dir_path_def by (simp add: Let_def tbl.simps)
qed

end
