(* ===== verification/Vmm_Free.thy ===== *)
theory Vmm_Free
  imports Vmm_Spec
begin

text \<open>
  Tearing an address space down: \<open>free_page_table\<close> gives back every page and every table of the
  tree exactly once; and sharing the kernel half between address spaces.
\<close>

definition pfn :: "phys_addr \<Rightarrow> nat" where
  "pfn a = unat (drop_bit 12 a)"

text \<open>The frames of a tree in the order \<open>free_page_table\<close> frees them; \<open>kids\<close> from entry \<open>i\<close> on.\<close>

definition kids :: "(phys_addr \<Rightarrow> nat list) \<Rightarrow> mem \<Rightarrow> phys_addr \<Rightarrow> nat \<Rightarrow> nat list" where
  "kids sub m t i =
     concat (map (\<lambda>j. if present (entry m t (of_nat j)) then sub (entry m t (of_nat j) AND PAGE_MASK) else []) [i..<512])"

primrec tree_frames :: "nat \<Rightarrow> mem \<Rightarrow> phys_addr \<Rightarrow> nat list" where
  "tree_frames 0 m t = kids (\<lambda>c. [pfn c]) m t 0 @ [pfn t]"
| "tree_frames (Suc l) m t = kids (tree_frames l m) m t 0 @ [pfn t]"

definition sub_frames :: "nat \<Rightarrow> mem \<Rightarrow> phys_addr \<Rightarrow> nat list" where
  "sub_frames level m c = (if level > 0 then tree_frames (level - 1) m c else [pfn c])"

lemma tree_frames_eq: "tree_frames level m t = kids (sub_frames level m) m t 0 @ [pfn t]"
  by (cases level) (simp_all add: sub_frames_def [abs_def] kids_def)

lemma kids_step:
  "i < 512 \<Longrightarrow> kids sub m t i =
     (if present (entry m t (of_nat i)) then sub (entry m t (of_nat i) AND PAGE_MASK) else []) @ kids sub m t (i + 1)"
  by (simp add: kids_def upt_conv_Cons)

lemma kids_end: "\<not> i < 512 \<Longrightarrow> kids sub m t i = []"
  by (simp add: kids_def)

section \<open>Releasing frames\<close>

definition released :: "nat list \<Rightarrow> pmm \<Rightarrow> pmm \<Rightarrow> bool" where
  "released fs pm pm' \<longleftrightarrow> pmm_inv pm' \<and> alloc_blocks pm' = alloc_blocks pm - (\<lambda>f. (f, 0)) ` set fs \<and>
     cover (free_blocks pm') = cover (free_blocks pm) \<union> set fs"

definition owns :: "pmm \<Rightarrow> nat list \<Rightarrow> bool" where
  "owns pm fs \<longleftrightarrow> pmm_inv pm \<and> distinct fs \<and> (\<lambda>f. (f, 0)) ` set fs \<subseteq> alloc_blocks pm"

lemma released_nil: "pmm_inv pm \<Longrightarrow> released [] pm pm"
  by (simp add: released_def)

lemma released_append: "released fs pm pm1 \<Longrightarrow> released gs pm1 pm2 \<Longrightarrow> released (fs @ gs) pm pm2"
  by (auto simp: released_def)

lemma owns_prefix: "owns pm (fs @ gs) \<Longrightarrow> owns pm fs"
  by (auto simp: owns_def)

lemma owns_rest: "owns pm (fs @ gs) \<Longrightarrow> released fs pm pm1 \<Longrightarrow> owns pm1 gs"
  by (auto simp: owns_def released_def)

lemma free_frame_released:
  assumes "owns pm [pfn a]"
  shows "\<exists>pm'. free_frame a pm = Inr pm' \<and> released [pfn a] pm pm'"
proof -
  have i: "pmm_inv pm" and u: "(pfn a, 0) \<in> alloc_blocks pm" using assms by (auto simp: owns_def)
  have "pfn a < 2 ^ 52"
    using buddy.used_bound [OF i u] buddy.frames_bound [OF i] by simp
  then have "unat (drop_bit PAGE_SHIFT (push_bit 12 (of_nat (pfn a) :: u64))) = unat (drop_bit PAGE_SHIFT a)"
    using frame_addr(1) [of "pfn a"] by (simp add: PAGE_SHIFT_def pfn_def)
  then have "free_frame (push_bit 12 (of_nat (pfn a))) pm = free_frame a pm"
    by (simp add: free_frame_def)
  with buddy.release_total [OF i u] show ?thesis
    by (auto simp: released_def blk_def)
qed

lemma free_page_table_released:
  "owns pm (tree_frames level m t) \<Longrightarrow> \<exists>pm'. free_page_table t level m pm = Inr pm' \<and> released (tree_frames level m t) pm pm'"
  "owns pm (kids (sub_frames level m) m t i) \<Longrightarrow>
     \<exists>pm'. free_entries t level i m pm = Inr pm' \<and> released (kids (sub_frames level m) m t i) pm pm'"
proof (induction t level m pm and t level i m pm rule: free_page_table_free_entries.induct)
  case (1 t level m pm)
  have o: "owns pm (kids (sub_frames level m) m t 0 @ [pfn t])"
    using "1.prems" by (simp add: tree_frames_eq)
  from "1.IH" [OF owns_prefix [OF o]] obtain pm1 where
    pm1: "free_entries t level 0 m pm = Inr pm1" "released (kids (sub_frames level m) m t 0) pm pm1" by blast
  from free_frame_released [OF owns_rest [OF o pm1(2)]] obtain pm2 where
    "free_frame t pm1 = Inr pm2" "released [pfn t] pm1 pm2" by blast
  then show ?case
    using pm1 released_append by (auto simp: free_page_table.simps [of t] tree_frames_eq)
next
  case (2 t level i m pm)
  show ?case
  proof (cases "i < 512")
    case False
    with 2 show ?thesis
      by (auto simp: free_entries.simps [of t level i] kids_end owns_def intro: released_nil)
  next
    case i: True
    show ?thesis
    proof (cases "present (entry m t (of_nat i))")
      case False
      with i 2 show ?thesis by (auto simp: free_entries.simps [of t level i] kids_step)
    next
      case True
      let ?c = "entry m t (of_nat i) AND PAGE_MASK"
      have o: "owns pm (sub_frames level m ?c @ kids (sub_frames level m) m t (i + 1))"
        using "2.prems" i True by (simp add: kids_step)
      have "\<exists>pm1. (if level > 0 then free_page_table ?c (level - 1) m pm else free_frame ?c pm) = Inr pm1 \<and>
          released (sub_frames level m ?c) pm pm1"
        using owns_prefix [OF o] "2.IH"(2) [OF i] True free_frame_released [of pm ?c]
        by (cases "level > 0") (simp_all add: sub_frames_def)
      then obtain pm1 where pm1: "(if level > 0 then free_page_table ?c (level - 1) m pm else free_frame ?c pm) = Inr pm1"
        "released (sub_frames level m ?c) pm pm1" by blast
      from "2.IH"(3) [OF i] True pm1(1) owns_rest [OF o pm1(2)] obtain pm2 where
        "free_entries t level (i + 1) m pm1 = Inr pm2" "released (kids (sub_frames level m) m t (i + 1)) pm1 pm2"
        by auto
      with pm1 i True show ?thesis
        using released_append [OF pm1(2)] by (simp add: free_entries.simps [of t level i] kids_step Let_def)
    qed
  qed
qed

section \<open>The kernel half\<close>

lemma copy_entries_entry:
  assumes U: "page_ok U" and K: "page_ok K" and u: "page_ok u" and j: "j < 512" and n: "n \<le> 512"
  shows "entry (copy_entries U K lo n m) u j =
    (if u = U \<and> lo \<le> unat j \<and> unat j < n then entry m K j else entry m u j)"
  using n u j
proof (induction n arbitrary: u j)
  case 0
  then show ?case by (simp add: copy_entries_def)
next
  case (Suc n)
  show ?case
  proof (cases "lo \<le> n")
    case False
    then show ?thesis by (auto simp: copy_entries_def)
  next
    case True
    let ?m = "copy_entries U K lo n m"
    have un: "unat (of_nat n :: u64) = n" using Suc.prems by (intro unat_of_nat_small) simp
    then have n512: "(of_nat n :: u64) < 512" using Suc.prems by (simp add: word_less_nat_alt)
    have eqn: "of_nat n = j \<longleftrightarrow> unat j = n" using un by auto
    have IH: "entry ?m v k = (if v = U \<and> lo \<le> unat k \<and> unat k < n then entry m K k else entry m v k)"
      if "page_ok v" "k < 512" for v k
      using Suc.IH [OF _ that] Suc.prems by simp
    have "entry ?m K (of_nat n) = entry m K (of_nat n)"
      using IH [OF K n512] un by simp
    then have "entry (store64 ?m (entry_addr U (of_nat n)) (entry ?m K (of_nat n))) u j =
        (if (U, of_nat n) = (u, j) then entry m K (of_nat n) else entry ?m u j)"
      by (simp only: entry_store [OF U Suc.prems(2) n512 Suc.prems(3)])
    moreover have "copy_entries U K lo (Suc n) m = store64 ?m (entry_addr U (of_nat n)) (entry ?m K (of_nat n))"
      using True by (simp add: copy_entries_def)
    ultimately show ?thesis
      using True IH [OF Suc.prems(2,3)] eqn by (auto simp: less_Suc_eq)
  qed
qed

lemma map_kernel_entries:
  assumes "page_ok (pml4 mm)" and "page_ok (kernel_mm s)" and "page_ok u" and "j < 512"
  shows "entry (kmem (map_kernel_for_user_mm mm s)) u j =
    (if u = pml4 mm \<and> 256 \<le> j then entry (kmem s) (kernel_mm s) j else entry (kmem s) u j)"
  using copy_entries_entry [OF assms, of 512 256 "kmem s"] assms(4)
  by (simp add: map_kernel_for_user_mm_def word_le_nat_alt word_less_nat_alt)

lemma tbl_same:
  assumes "\<And>u j. page_ok u \<Longrightarrow> j < 512 \<Longrightarrow> u \<noteq> U \<Longrightarrow> entry m' u j = entry m u j"
    and "\<And>q t. length q < length p \<Longrightarrow> q = take (length q) p \<Longrightarrow> tbl m c q = Some t \<Longrightarrow> page_ok t \<and> t \<noteq> U"
    and "\<forall>i \<in> set p. i < 512"
  shows "tbl m' c p = tbl m c p"
  using assms(2,3)
proof (induction p arbitrary: c)
  case (Cons i p)
  have "page_ok c \<and> c \<noteq> U" using Cons.prems(1) [of "[]" c] by simp
  then have e: "entry m' c i = entry m c i" using assms(1) Cons.prems(2) by simp
  have "tbl m' (entry m c i AND PAGE_MASK) p = tbl m (entry m c i AND PAGE_MASK) p" if "present (entry m c i)"
  proof (rule Cons.IH)
    fix q t assume "length q < length p" "q = take (length q) p" "tbl m (entry m c i AND PAGE_MASK) q = Some t"
    then show "page_ok t \<and> t \<noteq> U" using Cons.prems(1) [of "i # q" t] that by (simp add: tbl.simps)
  qed (use Cons.prems(2) in simp)
  with e show ?case by (simp add: tbl.simps)
qed simp

text \<open>The part of a translation below the top-level table.\<close>

definition below :: "mem \<Rightarrow> phys_addr \<Rightarrow> virt_addr \<Rightarrow> u64 option" where
  "below m c v =
     (case tbl m c [PDPT_INDEX v, PD_INDEX v] of None \<Rightarrow> None
      | Some t \<Rightarrow> let e = entry m t (PT_INDEX v) in if present e then Some e else None)"

lemma pmap_below:
  "pmap m root v = (let e = entry m root (PML4_INDEX v) in if present e then below m (e AND PAGE_MASK) v else None)"
  by (simp add: pmap_def below_def dir_path_def tbl.simps(2) [of m root] Let_def)

lemma below_same:
  assumes same: "\<And>u j. page_ok u \<Longrightarrow> j < 512 \<Longrightarrow> u \<noteq> U \<Longrightarrow> entry m' u j = entry m u j"
    and tabs: "\<And>p t. length p \<le> 2 \<Longrightarrow> \<forall>i \<in> set p. i < 512 \<Longrightarrow> tbl m c p = Some t \<Longrightarrow> page_ok t \<and> t \<noteq> U"
  shows "below m' c v = below m c v"
proof -
  have "tbl m' c [PDPT_INDEX v, PD_INDEX v] = tbl m c [PDPT_INDEX v, PD_INDEX v]"
  proof (rule tbl_same [OF same])
    fix q t assume q: "length q < length [PDPT_INDEX v, PD_INDEX v]"
      "q = take (length q) [PDPT_INDEX v, PD_INDEX v]" "tbl m c q = Some t"
    have "set q \<subseteq> set [PDPT_INDEX v, PD_INDEX v]" using q(2) by (metis set_take_subset)
    then have "\<forall>i \<in> set q. i < 512" using index_bound(2,3) by auto
    then show "page_ok t \<and> t \<noteq> U" using q by (intro tabs [of q]) simp_all
  qed (auto simp: index_bound)
  moreover have "entry m' t (PT_INDEX v) = entry m t (PT_INDEX v)" if "tbl m c [PDPT_INDEX v, PD_INDEX v] = Some t" for t
    using tabs [OF _ _ that] same index_bound by auto
  ultimately show ?thesis by (simp add: below_def split: option.splits)
qed

lemma map_kernel_pmap:
  assumes inv: "vm_inv s (pml4 mm)" "vm_inv s (kernel_mm s)"
    and apart: "\<And>p. path_ok p \<Longrightarrow> tbl (kmem s) (kernel_mm s) p \<noteq> Some (pml4 mm)"
  shows "pmap (kmem (map_kernel_for_user_mm mm s)) (pml4 mm) v =
    (if 256 \<le> PML4_INDEX v then pmap (kmem s) (kernel_mm s) v else pmap (kmem s) (pml4 mm) v)"
proof -
  let ?m = "kmem s" and ?m' = "kmem (map_kernel_for_user_mm mm s)" and ?U = "pml4 mm" and ?K = "kernel_mm s"
  have nil: "path_ok []" by (simp add: path_ok_def)
  have U: "page_ok ?U" and K: "page_ok ?K"
    using vm_invD(3) [OF inv(1) nil] vm_invD(3) [OF inv(2) nil] by simp_all
  note E = map_kernel_entries [OF U K]
  have same: "entry ?m' u j = entry ?m u j" if "page_ok u" "j < 512" "u \<noteq> ?U" for u j
    using E [OF that(1,2)] that(3) by simp
  have tabs: "page_ok t \<and> t \<noteq> ?U"
    if "R = ?U \<or> R = ?K" "i < 512" "present (entry ?m R i)" "length p \<le> 2" "\<forall>i \<in> set p. i < 512"
      "tbl ?m (entry ?m R i AND PAGE_MASK) p = Some t" for R i p t
  proof -
    have p: "path_ok (i # p)" "tbl ?m R (i # p) = Some t" using that by (simp_all add: path_ok_def tbl.simps)
    have "\<not> (R = ?U \<and> t = ?U)" using vm_invD(5) [OF inv(1) p(1) nil] p(2) by auto
    then show ?thesis
      using that(1) p vm_invD(3) [OF inv(1) p(1)] vm_invD(3) [OF inv(2) p(1)] apart [OF p(1)] by auto
  qed
  have low: "below ?m' (entry ?m R (PML4_INDEX v) AND PAGE_MASK) v = below ?m (entry ?m R (PML4_INDEX v) AND PAGE_MASK) v"
    if "R = ?U \<or> R = ?K" "present (entry ?m R (PML4_INDEX v))" for R
    by (rule below_same [OF same]) (use tabs [OF that(1) index_bound(1) that(2)] in blast)+
  show ?thesis
    using E [OF U index_bound(1) [of v]] low by (simp add: pmap_below [of _ _ v] Let_def)
qed

end
