(* ===== verification/Vmm_Thms.thy ===== *)
theory Vmm_Thms
  imports Vmm_Free Demo
begin

text \<open>
  The properties of \<open>mm/vmm.c\<close>, over the abstract page map of \<open>Vmm_Spec\<close> and the trees of
  \<open>Vmm_Free\<close>, with a small machine on which they are applied.
\<close>

section \<open>The small machine\<close>

lemma demo_entry: "entry (\<lambda>_. 0) t i = 0"
  by (simp add: entry_def)

lemma demo_tbl: "tbl (\<lambda>_. 0) t p = (if p = [] then Some t else None)"
  by (cases p) (simp_all add: tbl.simps demo_entry present_def)

lemma demo_free_frames: "free_frames demo_kernel = {0, 1, 3}"
  by (auto simp: free_frames_def demo_kernel_def demo_pmm_inv(2) cover_def blk_def)

lemma demo_vm_inv: "vm_inv demo_kernel 0x2000"
proof -
  have "page_ok 0x2000" by (simp add: page_ok_def)
  then show ?thesis
    using demo_pmm_inv(1) by (auto simp: vm_inv_def demo_kernel_def demo_tbl demo_views demo_alloc_blocks)
qed

lemma demo_pmap: "pmap (kmem demo_kernel) 0x2000 v = None"
  by (simp add: demo_kernel_def pmap_def demo_tbl dir_path_def)

section \<open>Attributes\<close>

lemma leaf_entry:
  assumes "page_ok frame" and "attr < 4096" and "bit attr 0"
  shows "present (frame OR ucast attr)" and "(frame OR ucast (attr :: u32)) AND PAGE_MASK = frame"
proof -
  have "bit (ucast attr :: u64) 0" using assms(3) by (simp add: bit_simps)
  then show "present (frame OR ucast attr)"
    unfolding present_def PAGE_PRESENT_def
    using and_exp_eq_0_iff_not_bit [of "frame OR ucast attr" 0] by (simp add: bit_simps)
  have "unat (ucast attr :: u64) < 2 ^ 12"
    using assms(2) by (simp add: word_less_nat_alt unsigned_ucast_eq take_bit_nat_eq_self)
  then have "unat ((ucast attr :: u64) AND NOT (mask 12)) = 0"
    by (simp only: unat_and_not_mask) simp
  then have "(ucast attr :: u64) AND PAGE_MASK = 0" by (simp only: PAGE_MASK_eq unat_eq_0)
  then show "(frame OR ucast attr) AND PAGE_MASK = frame"
    by (simp only: bit.conj_disj_distrib2 page_ok_mask(1) [OF assms(1)] or.right_neutral)
qed

text \<open>The attributes are 32 bits wide, so \<open>PAGE_NO_EXECUTE\<close> never reaches an entry.\<close>

lemma map_page_no_execute_lost: "map_page mm frame page (ucast (attr OR PAGE_NO_EXECUTE)) s = map_page mm frame page (ucast attr) s"
proof -
  have "ucast (attr OR PAGE_NO_EXECUTE) = (ucast attr :: u32)"
  proof (rule bit_word_eqI)
    fix n :: nat assume n: "n < LENGTH(32)"
    then have "\<not> bit PAGE_NO_EXECUTE n" unfolding PAGE_NO_EXECUTE_def bit_push_bit_iff by simp
    then show "bit (ucast (attr OR PAGE_NO_EXECUTE) :: u32) n = bit (ucast attr :: u32) n" using n by (simp add: bit_simps)
  qed
  then show ?thesis by (simp only:)
qed

text \<open>The upper 256 entries of the top-level table are the addresses with bit 47 set.\<close>

lemma upper_half: "256 \<le> PML4_INDEX v \<longleftrightarrow> bit v 47"
proof -
  have "unat (PML4_INDEX v) = unat v div 2 ^ 39 mod 2 ^ 9"
    by (simp only: PML4_INDEX_def mask_numerals(2) unat_and_mask unat_drop_bit_div)
  moreover have "bit v 47 \<longleftrightarrow> odd (unat v div 2 ^ 39 div 2 ^ 8)"
  proof -
    have "bit v 47 \<longleftrightarrow> bit (unat v) 47" by (simp add: bit_unsigned_iff)
    then show ?thesis by (simp only: bit_iff_odd [of "unat v"] div_mult2_eq [symmetric] power_add [symmetric]) simp
  qed
  moreover have "256 \<le> n mod 2 ^ 9 \<longleftrightarrow> odd (n div 2 ^ 8)" for n :: nat
  proof -
    have "n mod (256 * 2) = 256 * (n div 256 mod 2) + n mod 256" by (rule mod_mult2_eq)
    moreover have "n mod 256 < 256" by simp
    moreover have "n div 256 mod 2 = (if odd (n div 256) then 1 else 0)" by (simp add: mod_2_eq_odd)
    ultimately show ?thesis by (cases "odd (n div 256)") simp_all
  qed
  ultimately show ?thesis by (simp add: word_le_nat_alt)
qed

section \<open>Properties of vmm.c\<close>

text \<open>C7. Mapping an unmapped page of a well-formed address space to a page below \<open>2 ^ 47\<close>, with attributes in the low twelve bits that include the
  present bit, and three frames free for tables:
  \<open>map_page\<close> succeeds, every address of the page now translates to the frame, every other
  address translates as before, the space stays well formed, the frames in use stay in use, and no
  byte outside its tables is written.\<close>

theorem map_page_correct:
  assumes "vm_inv s (pml4 mm)" and "3 \<le> card (free_frames s)" and "pmap (kmem s) (pml4 mm) page = None"
    and "page_ok frame" and "attr < 4096" and "bit attr 0"
  shows "\<exists>s'. map_page mm frame page attr s = Inr (True, s') \<and> vm_inv s' (pml4 mm) \<and>
    (\<forall>v. virt_to_phys (kmem s') mm v =
       (if same_page v page then frame + PAGE_OFFSET v else virt_to_phys (kmem s) mm v)) \<and>
    (\<forall>x. \<not> in_tables (kmem s') (pml4 mm) x \<longrightarrow> kmem s' x = kmem s x) \<and>
    alloc_blocks (kpmm s) \<subseteq> alloc_blocks (kpmm s')"
proof -
  have root: "pml4 mm AND PAGE_MASK = pml4 mm"
    using vm_invD(3) [OF assms(1), of "[]"] page_ok_mask(1) by (simp add: path_ok_def)
  obtain s' where "map_page mm frame page attr s = Inr (True, s')" "vm_inv s' (pml4 mm)"
    "\<forall>x. \<not> in_tables (kmem s') (pml4 mm) x \<longrightarrow> kmem s' x = kmem s x"
    "alloc_blocks (kpmm s) \<subseteq> alloc_blocks (kpmm s')"
    "\<forall>v. pmap (kmem s') (pml4 mm) v = (if same_page v page then Some (frame OR ucast attr) else pmap (kmem s) (pml4 mm) v)"
    using map_page_spec [OF assms(1) refl assms(2) leaf_entry(1) [OF assms(4-6)], of page] assms(3) by auto
  then show ?thesis
    using leaf_entry(2) [OF assms(4-6)] root by (auto simp: virt_to_phys_pmap)
qed

theorem map_page_correct_witness:
  "\<exists>s'. map_page \<lparr>pml4 = 0x2000\<rparr> 0x5000 0x400123 3 demo_kernel = Inr (True, s') \<and>
    virt_to_phys (kmem s') \<lparr>pml4 = 0x2000\<rparr> 0x400123 = 0x5123"
proof -
  have "page_ok 0x5000" by (simp add: page_ok_def)
  moreover have "vm_inv demo_kernel (pml4 \<lparr>pml4 = 0x2000\<rparr>)" "3 \<le> card (free_frames demo_kernel)"
    "pmap (kmem demo_kernel) (pml4 \<lparr>pml4 = 0x2000\<rparr>) 0x400123 = None"
    by (simp_all add: demo_vm_inv demo_free_frames demo_pmap)
  moreover have "same_page 0x400123 0x400123" "PAGE_OFFSET 0x400123 = 0x123"
    by (simp_all add: same_page_def PAGE_OFFSET_def)
  ultimately show ?thesis
    using map_page_correct [of demo_kernel "\<lparr>pml4 = 0x2000\<rparr>" "0x400123" "0x5000" 3] by fastforce
qed

text \<open>\<open>map_page\<close> on a page that is already mapped returns \<open>FALSE\<close> and changes nothing.\<close>

lemma map_page_already_mapped:
  assumes "pmap (kmem s) (pml4 mm) page \<noteq> None"
  shows "map_page mm frame page attr s = Inr (False, s)"
proof -
  have "NOT 0xFFF = PAGE_MASK" by (simp only: PAGE_MASK_eq)
  with assms show ?thesis
    by (simp add: pmap_def dir_path_def tbl.simps map_page_def ensure_table_alt entry_def [symmetric] Let_def split: if_splits)
qed

lemma demo_mapped:
  "\<exists>s1. map_page \<lparr>pml4 = 0x2000\<rparr> 0x5000 0x400123 3 demo_kernel = Inr (True, s1) \<and> vm_inv s1 0x2000 \<and>
     pmap (kmem s1) 0x2000 0x400123 = Some 0x5003"
proof -
  have pg: "page_ok 0x5000" by (simp add: page_ok_def)
  have same: "same_page 0x400123 0x400123" by (simp add: same_page_def)
  have "present (0x5000 OR ucast (3 :: u32))" by (rule leaf_entry(1) [OF pg]) (simp_all add: bit_numeral_rec)
  from map_page_spec [OF demo_vm_inv, of "\<lparr>pml4 = 0x2000\<rparr>", OF _ _ this, of "0x400123"]
  show ?thesis
    using same by (auto simp: demo_free_frames demo_pmap)
qed

text \<open>C16. \<open>unmap_page\<close> on a well-formed space returns the frame the page was mapped to, after which the page
  does not translate and every other address translates as before; on an unmapped page it returns
  \<open>INVALID_ADDRESS\<close> and changes nothing. No byte outside the tables is written.\<close>

theorem unmap_page_correct:
  assumes "vm_inv s (pml4 mm)"
  shows "\<exists>r m'. unmap_page mm page (kmem s) = (r, m') \<and> vm_inv (s\<lparr>kmem := m'\<rparr>) (pml4 mm) \<and>
    (pmap (kmem s) (pml4 mm) page = None \<longrightarrow> r = INVALID_ADDRESS \<and> m' = kmem s) \<and>
    (\<forall>e. pmap (kmem s) (pml4 mm) page = Some e \<longrightarrow> r = e AND PAGE_MASK) \<and>
    (\<forall>v. virt_to_phys m' mm v = (if same_page v page then INVALID_ADDRESS else virt_to_phys (kmem s) mm v)) \<and>
    (\<forall>x. \<not> in_tables m' (pml4 mm) x \<longrightarrow> m' x = kmem s x)"
proof -
  have root: "pml4 mm AND PAGE_MASK = pml4 mm"
    using vm_invD(3) [OF assms(1), of "[]"] page_ok_mask(1) by (simp add: path_ok_def)
  note run = unmap_page_spec [OF assms refl, of page]
  show ?thesis
  proof (cases "pmap (kmem s) (pml4 mm) page")
    case None
    have "virt_to_phys (kmem s) mm v = INVALID_ADDRESS" if "same_page v page" for v
    proof -
      have "pmap (kmem s) (pml4 mm) v = None" using None pmap_same_page [OF that] by simp
      then show ?thesis by (simp add: virt_to_phys_pmap root)
    qed
    with None run assms show ?thesis by simp
  next
    case (Some e)
    then obtain t where t: "tbl (kmem s) (pml4 mm) (dir_path page) = Some t"
      by (auto simp: pmap_def split: option.splits)
    have z: "\<not> present 0" by (simp add: present_def)
    note L = leaf_store [OF assms t, of 0]
    from run Some t have "unmap_page mm page (kmem s) = (e AND PAGE_MASK, store64 (kmem s) (entry_addr t (PT_INDEX page)) 0)"
      by simp
    then show ?thesis
      using L z Some by (simp add: virt_to_phys_pmap root)
  qed
qed

theorem unmap_page_correct_witness:
  "\<exists>s1 m'. map_page \<lparr>pml4 = 0x2000\<rparr> 0x5000 0x400123 3 demo_kernel = Inr (True, s1) \<and>
    unmap_page \<lparr>pml4 = 0x2000\<rparr> 0x400123 (kmem s1) = (0x5000, m') \<and>
    virt_to_phys m' \<lparr>pml4 = 0x2000\<rparr> 0x400123 = INVALID_ADDRESS"
proof -
  obtain s1 where s1: "map_page \<lparr>pml4 = 0x2000\<rparr> 0x5000 0x400123 3 demo_kernel = Inr (True, s1)"
    "vm_inv s1 0x2000" "pmap (kmem s1) 0x2000 0x400123 = Some 0x5003"
    using demo_mapped by blast
  have inv: "vm_inv s1 (pml4 \<lparr>pml4 = 0x2000\<rparr>)" using s1(2) by simp
  obtain r m' where u: "unmap_page \<lparr>pml4 = 0x2000\<rparr> 0x400123 (kmem s1) = (r, m')" "r = 0x5003 AND PAGE_MASK"
    "\<forall>v. virt_to_phys m' \<lparr>pml4 = 0x2000\<rparr> v =
      (if same_page v 0x400123 then INVALID_ADDRESS else virt_to_phys (kmem s1) \<lparr>pml4 = 0x2000\<rparr> v)"
    using unmap_page_correct [OF inv, of "0x400123"] s1(3) by auto
  have "r = 0x5000" using u(2) by (simp add: PAGE_MASK_def PAGE_SIZE_def)
  moreover have "same_page 0x400123 0x400123" by (simp add: same_page_def)
  ultimately show ?thesis using s1(1) u by auto
qed

text \<open>Round trip: unmapping a page just mapped gives its frame back and restores every translation.\<close>

lemma map_unmap_roundtrip:
  assumes "vm_inv s (pml4 mm)" and "3 \<le> card (free_frames s)" and "pmap (kmem s) (pml4 mm) page = None"
    and "page_ok frame" and "attr < 4096" and "bit attr 0"
  shows "\<exists>s' m'. map_page mm frame page attr s = Inr (True, s') \<and> unmap_page mm page (kmem s') = (frame, m') \<and>
    (\<forall>v. virt_to_phys m' mm v = virt_to_phys (kmem s) mm v)"
proof -
  have root: "pml4 mm AND PAGE_MASK = pml4 mm"
    using vm_invD(3) [OF assms(1), of "[]"] page_ok_mask(1) by (simp add: path_ok_def)
  obtain s' where s': "map_page mm frame page attr s = Inr (True, s')" "vm_inv s' (pml4 mm)"
    "\<And>v. pmap (kmem s') (pml4 mm) v = (if same_page v page then Some (frame OR ucast attr) else pmap (kmem s) (pml4 mm) v)"
    using map_page_spec [OF assms(1) refl assms(2) leaf_entry(1) [OF assms(4-6)], of page] assms(3) by auto
  have sp: "same_page page page" by (simp add: same_page_def)
  with s'(3) [of page] obtain t where t: "tbl (kmem s') (pml4 mm) (dir_path page) = Some t"
    by (auto simp: pmap_def split: option.splits)
  have z: "\<not> present 0" by (simp add: present_def)
  let ?m = "store64 (kmem s') (entry_addr t (PT_INDEX page)) 0"
  have u: "unmap_page mm page (kmem s') = (frame, ?m)"
    using unmap_page_spec [OF s'(2) refl, of page] s'(3) [of page] sp t leaf_entry(2) [OF assms(4-6)] by simp
  have "pmap ?m (pml4 mm) v = pmap (kmem s) (pml4 mm) v" for v
  proof (cases "same_page v page")
    case True
    then have "pmap (kmem s) (pml4 mm) v = None" using assms(3) pmap_same_page [OF True] by simp
    with True leaf_store(2) [OF s'(2) t, of 0 v] z show ?thesis by simp
  next
    case False
    with leaf_store(2) [OF s'(2) t, of 0 v] s'(3) [of v] show ?thesis by simp
  qed
  then show ?thesis using s'(1) u by (auto simp: virt_to_phys_pmap root)
qed

text \<open>C26. \<open>free_page_table\<close> on a tree whose pages and tables are distinct allocated frames returns without
  error, and frees exactly those frames: each page, each table, and the root.\<close>

theorem free_page_table_correct:
  assumes "pmm_inv pm" and "distinct (tree_frames level m t)"
    and "\<forall>f \<in> set (tree_frames level m t). (f, 0) \<in> alloc_blocks pm"
  shows "\<exists>pm'. free_page_table t level m pm = Inr pm' \<and> pmm_inv pm' \<and>
    alloc_blocks pm' = alloc_blocks pm - (\<lambda>f. (f, 0)) ` set (tree_frames level m t) \<and>
    cover (free_blocks pm') = cover (free_blocks pm) \<union> set (tree_frames level m t)"
proof -
  have "owns pm (tree_frames level m t)" using assms by (auto simp: owns_def)
  from free_page_table_released(1) [OF this] show ?thesis by (auto simp: released_def)
qed

lemma demo_tree: "tree_frames level (\<lambda>_. 0) t = [pfn t]"
  by (cases level) (simp_all add: kids_def demo_entry present_def)

theorem free_page_table_correct_witness:
  "\<exists>pm'. free_page_table 0x2000 3 (\<lambda>_. 0) demo_pmm = Inr pm' \<and> alloc_blocks pm' = {}"
proof -
  have "pfn 0x2000 = 2" by (simp add: pfn_def)
  then show ?thesis
    using free_page_table_correct [of demo_pmm 3 "\<lambda>_. 0" "0x2000"] demo_pmm_inv(1)
    by (auto simp: demo_tree demo_alloc_blocks)
qed

text \<open>C36. On two well-formed spaces, the user's top-level table being no table of the kernel's, \<open>map_kernel_for_user_mm\<close> makes every address of the upper half translate in the user space as in
  the kernel's, and leaves every address of the lower half as it was.\<close>

theorem map_kernel_for_user_mm_correct:
  assumes "vm_inv s (pml4 mm)" and "vm_inv s (kernel_mm s)"
    and "\<And>p. path_ok p \<Longrightarrow> tbl (kmem s) (kernel_mm s) p \<noteq> Some (pml4 mm)"
  shows "virt_to_phys (kmem (map_kernel_for_user_mm mm s)) mm v =
    (if bit v 47 then virt_to_phys (kmem s) \<lparr>pml4 = kernel_mm s\<rparr> v else virt_to_phys (kmem s) mm v)"
proof -
  have nil: "path_ok []" by (simp add: path_ok_def)
  have "pml4 mm AND PAGE_MASK = pml4 mm" "kernel_mm s AND PAGE_MASK = kernel_mm s"
    using vm_invD(3) [OF assms(1) nil] vm_invD(3) [OF assms(2) nil] page_ok_mask(1) by simp_all
  then show ?thesis
    using map_kernel_pmap [OF assms, of v] by (simp add: virt_to_phys_pmap upper_half)
qed

theorem map_kernel_for_user_mm_correct_witness:
  "\<exists>a pm. alloc_frames 0 demo_pmm = Inr (a, pm) \<and>
    (\<forall>v. virt_to_phys (kmem (map_kernel_for_user_mm \<lparr>pml4 = a\<rparr> (demo_kernel\<lparr>kpmm := pm\<rparr>))) \<lparr>pml4 = a\<rparr> v = INVALID_ADDRESS)"
proof -
  have "cover (free_blocks demo_pmm) \<noteq> {}" using demo_free_frames by (auto simp: free_frames_def demo_kernel_def)
  then obtain p pm where al0: "alloc_frames (int 0) demo_pmm = Inr (push_bit 12 (of_nat p), pm)" "pmm_inv pm"
      "p < mm_frames_count demo_pmm" "p \<in> cover (free_blocks demo_pmm)"
      "cover (free_blocks pm) = cover (free_blocks demo_pmm) - {p}"
      "alloc_blocks pm = insert (p, 0) (alloc_blocks demo_pmm)" "mm_frames_count pm = mm_frames_count demo_pmm"
    by (rule buddy.alloc_page [OF demo_pmm_inv(1)])
  then have al: "alloc_frames (int 0) demo_pmm = Inr (push_bit 12 (of_nat p), pm)" "pmm_inv pm" "p < 4"
      "p \<in> cover (free_blocks demo_pmm)" "alloc_blocks pm = {(p, 0), (2, 0)}" "mm_frames_count pm = 4"
    by (simp_all add: demo_views(1) demo_alloc_blocks)
  define a :: u64 where "a = push_bit 12 (of_nat p)"
  define s where "s = demo_kernel\<lparr>kpmm := pm\<rparr>"
  have p: "p < 2 ^ 35" "p \<noteq> 2"
    using al(3,4) demo_free_frames by (auto simp: free_frames_def demo_kernel_def)
  have a: "page_ok a" "unat a = p * 4096" using frame_page [OF p(1)] by (simp_all add: a_def)
  have k: "page_ok 0x2000" by (simp add: page_ok_def)
  have m: "kmem s = (\<lambda>_. 0)" "kernel_mm s = 0x2000" by (simp_all add: s_def demo_kernel_def)
  have inv: "vm_inv s (pml4 \<lparr>pml4 = a\<rparr>)" "vm_inv s (kernel_mm s)"
    using al(2,5,6) a k by (auto simp: vm_inv_def m demo_tbl s_def demo_kernel_def)
  have "(0x2000 :: u64) \<noteq> a"
  proof
    assume "0x2000 = a"
    then have "p * 4096 = unat (0x2000 :: u64)" using a(2) by simp
    with p(2) show False by simp
  qed
  then have apart: "tbl (kmem s) (kernel_mm s) q \<noteq> Some (pml4 \<lparr>pml4 = a\<rparr>)" for q
    by (simp add: m demo_tbl)
  have inval: "virt_to_phys (kmem s) mm v = INVALID_ADDRESS" for mm v
    by (simp add: m virt_to_phys_pmap pmap_def demo_tbl dir_path_def)
  have "virt_to_phys (kmem (map_kernel_for_user_mm \<lparr>pml4 = a\<rparr> s)) \<lparr>pml4 = a\<rparr> v = INVALID_ADDRESS" for v
    using map_kernel_for_user_mm_correct [OF inv apart, of v] inval by simp
  then show ?thesis using al(1) by (auto simp: a_def s_def)
qed

text \<open>C40. Out of memory: with no frame free, \<open>map_page\<close> does not fail when a table is missing. It stores the allocator's \<open>INVALID_ADDRESS\<close>
  as a page and then clears the page at that address: a write to a non-canonical address, so that the processor faults instead of \<open>map_page\<close> returning. When all
  three tables exist no frame is needed: it enters the page, or returns \<open>FALSE\<close> for a page that is mapped.\<close>

theorem map_page_out_of_memory:
  assumes "pmm_inv (kpmm s)" and "free_frames s = {}"
  shows "map_page mm frame page attr s =
    (case tbl (kmem s) (pml4 mm) (dir_path page) of
       None \<Rightarrow> Inl Fault
     | Some t \<Rightarrow> if present (entry (kmem s) t (PT_INDEX page)) then Inr (False, s)
         else Inr (True, s\<lparr>kmem := store64 (kmem s) (entry_addr t (PT_INDEX page)) (frame OR ucast attr)\<rparr>))"
proof -
  have "alloc_frames (int 0) (kpmm s) = Inr (INVALID_ADDRESS, kpmm s)"
    using buddy.alloc_exhausted [OF assms(1)] assms(2) by (simp add: free_frames_def)
  then have e: "ensure_table t i s = (if present (entry (kmem s) t i) then Inr (entry (kmem s) t i AND NOT 0xFFF, s) else Inl Fault)" for t i
    by (simp add: ensure_table_alt zero_page_invalid)
  have "PAGE_MASK = (NOT 0xFFF :: u64)" by (simp only: PAGE_MASK_eq)
  note e = e [folded this]
  show ?thesis
    by (simp add: map_page_def dir_path_def tbl.simps e entry_def [symmetric] Let_def)
qed

theorem map_page_out_of_memory_witness:
  "map_page \<lparr>pml4 = 0x2000\<rparr> 0x5000 0x400123 3 (demo_kernel\<lparr>kpmm := blank_pmm 4\<rparr>) = Inl Fault"
proof -
  let ?s = "demo_kernel\<lparr>kpmm := blank_pmm 4\<rparr>"
  have "pmm_inv (kpmm ?s)" "free_frames ?s = {}" using blank_pmm_ok [of 4] by (simp_all add: free_frames_def cover_def)
  from map_page_out_of_memory [OF this] show ?thesis by (simp add: demo_kernel_def demo_tbl dir_path_def)
qed

end
