(* ===== verification/Vmm_Space.thy ===== *)
theory Vmm_Space
  imports Vmm_Thms Pool_Heap
begin

text \<open>
  New address spaces: \<open>create_mm\<close> of \<open>mm/vmm.c\<close> uses the frame allocator for the top-level table and the kernel pools for the
  object. The space it returns is well formed and empty, so that \<open>map_page\<close> may be applied to it.
\<close>

section \<open>Changes beside the pools\<close>

text \<open>A page of the direct map that is no pool shares no byte with the pools' pages.\<close>

lemma page_beside_pools:
  assumes K: "kpool s ps" and t: "page_ok t" "(unat t div 4096, 0) \<in> alloc_blocks (kpmm s)" "phys_to_virt t \<notin> set (map fst ps)"
    and x: "Q \<in> set (map fst ps)" "unat (x - Q) < 4096"
  shows "\<not> in_page x t"
proof -
  have "pool_frame s Q" using K x(1) by (auto simp: kpool_def pool_ok_def)
  moreover have "pool_frame s (phys_to_virt t)" using t by (auto simp: pool_frame_def)
  moreover have "phys_to_virt t \<noteq> Q" using t(3) x(1) by metis
  ultimately show ?thesis using pool_pages_disjoint [of s "phys_to_virt t" Q x] x(2) by (auto simp: in_page_def)
qed

lemma zero_page_live:
  assumes "kpool s ps" and "page_ok t" "(unat t div 4096, 0) \<in> alloc_blocks (kpmm s)" "phys_to_virt t \<notin> set (map fst ps)"
  shows "kpool (s\<lparr>kmem := zeroed_page (kmem s) t\<rparr>) ps" and "x \<in> live ps \<Longrightarrow> zeroed_page (kmem s) t x = kmem s x"
proof -
  have same: "zeroed_page (kmem s) t x = kmem s x" if "Q \<in> set (map fst ps)" "unat (x - Q) < 4096" for Q x
    using page_beside_pools [OF assms that] by (simp add: zero_page_byte in_page_def)
  show "kpool (s\<lparr>kmem := zeroed_page (kmem s) t\<rparr>) ps" by (rule kpool_outside [OF assms(1) same])
  show "zeroed_page (kmem s) t x = kmem s x" if "x \<in> live ps" by (rule live_in_pools [OF assms(1) that]) (rule same)
qed

section \<open>An empty space\<close>

definition empty_table :: "mem \<Rightarrow> phys_addr \<Rightarrow> bool" where "empty_table m t \<longleftrightarrow> (\<forall>i < 512. \<not> present (entry m t i))"

lemma empty_tbl: "empty_table m t \<Longrightarrow> path_ok p \<Longrightarrow> tbl m t p = (if p = [] then Some t else None)"
  by (cases p) (auto simp: tbl.simps empty_table_def path_ok_def)

lemma empty_space:
  assumes "empty_table (kmem s) t" and "page_ok t" and "(unat t div 4096, 0) \<in> alloc_blocks (kpmm s)"
    and "pmm_inv (kpmm s)" and "mm_frames_count (kpmm s) \<le> 2 ^ 35"
  shows "vm_inv s t" and "pmap (kmem s) t v = None"
  using assms empty_tbl [OF assms(1)] path_ok_dir [of v] by (auto simp: vm_inv_def pmap_def dir_path_def split: if_splits)

text \<open>The cleared page stays empty when a word outside it is written.\<close>

lemma empty_zero_page:
  assumes t: "page_ok t" and a: "\<And>j. j < 8 \<Longrightarrow> \<not> in_page (a + of_nat j) t"
  shows "empty_table (store64 (zeroed_page m t) a v) t"
  unfolding empty_table_def
proof (intro allI impI)
  fix i :: u64 assume i: "i < 512"
  have "entry (store64 (zeroed_page m t) a v) t i = entry (zeroed_page m t) t i"
    unfolding entry_def
  proof (rule load_word_eqI)
    fix x assume x: "unat (x - entry_addr t i) < LENGTH(64) div 8"
    have "in_page x t" using in_page_entry [OF t i] x by simp
    then have "8 \<le> unat (x - a)" using a [of "unat (x - a)"] by (fastforce simp: not_le [symmetric])
    then show "store64 (zeroed_page m t) a v x = zeroed_page m t x" by (intro m64.store_byte_other) simp
  qed simp_all
  also have "\<dots> = 0" using entry_zero_page [OF t t i] by simp
  finally show "\<not> present (entry (store64 (zeroed_page m t) a v) t i)" by (simp add: present_def)
qed

section \<open>Creating a space\<close>

lemma frame_page_inject:
  assumes "f < 2 ^ 35" and "g < 2 ^ 35" and "phys_to_virt (push_bit 12 (of_nat f)) = phys_to_virt (push_bit 12 (of_nat g))"
  shows "f = g"
proof -
  have "push_bit 12 (of_nat f) = (push_bit 12 (of_nat g) :: u64)"
    using assms(3) unfolding phys_to_virt_def by (simp only: add_left_cancel add_right_cancel)
  then have "unat (push_bit 12 (of_nat f) :: u64) div 4096 = unat (push_bit 12 (of_nat g) :: u64) div 4096" by (rule arg_cong)
  then show ?thesis unfolding unat_frame_div [OF assms(1)] unat_frame_div [OF assms(2)] .
qed

text \<open>What \<open>create_mm\<close> promises: the object, and a top-level table in a frame that was free.\<close>

definition new_space :: "kernel \<Rightarrow> (u64 \<times> blocks) list \<Rightarrow> u64 \<Rightarrow> phys_addr \<Rightarrow> kernel \<Rightarrow> bool" where
  "new_space s ps a root s' \<longleftrightarrow> (\<exists>f ps'. f \<in> avail_frames s \<and> root = push_bit 12 (of_nat f) \<and> load64 (kmem s') a = root \<and>
     vm_inv s' root \<and> (\<forall>v. pmap (kmem s') root v = None) \<and> rflags (kcpu s') = rflags (kcpu s) \<and>
     kpool s' ps' \<and> chunk ps' a 8 \<and> (\<forall>j < 8. a + of_nat j \<notin> live ps) \<and> (\<forall>x \<in> live ps. kmem s' x = kmem s x))"

text \<open>The last step of \<open>create_mm\<close>: the page is cleared and its address stored in the object.\<close>

lemma fill_space:
  assumes K: "kpool s ps'" and t: "page_ok t" "(unat t div 4096, 0) \<in> alloc_blocks (kpmm s)" "phys_to_virt t \<notin> set (map fst ps')"
    and a: "chunk ps' a 8" and m: "m = store64 (zeroed_page (kmem s) t) a t"
  shows "kpool (s\<lparr>kmem := m\<rparr>) ps'" and "vm_inv (s\<lparr>kmem := m\<rparr>) t" and "pmap m t v = None" and "load64 m a = t"
    and "x \<in> live ps' \<Longrightarrow> 8 \<le> unat (x - a) \<Longrightarrow> m x = kmem s x" and "empty_table m t"
proof -
  have "\<not> in_page (a + of_nat j) t" if j: "j < 8" for j
  proof -
    obtain Q where "Q \<in> set (map fst ps')" "unat (a + of_nat j - Q) < 4096" by (rule live_in_pools [OF K chunk_live [OF a j]])
    then show ?thesis by (rule page_beside_pools [OF K t])
  qed
  then show e: "empty_table m t" unfolding m by (rule empty_zero_page [OF t(1)])
  show "kpool (s\<lparr>kmem := m\<rparr>) ps'" using chunk_store [OF zero_page_live(1) [OF K t] a, of t] by (simp add: m)
  have "pmm_inv (kpmm s)" "mm_frames_count (kpmm s) \<le> 2 ^ 35" using K by (simp_all add: kpool_def)
  then have "vm_inv (s\<lparr>kmem := m\<rparr>) t" "pmap (kmem (s\<lparr>kmem := m\<rparr>)) t v = None"
    by (intro empty_space; use e t(1,2) in simp)+
  then show "vm_inv (s\<lparr>kmem := m\<rparr>) t" "pmap m t v = None" by simp_all
  show "load64 m a = t" by (simp add: m m64.load_store_same)
  show "m x = kmem s x" if "x \<in> live ps'" "8 \<le> unat (x - a)"
  proof -
    have "m x = zeroed_page (kmem s) t x" unfolding m using that(2) by (intro m64.store_byte_other) simp
    then show ?thesis using zero_page_live(2) [OF K t that(1)] by simp
  qed
qed

text \<open>Its first step, and how it goes on from the result of \<open>kmalloc\<close>.\<close>

lemma create_mm_run:
  assumes K: "kpool s ps" and av: "avail_frames s \<noteq> {}"
  obtains f pm root where "f \<in> avail_frames s" and "f < 2 ^ 35" and "root = push_bit 12 (of_nat f)" and "page_ok root" and "unat root div 4096 = f"
    and "alloc_frames (int 0) (kpmm s) = Inr (root, pm)" and "root \<noteq> INVALID_ADDRESS" and "kpool (s\<lparr>kpmm := pm\<rparr>) ps"
    and "avail_frames (s\<lparr>kpmm := pm\<rparr>) = avail_frames s - {f}" and "alloc_blocks pm = insert (f, 0) (alloc_blocks (kpmm s))"
    and "\<And>a s2. kmalloc 8 (s\<lparr>kpmm := pm\<rparr>) = Inr (a, s2) \<Longrightarrow> create_mm s =
      (if a = 0 then rbind (free_frame root (kpmm s2)) (\<lambda>pm'. Inr (0, s2\<lparr>kpmm := pm'\<rparr>))
       else Inr (a, s2\<lparr>kmem := store64 (zeroed_page (kmem s2) root) a root\<rparr>))"
proof -
  have inv: "pmm_inv (kpmm s)" "mm_frames_count (kpmm s) \<le> 2 ^ 35" using K by (simp_all add: kpool_def)
  obtain f pm where al: "alloc_frames (int 0) (kpmm s) = Inr (push_bit 12 (of_nat f), pm)" "pmm_inv pm" "f < mm_frames_count (kpmm s)"
      "f \<in> cover (free_blocks (kpmm s))" "cover (free_blocks pm) = cover (free_blocks (kpmm s)) - {f}"
      "alloc_blocks pm = insert (f, 0) (alloc_blocks (kpmm s))" "mm_frames_count pm = mm_frames_count (kpmm s)"
    using buddy.alloc_page [OF inv(1)] av by (metis avail_frames_def)
  define root :: u64 where "root = push_bit 12 (of_nat f)"
  have f: "f < 2 ^ 35" "f \<in> avail_frames s" using al(3,4) inv(2) by (simp_all add: avail_frames_def)
  have ni: "root \<noteq> INVALID_ADDRESS" using frame_addr(2) [of f] f by (simp add: root_def INVALID_ADDRESS_def)
  have pg: "page_ok root" "unat root div 4096 = f" using frame_page(1) [OF f(1)] unat_frame_div [OF f(1)] by (simp_all add: root_def)
  have K1: "kpool (s\<lparr>kpmm := pm\<rparr>) ps" using K al(2,6,7) inv(2) by (intro kpool_pmm) auto
  have av1: "avail_frames (s\<lparr>kpmm := pm\<rparr>) = avail_frames s - {f}" using al(5) by (simp add: avail_frames_def)
  have run: "create_mm s = (if a = 0 then rbind (free_frame root (kpmm s2)) (\<lambda>pm'. Inr (0, s2\<lparr>kpmm := pm'\<rparr>))
      else Inr (a, s2\<lparr>kmem := store64 (zeroed_page (kmem s2) root) a root\<rparr>))" if "kmalloc 8 (s\<lparr>kpmm := pm\<rparr>) = Inr (a, s2)" for a s2
    using al(1) ni that zero_page_ok [OF pg(1)] by (simp add: create_mm_def root_def [symmetric] Let_def)
  from al(1,6) run show thesis by (intro that [of f root pm] f pg ni K1 av1 root_def) (simp_all add: root_def)
qed

lemma create_mm_new:
  assumes K: "kpool s ps" and room: "leaves_room 16 ps" and av: "avail_frames s \<noteq> {}"
  shows "\<exists>a s'. create_mm s = Inr (a, s') \<and>
    (if a = 0 then card (avail_frames s) = 1 \<and> kpool s' ps \<and> avail_frames s' = avail_frames s \<and> kmem s' = kmem s
     else \<exists>root. new_space s ps a root s')"
proof -
  have inv: "pmm_inv (kpmm s)" "mm_frames_count (kpmm s) \<le> 2 ^ 35" using K by (simp_all add: kpool_def)
  obtain f pm root where f: "f \<in> avail_frames s" "f < 2 ^ 35" and root: "root = push_bit 12 (of_nat f)" and pg: "page_ok root" "unat root div 4096 = f"
    and al: "alloc_frames (int 0) (kpmm s) = Inr (root, pm)" "root \<noteq> INVALID_ADDRESS"
    and K1: "kpool (s\<lparr>kpmm := pm\<rparr>) ps" and av1: "avail_frames (s\<lparr>kpmm := pm\<rparr>) = avail_frames s - {f}"
    and used: "alloc_blocks pm = insert (f, 0) (alloc_blocks (kpmm s))"
    and create: "\<And>a s2. kmalloc 8 (s\<lparr>kpmm := pm\<rparr>) = Inr (a, s2) \<Longrightarrow> create_mm s =
      (if a = 0 then rbind (free_frame root (kpmm s2)) (\<lambda>pm'. Inr (0, s2\<lparr>kpmm := pm'\<rparr>))
       else Inr (a, s2\<lparr>kmem := store64 (zeroed_page (kmem s2) root) a root\<rparr>))"
    by (rule create_mm_run [OF K av]) blast
  define s1 where "s1 = s\<lparr>kpmm := pm\<rparr>"
  obtain a s2 where a: "kmalloc 8 s1 = Inr (a, s2)" "served s1 ps 8 a s2"
    using kmalloc_served [OF K1, of 8] room by (auto simp: round16_def s1_def)
  note run = create [OF a(1) [unfolded s1_def]]
  show ?thesis
  proof (cases "a = 0")
    case True
    then have s2: "avail_frames s1 = {}" "s2 = s1\<lparr>kcpu := disable_interrupts (kcpu s1)\<rparr>" using a(2) by (simp_all add: served_def)
    obtain pm' where p: "free_frame root pm = Inr pm'" "pmm_inv pm'" "alloc_blocks pm' = alloc_blocks (kpmm s)"
        "cover (free_blocks pm') = cover (free_blocks (kpmm s))" "mm_frames_count pm' = mm_frames_count (kpmm s)"
      using buddy.alloc_release [OF inv(1) _ al] by auto
    have "avail_frames s = {f}" using s2(1) av1 f(1) by (auto simp: s1_def)
    moreover have "kpool (s\<lparr>kpmm := pm'\<rparr>) ps" using p inv(2) by (intro kpool_pmm [OF K]) simp_all
    then have "kpool (s2\<lparr>kpmm := pm'\<rparr>) ps" by (simp add: s2(2) s1_def kpool_def pool_ok_def pool_frame_def)
    ultimately show ?thesis using run True p(1,4) by (simp add: s2(2) s1_def avail_frames_def)
  next
    case False
    then obtain ps' where v: "kpool s2 ps'" "rflags (kcpu s2) = rflags (kcpu s1)" "chunk ps' a 8" "\<forall>j < 8. a + of_nat j \<notin> live ps"
        "\<forall>b L. chunk ps b L \<longrightarrow> chunk ps' b L" "\<forall>x \<in> live ps. kmem s2 x = kmem s1 x" "alloc_blocks (kpmm s1) \<subseteq> alloc_blocks (kpmm s2)"
        "\<forall>Q \<in> set (map fst ps'). Q \<in> set (map fst ps) \<or> (\<exists>g \<in> avail_frames s1. Q = phys_to_virt (push_bit 12 (of_nat g)))"
      using a(2) by (auto simp: served_def)
    have mem: "(unat root div 4096, 0) \<in> alloc_blocks (kpmm s2)" using v(7) used pg(2) by (auto simp: s1_def)
    have "g < 2 ^ 35" if "g \<in> avail_frames s" for g using buddy.avail_bound [OF inv(1)] that inv(2) by (fastforce simp: avail_frames_def)
    then have fresh: "phys_to_virt root \<notin> set (map fst ps')"
      using v(8) kpool_page_fresh [OF K f] frame_page_inject [OF f(2)] av1 unfolding s1_def root by blast
    note F = fill_space [OF v(1) pg(1) mem fresh v(3) refl]
    have "store64 (zeroed_page (kmem s2) root) a root x = kmem s x" if "x \<in> live ps" for x
      using F(5) [of x] chunk_live [of ps' x 1 0] v(5,6) live_chunk [OF that] chunk_fresh [OF v(4) that] that by (simp add: s1_def)
    then have "new_space s ps a root (s2\<lparr>kmem := store64 (zeroed_page (kmem s2) root) a root\<rparr>)"
      unfolding new_space_def using F(1-4) v(2-4) f(1) by (intro exI [of _ f] exI [of _ ps']) (simp add: root s1_def)
    then show ?thesis using run False by auto
  qed
qed

text \<open>Deleting an empty space frees its top-level table and nothing else.\<close>

lemma empty_tree: "empty_table m t \<Longrightarrow> tree_frames level m t = [pfn t]"
proof -
  assume e: "empty_table m t"
  have "\<not> present (entry m t (of_nat i))" if "i < 512" for i
  proof -
    have "(of_nat i :: u64) < 512" using that unat_of_nat_small [of i, where 'a = 64] by (simp add: word_less_nat_alt)
    with e show ?thesis by (simp add: empty_table_def)
  qed
  then have "kids sub m t 0 = []" for sub by (auto simp: kids_def)
  then show ?thesis by (simp add: tree_frames_eq)
qed

section \<open>Properties of address spaces\<close>

text \<open>C17. \<open>create_mm\<close>, provided that every free block long enough for 16 bytes leaves either nothing or room for a header (\<open>leaves_room 16\<close>; without
  this \<open>kmalloc\<close> may write the header of the remainder over its neighbour): without a free frame it returns NULL and changes nothing. Otherwise it either returns an object in pool bytes no block in use
  held, whose top-level table is a frame that was free: the new space is well formed and translates nothing, data in use is kept and the
  interrupt flag restored; \<open>swap_mm\<close> then makes it current with its table in CR3. Or it returns NULL, only when a single frame was free, and gives that frame back.\<close>

theorem create_mm_correct:
  assumes "kpool s ps" and "leaves_room 16 ps"
  shows "(avail_frames s = {} \<longrightarrow> create_mm s = Inr (0, s)) \<and>
    (avail_frames s \<noteq> {} \<longrightarrow> (\<exists>a s'. create_mm s = Inr (a, s') \<and>
      (a = 0 \<longrightarrow> card (avail_frames s) = 1 \<and> kpool s' ps \<and> avail_frames s' = avail_frames s \<and> kmem s' = kmem s) \<and>
      (a \<noteq> 0 \<longrightarrow> (\<exists>root ps'. root \<in> (\<lambda>f. push_bit 12 (of_nat f)) ` avail_frames s \<and> load64 (kmem s') a = root \<and>
         vm_inv s' root \<and> (\<forall>v. virt_to_phys (kmem s') \<lparr>pml4 = root\<rparr> v = INVALID_ADDRESS) \<and>
         kpool s' ps' \<and> chunk ps' a 8 \<and> (\<forall>j < 8. a + of_nat j \<notin> live ps) \<and> (\<forall>x \<in> live ps. kmem s' x = kmem s x) \<and>
         rflags (kcpu s') = rflags (kcpu s) \<and>
         (current_mm s' \<noteq> a \<longrightarrow> current_mm (swap_mm a s') = a \<and> cr3 (kcpu (swap_mm a s')) = root)))))"
proof (intro conjI impI)
  assume "avail_frames s = {}"
  then show "create_mm s = Inr (0, s)"
    using buddy.alloc_exhausted [of "kpmm s"] assms(1) by (simp add: create_mm_def avail_frames_def kpool_def)
next
  assume "avail_frames s \<noteq> {}"
  from create_mm_new [OF assms this] obtain a s' where c: "create_mm s = Inr (a, s')"
    "a = 0 \<Longrightarrow> card (avail_frames s) = 1 \<and> kpool s' ps \<and> avail_frames s' = avail_frames s \<and> kmem s' = kmem s"
    "a \<noteq> 0 \<Longrightarrow> \<exists>root. new_space s ps a root s'" by (auto split: if_splits)
  have "\<exists>root ps'. root \<in> (\<lambda>f. push_bit 12 (of_nat f)) ` avail_frames s \<and> load64 (kmem s') a = root \<and>
         vm_inv s' root \<and> (\<forall>v. virt_to_phys (kmem s') \<lparr>pml4 = root\<rparr> v = INVALID_ADDRESS) \<and>
         kpool s' ps' \<and> chunk ps' a 8 \<and> (\<forall>j < 8. a + of_nat j \<notin> live ps) \<and> (\<forall>x \<in> live ps. kmem s' x = kmem s x) \<and>
         rflags (kcpu s') = rflags (kcpu s) \<and>
         (current_mm s' \<noteq> a \<longrightarrow> current_mm (swap_mm a s') = a \<and> cr3 (kcpu (swap_mm a s')) = root)" if nz: "a \<noteq> 0"
  proof -
    obtain root f ps' where n: "f \<in> avail_frames s" "root = push_bit 12 (of_nat f)" "load64 (kmem s') a = root" "vm_inv s' root"
        "\<forall>v. pmap (kmem s') root v = None" "rflags (kcpu s') = rflags (kcpu s)" "kpool s' ps'" "chunk ps' a 8"
        "\<forall>j < 8. a + of_nat j \<notin> live ps" "\<forall>x \<in> live ps. kmem s' x = kmem s x"
      using c(3) [OF nz] unfolding new_space_def by blast
    have "root AND PAGE_MASK = root" using vm_invD(3) [OF n(4), of "[]"] page_ok_mask(1) by (simp add: path_ok_def)
    then have "virt_to_phys (kmem s') \<lparr>pml4 = root\<rparr> v = INVALID_ADDRESS" for v using n(5) by (simp add: virt_to_phys_pmap)
    moreover have "current_mm (swap_mm a s') = a \<and> cr3 (kcpu (swap_mm a s')) = root" if "current_mm s' \<noteq> a"
      using that nz n(3) by (simp add: swap_mm_def write_cr3_def)
    ultimately show ?thesis using n by blast
  qed
  then show "\<exists>a s'. create_mm s = Inr (a, s') \<and>
      (a = 0 \<longrightarrow> card (avail_frames s) = 1 \<and> kpool s' ps \<and> avail_frames s' = avail_frames s \<and> kmem s' = kmem s) \<and>
      (a \<noteq> 0 \<longrightarrow> (\<exists>root ps'. root \<in> (\<lambda>f. push_bit 12 (of_nat f)) ` avail_frames s \<and> load64 (kmem s') a = root \<and>
         vm_inv s' root \<and> (\<forall>v. virt_to_phys (kmem s') \<lparr>pml4 = root\<rparr> v = INVALID_ADDRESS) \<and>
         kpool s' ps' \<and> chunk ps' a 8 \<and> (\<forall>j < 8. a + of_nat j \<notin> live ps) \<and> (\<forall>x \<in> live ps. kmem s' x = kmem s x) \<and>
         rflags (kcpu s') = rflags (kcpu s) \<and>
         (current_mm s' \<noteq> a \<longrightarrow> current_mm (swap_mm a s') = a \<and> cr3 (kcpu (swap_mm a s')) = root)))"
    using c(1,2) by blast
qed

theorem create_mm_correct_witness:
  "\<exists>s a s' root. init_pool demo_kernel = Inr (True, s) \<and> create_mm s = Inr (a, s') \<and> a \<noteq> 0 \<and> load64 (kmem s') a = root \<and>
    virt_to_phys (kmem s') \<lparr>pml4 = root\<rparr> 0x400123 = INVALID_ADDRESS"
proof -
  obtain s Q where s: "init_pool demo_kernel = Inr (True, s)" "kpool s [(Q, [(4072, False)])]" "card (avail_frames s) = 2" by (rule demo_pool)
  have "leaves_room 16 [(Q, [(4072, False)])]" by (simp add: leaves_room_def)
  moreover have "avail_frames s \<noteq> {}" using s(3) by auto
  ultimately obtain a s' where a: "create_mm s = Inr (a, s')" "a = 0 \<longrightarrow> card (avail_frames s) = 1"
    "a \<noteq> 0 \<longrightarrow> (\<exists>root. load64 (kmem s') a = root \<and> (\<forall>v. virt_to_phys (kmem s') \<lparr>pml4 = root\<rparr> v = INVALID_ADDRESS))"
    using create_mm_correct [OF s(2)] by blast
  then have "a \<noteq> 0" using s(3) by auto
  with a s(1) show ?thesis by blast
qed

text \<open>C38. An address space that was just created cannot be deleted: when there is a single pool and its first block is free and serves the object (it
  has 48 bytes, or at least 72, so that what is left behind the object holds a header), \<open>create_mm\<close> succeeds; \<open>delete_mm\<close> then frees the table, so that exactly
  the frames free in the beginning are free again, and panics, because \<open>kfree\<close> does not accept the address \<open>kmalloc\<close> returned.\<close>

theorem delete_created_mm_panics:
  assumes K: "kpool s [(Q, (n, False) # ys)]" and n: "n = 48 \<or> 72 \<le> n" and av: "avail_frames s \<noteq> {}"
  shows "\<exists>a s' pm. create_mm s = Inr (a, s') \<and> a \<noteq> 0 \<and> free_page_table (load64 (kmem s') a) 3 (kmem s') (kpmm s') = Inr pm \<and>
    cover (free_blocks pm) = avail_frames s \<and> delete_mm a s' = Inl (Panic ''Double free detected'')"
proof -
  obtain f pm root where f: "f \<in> avail_frames s" "f < 2 ^ 35" and root: "root = push_bit 12 (of_nat f)" and pg: "page_ok root" "unat root div 4096 = f"
    and K1: "kpool (s\<lparr>kpmm := pm\<rparr>) [(Q, (n, False) # ys)]" and av1: "avail_frames (s\<lparr>kpmm := pm\<rparr>) = avail_frames s - {f}" and used: "alloc_blocks pm = insert (f, 0) (alloc_blocks (kpmm s))"
    and create: "\<And>a s2. kmalloc 8 (s\<lparr>kpmm := pm\<rparr>) = Inr (a, s2) \<Longrightarrow> create_mm s =
      (if a = 0 then rbind (free_frame root (kpmm s2)) (\<lambda>pm'. Inr (0, s2\<lparr>kpmm := pm'\<rparr>))
       else Inr (a, s2\<lparr>kmem := store64 (zeroed_page (kmem s2) root) a root\<rparr>))"
    by (rule create_mm_run [OF K av]) blast
  have r: "round16 (unat (8 :: u64)) = 16" by (simp add: round16_def)
  let ?a = "pool_first Q + 24" and ?ps' = "[(Q, take_block 16 [] n ys)]"
  from kmalloc_hit [of "s\<lparr>kpmm := pm\<rparr>" "[]" Q "[]" n ys "[]" 8] K1 n obtain s2 where
    s2: "kmalloc 8 (s\<lparr>kpmm := pm\<rparr>) = Inr (?a, s2)" "kpool s2 ?ps'" "kpmm s2 = pm" "\<forall>j < 8. in_data (take_block 16 [] n ys) (24 + j)"
    unfolding r by (auto simp: no_fit_def fits_def)
  have anz: "?a \<noteq> 0" using arena_nonzero [of "pool_first Q" 24] s2(2) by (simp add: kpool_def pool_ok_def pool_blocks_def)
  have chunk: "chunk ?ps' ?a 8" unfolding chunk_def using s2(4) by (intro exI [of _ Q] exI [of _ "take_block 16 [] n ys"] exI [of _ 24]) simp
  have mem: "(unat root div 4096, 0) \<in> alloc_blocks (kpmm s2)" using used pg(2) s2(3) by simp
  have fresh: "phys_to_virt root \<notin> set (map fst ?ps')" using kpool_page_fresh [OF K f] by (simp add: root)
  define m where "m = store64 (zeroed_page (kmem s2) root) ?a root"
  note F = fill_space [OF s2(2) pg(1) mem fresh chunk m_def]
  define s' where "s' = s2\<lparr>kmem := m\<rparr>"
  have "create_mm s = Inr (?a, s')" using create [OF s2(1)] anz by (simp add: s'_def m_def)
  moreover have "owns pm (tree_frames 3 m root)"
    using mem s2(3) F(1) by (simp add: empty_tree [OF F(6)] owns_def kpool_def pfn_def unat_drop_bit_div)
  then obtain pm' where pm': "free_page_table root 3 m pm = Inr pm'" "released [pfn root] pm pm'"
    using free_page_table_released(1) [of pm 3 m root] by (auto simp: empty_tree [OF F(6)])
  have "pfn root = f" using pg(2) by (simp add: pfn_def unat_drop_bit_div)
  then have "cover (free_blocks pm') = avail_frames s" using pm'(2) av1 f(1) by (auto simp: released_def avail_frames_def)
  moreover have "free_page_table (load64 (kmem s') ?a) 3 (kmem s') (kpmm s') = Inr pm'" using pm'(1) F(4) s2(3) by (simp add: s'_def)
  moreover from pm'(1) have "delete_mm ?a s' = kfree ?a (s'\<lparr>kpmm := pm'\<rparr>)" using F(4) s2(3) by (simp add: delete_mm_def s'_def)
  moreover have "pool_next m Q = 0" using F(1) by (simp add: kpool_def)
  then have "b_header m (?a - SIZEOF_BLOCK) = 0"
    by (simp add: pool_next_def b_header_def pool_first_def SIZEOF_POOL_def SIZEOF_BLOCK_def add.commute)
  then have "kfree ?a (s'\<lparr>kpmm := pm'\<rparr>) = Inl (Panic ''Double free detected'')"
    using anz by (simp add: kfree_free_mem IS_BLOCK_USED_def s'_def)
  ultimately show ?thesis using anz by auto
qed

theorem delete_created_mm_panics_witness:
  "\<exists>s a s'. init_pool demo_kernel = Inr (True, s) \<and> create_mm s = Inr (a, s') \<and> delete_mm a s' = Inl (Panic ''Double free detected'')"
proof -
  obtain s Q where s: "init_pool demo_kernel = Inr (True, s)" "kpool s [(Q, [(4072, False)])]" "card (avail_frames s) = 2" by (rule demo_pool)
  then have "avail_frames s \<noteq> {}" by auto
  from delete_created_mm_panics [OF s(2) _ this] s(1) show ?thesis by auto
qed

end
