(* ===== verification/Boot_Tables.thy ===== *)
theory Boot_Tables
  imports Kmem
begin

text \<open>
  The page tables \<open>boot/boot.S\<close> loads before it enters long mode, and what they translate. The rest of the kernel relies on them: the direct
  map at \<open>KERNEL_DIRECT_BASE\<close>, which \<open>phys_to_virt\<close> uses, the kernel image at \<open>KERNEL_IMAGE_BASE\<close>, and the identity map the boot code runs in.
  The walk is the processor's, with its four levels and its pages of 2 MiB and 1 GiB. Where the linker puts the tables is an argument, and so
  is physical memory, as the function from addresses to 64-bit words the walk reads.
\<close>

section \<open>The tables\<close>

definition initial_pml4 :: "u64 \<Rightarrow> u64 list" where
  "initial_pml4 pdpt = [pdpt + 0x03] @ replicate 255 0 @ [pdpt + 0x03] @ replicate 254 0 @ [pdpt + 0x03]"

definition initial_pdpt :: "u64 list" where
  "initial_pdpt = map (\<lambda>i. of_nat i * 0x40000000 + 0x83) [0..<510] @ [0 + 0x83, 0x40000000 + 0x83]"

text \<open>A table of 512 entries in physical memory.\<close>

definition table_at :: "(u64 \<Rightarrow> u64) \<Rightarrow> u64 \<Rightarrow> u64 list \<Rightarrow> bool" where
  "table_at rd a es \<longleftrightarrow> length es = 512 \<and> (\<forall>i < 512. rd (a + 8 * of_nat i) = es ! i)"

section \<open>The processor's walk\<close>

definition next_table :: "u64 \<Rightarrow> u64" where "next_table e = e AND 0x000FFFFFFFFFF000"

definition mmu_walk :: "(u64 \<Rightarrow> u64) \<Rightarrow> u64 \<Rightarrow> virt_addr \<Rightarrow> phys_addr option" where
  "mmu_walk rd root v =
     (let e4 = rd (next_table root + 8 * PML4_INDEX v) in
      if e4 AND PAGE_PRESENT = 0 then None else
      let e3 = rd (next_table e4 + 8 * PDPT_INDEX v) in
      if e3 AND PAGE_PRESENT = 0 then None
      else if e3 AND PAGE_HUGE \<noteq> 0 then Some ((e3 AND 0x000FFFFFC0000000) OR (v AND 0x3FFFFFFF)) else
      let e2 = rd (next_table e3 + 8 * PD_INDEX v) in
      if e2 AND PAGE_PRESENT = 0 then None
      else if e2 AND PAGE_HUGE \<noteq> 0 then Some ((e2 AND 0x000FFFFFFFE00000) OR (v AND 0x1FFFFF)) else
      let e1 = rd (next_table e2 + 8 * PT_INDEX v) in
      if e1 AND PAGE_PRESENT = 0 then None
      else Some (next_table e1 OR (v AND 0xFFF)))"

section \<open>Addresses as numbers\<close>

lemma unat_index:
  "unat (PML4_INDEX v) = unat v div 2 ^ 39 mod 512" "unat (PDPT_INDEX v) = unat v div 2 ^ 30 mod 512"
  by (simp_all only: PML4_INDEX_def PDPT_INDEX_def mask_numerals(2) unat_and_mask unat_drop_bit_div) simp_all

lemma initial_pml4_nth: "i \<in> {0, 256, 511} \<Longrightarrow> initial_pml4 pdpt ! i = pdpt + 3"
  by (auto simp: initial_pml4_def nth_append nth_Cons')

lemma initial_pdpt_nth: "i < 512 \<Longrightarrow> initial_pdpt ! i = of_nat (if i < 510 then i else i - 510) * 0x40000000 + 0x83"
proof -
  assume "i < 512"
  then consider "i < 510" | "i = 510" | "i = 511" by linarith
  then show ?thesis by cases (simp_all add: initial_pdpt_def nth_append)
qed

lemma bit_unat: "bit w n \<longleftrightarrow> odd (unat w div 2 ^ n)" for w :: u64
proof -
  have "bit w n \<longleftrightarrow> bit (unat w) n" by (simp add: bit_unsigned_iff)
  then show ?thesis by (simp only: bit_iff_odd)
qed

lemma address_masks:
  "(0x000FFFFFC0000000 :: u64) = mask 52 AND NOT (mask 30)" "(0x3FFFFFFF :: u64) = mask 30" "(0x000FFFFFFFFFF000 :: u64) = mask 52 AND NOT (mask 12)"
  by (simp_all add: mask_eq_exp_minus_1)

lemma unat_field: "unat (e AND (mask 52 AND NOT (mask n))) = unat e mod 2 ^ 52 div 2 ^ n * 2 ^ n" for e :: u64
  by (simp only: and.assoc [symmetric] unat_and_not_mask unat_and_mask)

lemma next_table_aligned: "4096 dvd unat t \<Longrightarrow> unat t < 2 ^ 52 \<Longrightarrow> k < 4096 \<Longrightarrow> next_table (t + of_nat k) = t"
proof -
  assume a: "4096 dvd unat t" "unat t < 2 ^ 52" "k < 4096"
  then obtain q where q: "unat t = 4096 * q" by (auto elim: dvdE)
  have "unat (t + of_nat k) = 4096 * q + k" using a q by (subst unat_add_nowrap) (simp_all add: unat_of_nat_small)
  moreover have "4096 * q + k < 2 ^ 52" using a q by simp
  ultimately have "unat (next_table (t + of_nat k)) = unat t"
    unfolding next_table_def address_masks unat_field using a(3) q by simp
  then show ?thesis by (rule unsigned_word_eqI)
qed

text \<open>An entry of 1 GiB for gigabyte \<open>g\<close>.\<close>

lemma huge_entry:
  assumes "g < 512" and "e = of_nat g * 0x40000000 + 0x83"
  shows "e AND PAGE_PRESENT \<noteq> 0" and "e AND PAGE_HUGE \<noteq> 0" and "unat (e AND 0x000FFFFFC0000000) = g * 2 ^ 30"
proof -
  have "e = of_nat (g * 2 ^ 30 + 0x83)" by (simp add: assms(2))
  then have u: "unat e = g * 2 ^ 30 + 0x83" using assms(1) by (simp only:) (rule unat_of_nat_small, simp)
  have "(g * 2 ^ 30 + 0x83) div 2 ^ 7 = g * 2 ^ 23 + 1" by simp
  then have "bit e 0" "bit e 7" unfolding bit_unat u by simp_all
  then show "e AND PAGE_PRESENT \<noteq> 0" "e AND PAGE_HUGE \<noteq> 0"
    unfolding PAGE_PRESENT_def PAGE_HUGE_def using and_exp_eq_0_iff_not_bit [of e 0] and_exp_eq_0_iff_not_bit [of e 7] by (simp_all add: push_bit_eq_mult)
  show "unat (e AND 0x000FFFFFC0000000) = g * 2 ^ 30" unfolding address_masks unat_field u using assms(1) by simp
qed

lemma walk_boot:
  assumes pml4: "table_at rd pml4 (initial_pml4 pdpt)" "4096 dvd unat pml4" "unat pml4 < 2 ^ 52"
    and pdpt: "table_at rd pdpt initial_pdpt" "4096 dvd unat pdpt" "unat pdpt < 2 ^ 52"
    and v: "unat v div 2 ^ 39 mod 512 \<in> {0, 256, 511}" "unat v div 2 ^ 30 mod 512 = i"
    and p: "unat p = (if i < 510 then i else i - 510) * 2 ^ 30 + unat v mod 2 ^ 30"
  shows "mmu_walk rd pml4 v = Some p"
proof -
  define k where "k = unat v div 2 ^ 39 mod 512"
  have i: "i < 512" "k < 512" using v(2) by (auto simp: k_def)
  have idx: "PML4_INDEX v = of_nat k" "PDPT_INDEX v = of_nat i"
  proof -
    have "unat (PML4_INDEX v) = unat (of_nat k :: u64)" "unat (PDPT_INDEX v) = unat (of_nat i :: u64)"
      using i v(2) by (simp_all only: unat_index k_def [symmetric]) (simp_all add: unat_of_nat_small)
    then show "PML4_INDEX v = of_nat k" "PDPT_INDEX v = of_nat i" using unsigned_word_eqI by blast+
  qed
  have r: "next_table pml4 = pml4" using next_table_aligned [OF pml4(2,3), of 0] by simp
  have e4: "rd (pml4 + 8 * of_nat k) = pdpt + 3" using pml4(1) v(1) initial_pml4_nth [of k pdpt] i(2) by (simp add: table_at_def k_def)
  have "next_table (pdpt + 3) = pdpt" using next_table_aligned [OF pdpt(2,3), of 3] by simp
  moreover have "(pdpt + 3) AND PAGE_PRESENT \<noteq> 0"
  proof -
    have "unat (pdpt + 3) = unat pdpt + 3" using pdpt(3) by (subst unat_add_nowrap) simp_all
    moreover have "even (unat pdpt)" using pdpt(2) by (rule dvd_trans [rotated]) simp
    ultimately have "bit (pdpt + 3) 0" unfolding bit_unat by simp
    then show ?thesis unfolding PAGE_PRESENT_def using and_exp_eq_0_iff_not_bit [of "pdpt + 3" 0] by simp
  qed
  moreover define g where "g = (if i < 510 then i else i - 510)"
  have "rd (pdpt + 8 * of_nat i) = of_nat g * 0x40000000 + 0x83"
    using pdpt(1) i(1) initial_pdpt_nth [OF i(1)] by (simp add: table_at_def g_def)
  moreover have "g < 512" using i(1) unfolding g_def by (auto intro: le_less_trans [OF diff_le_self])
  note H = huge_entry [OF this refl]
  ultimately have w: "mmu_walk rd pml4 v = Some (((of_nat g * 0x40000000 + 0x83) AND 0x000FFFFFC0000000) OR (v AND 0x3FFFFFFF))"
    using H(1,2) unfolding mmu_walk_def r idx e4 Let_def by simp
  have "unat p div 2 ^ 30 = g" "unat p mod 2 ^ 30 = unat v mod 2 ^ 30" using p by (simp_all add: g_def)
  then have "unat ((of_nat g * 0x40000000 + 0x83) AND 0x000FFFFFC0000000 :: u64) = unat (p AND NOT (mask 30))" "unat (v AND 0x3FFFFFFF) = unat (p AND mask 30)"
    by (simp only: H(3) unat_and_not_mask, simp only: address_masks unat_and_mask)
  then have "(of_nat g * 0x40000000 + 0x83) AND 0x000FFFFFC0000000 = p AND NOT (mask 30)" "v AND 0x3FFFFFFF = p AND mask 30"
    using unsigned_word_eqI by blast+
  moreover have "(p AND NOT (mask 30)) OR (p AND mask 30) = p" by (simp add: bit.conj_disj_distrib [symmetric])
  ultimately show ?thesis using w by (simp only:)
qed

text \<open>The fields of addresses in the direct map and in the image window.\<close>

lemma gigabytes: "unat p = unat p div 2 ^ 30 * 2 ^ 30 + unat p mod 2 ^ 30" for p :: u64
  by (rule div_mult_mod_eq [symmetric])

lemma direct_address:
  assumes "unat p < 2 ^ 39"
  shows "unat (phys_to_virt p) div 2 ^ 39 mod 512 = 256" and "unat (phys_to_virt p) div 2 ^ 30 mod 512 = unat p div 2 ^ 30"
    and "unat (phys_to_virt p) mod 2 ^ 30 = unat p mod 2 ^ 30"
proof -
  have d: "unat (phys_to_virt p) = unat p + (2 ^ 25 - 2 ^ 8) * 2 ^ 39"
    unfolding phys_to_virt_def using assms by (subst unat_add_nowrap) (simp_all add: KERNEL_DIRECT_BASE_def)
  have z: "unat p div 2 ^ 39 = 0" "unat p div 2 ^ 30 < 2 ^ 9" using assms by (simp_all add: less_mult_imp_div_less)
  have "unat (phys_to_virt p) div 2 ^ 39 = (2 ^ 25 - 2 ^ 8) + unat p div 2 ^ 39" unfolding d by (rule div_mult_self1) simp
  then show "unat (phys_to_virt p) div 2 ^ 39 mod 512 = 256" using z(1) by simp
  have e: "unat p + (2 ^ 25 - 2 ^ 8) * 2 ^ 39 = unat p + ((2 ^ 25 - 2 ^ 8) * 2 ^ 9) * 2 ^ 30" by simp
  have "unat (phys_to_virt p) div 2 ^ 30 = (2 ^ 25 - 2 ^ 8) * 2 ^ 9 + unat p div 2 ^ 30" unfolding d e by (rule div_mult_self1) simp
  then show "unat (phys_to_virt p) div 2 ^ 30 mod 512 = unat p div 2 ^ 30"
    using z(2) mod_mult_self3 [of "2 ^ 25 - 2 ^ 8" "2 ^ 9" "unat p div 2 ^ 30"] by simp
  show "unat (phys_to_virt p) mod 2 ^ 30 = unat p mod 2 ^ 30" unfolding d e by (rule mod_mult_self1)
qed

lemma image_address:
  assumes "unat p < 2 * 2 ^ 30"
  shows "unat (KERNEL_IMAGE_BASE + p) div 2 ^ 39 mod 512 = 511" and "unat (KERNEL_IMAGE_BASE + p) div 2 ^ 30 mod 512 = 510 + unat p div 2 ^ 30"
    and "unat (KERNEL_IMAGE_BASE + p) mod 2 ^ 30 = unat p mod 2 ^ 30"
proof -
  let ?v = "KERNEL_IMAGE_BASE + p"
  have u: "unat ?v = (2 ^ 34 - 2) * 2 ^ 30 + unat p"
    using assms by (subst unat_add_nowrap) (simp_all add: KERNEL_IMAGE_BASE_def)
  define q where "q = unat p div 2 ^ 30"
  have z: "q < 2" unfolding q_def using assms by (intro less_mult_imp_div_less)
  have d: "unat ?v div 2 ^ 30 = (2 ^ 34 - 2) + q" unfolding u q_def by (rule div_mult_self3) simp
  have e: "(2 ^ 34 - 2) + q = (2 ^ 25 - 1) * 2 ^ 9 + (510 + q)" by simp
  have "unat ?v div 2 ^ 39 = unat ?v div 2 ^ 30 div 2 ^ 9" by (simp add: div_mult2_eq [symmetric])
  also have "\<dots> = (2 ^ 25 - 1) + (510 + q) div 2 ^ 9" unfolding d e by (rule div_mult_self3) simp
  also have "\<dots> = 2 ^ 25 - 1" using z by simp
  finally show "unat ?v div 2 ^ 39 mod 512 = 511" by simp
  have "unat ?v div 2 ^ 30 mod 2 ^ 9 = (510 + q) mod 2 ^ 9" unfolding d e by (rule mod_mult_self3)
  also have "\<dots> = 510 + q" using z by simp
  finally show "unat ?v div 2 ^ 30 mod 512 = 510 + unat p div 2 ^ 30" by (simp add: q_def)
  show "unat ?v mod 2 ^ 30 = unat p mod 2 ^ 30" unfolding u by (rule mod_mult_self3)
qed

section \<open>Properties of boot.S\<close>

text \<open>What the tables translate, for the property below and for the code that loads them.\<close>

lemma boot_translates:
  assumes "table_at rd pml4 (initial_pml4 pdpt)" "4096 dvd unat pml4" "unat pml4 < 2 ^ 52"
    and "table_at rd pdpt initial_pdpt" "4096 dvd unat pdpt" "unat pdpt < 2 ^ 52"
  shows "(\<forall>p. unat p < 510 * 2 ^ 30 \<longrightarrow> mmu_walk rd pml4 (phys_to_virt p) = Some p \<and> mmu_walk rd pml4 p = Some p) \<and>
    (\<forall>p. unat p < 2 * 2 ^ 30 \<longrightarrow> mmu_walk rd pml4 (KERNEL_IMAGE_BASE + p) = Some p) \<and>
    (\<forall>p. 510 * 2 ^ 30 \<le> unat p \<and> unat p < 512 * 2 ^ 30 \<longrightarrow> mmu_walk rd pml4 (phys_to_virt p) = Some (p - 510 * 2 ^ 30))"
proof (intro conjI allI impI)
  note W = walk_boot [OF assms]
  fix p :: u64
  {
    assume p: "unat p < 510 * 2 ^ 30"
    then have "unat p < 2 ^ 39" by simp
    note d = direct_address [OF this]
    have g: "unat p div 2 ^ 30 < 510" using p by (intro less_mult_imp_div_less)
    show "mmu_walk rd pml4 (phys_to_virt p) = Some p" by (rule W [OF _ d(2)]) (use d(1,3) g gigabytes [of p] in simp_all)
    have "unat p div 2 ^ 39 = 0" "unat p div 2 ^ 30 mod 512 = unat p div 2 ^ 30" using p g by simp_all
    then show "mmu_walk rd pml4 p = Some p" using g gigabytes [of p] by (intro W [of p "unat p div 2 ^ 30"]) simp_all
  }
  {
    assume p: "unat p < 2 * 2 ^ 30"
    note d = image_address [OF this]
    show "mmu_walk rd pml4 (KERNEL_IMAGE_BASE + p) = Some p" by (rule W [OF _ d(2)]) (use d(1,3) gigabytes [of p] in simp_all)
  }
  assume p: "510 * 2 ^ 30 \<le> unat p \<and> unat p < 512 * 2 ^ 30"
  then have "unat p < 2 ^ 39" by simp
  note d = direct_address [OF this]
  have "unat (p - 510 * 2 ^ 30) = unat p - 510 * 2 ^ 30" using p by (subst unat_sub) (simp_all add: word_le_nat_alt)
  moreover have "510 \<le> unat p div 2 ^ 30" using p by (simp add: less_eq_div_iff_mult_less_eq)
  ultimately show "mmu_walk rd pml4 (phys_to_virt p) = Some (p - 510 * 2 ^ 30)"
    by (intro W [OF _ d(2)]) (use d(1,3) gigabytes [of p] in \<open>simp_all add: diff_mult_distrib\<close>)
qed

text \<open>C24. The page tables of \<open>boot.S\<close>, placed by the linker on pages below 4 PiB, translate every address below 510 GiB of the direct map to
  the physical address \<open>phys_to_virt\<close> comes from, the first 2 GiB of the kernel image's window and the first 510 GiB as they are. The last two
  gigabytes of the direct map's table are shared with the image window: there \<open>phys_to_virt p\<close> reaches the memory 510 GiB below \<open>p\<close>.\<close>

theorem boot_tables_translate:
  assumes "table_at rd pml4 (initial_pml4 pdpt)" "4096 dvd unat pml4" "unat pml4 < 2 ^ 52"
    and "table_at rd pdpt initial_pdpt" "4096 dvd unat pdpt" "unat pdpt < 2 ^ 52"
  shows "(\<forall>p. unat p < 510 * 2 ^ 30 \<longrightarrow> mmu_walk rd pml4 (phys_to_virt p) = Some p \<and> mmu_walk rd pml4 p = Some p) \<and>
    (\<forall>p. unat p < 2 * 2 ^ 30 \<longrightarrow> mmu_walk rd pml4 (KERNEL_IMAGE_BASE + p) = Some p) \<and>
    (\<forall>p. 510 * 2 ^ 30 \<le> unat p \<and> unat p < 512 * 2 ^ 30 \<longrightarrow> mmu_walk rd pml4 (phys_to_virt p) = Some (p - 510 * 2 ^ 30))"
  by (rule boot_translates [OF assms])

text \<open>The tables at \<open>0x101000\<close> and \<open>0x102000\<close>.\<close>

definition demo_tables :: "u64 \<Rightarrow> u64" where
  "demo_tables a = (if 0x102000 \<le> a \<and> a < 0x103000 then initial_pdpt ! (unat (a - 0x102000) div 8)
     else if 0x101000 \<le> a \<and> a < 0x102000 then initial_pml4 0x102000 ! (unat (a - 0x101000) div 8) else 0)"

theorem boot_tables_translate_witness:
  "mmu_walk demo_tables 0x101000 (phys_to_virt 0x12345678) = Some 0x12345678"
proof -
  have u: "unat (b + 8 * of_nat i) = unat b + 8 * i" if "i < 512" "unat b < 2 ^ 32" for i and b :: u64
  proof -
    have e: "(8 * of_nat i :: u64) = of_nat (8 * i)" by simp
    show ?thesis unfolding e using that by (subst unat_add_nowrap) (simp_all add: unat_of_nat_small del: of_nat_mult)
  qed
  have d: "unat (b + 8 * of_nat i - b) div 8 = i" if "i < 512" for i and b :: u64
  proof -
    have e: "b + 8 * of_nat i - b = of_nat (8 * i)" by simp
    show ?thesis unfolding e using that by (simp add: unat_of_nat_small del: of_nat_mult)
  qed
  have "demo_tables (0x101000 + 8 * of_nat i) = initial_pml4 0x102000 ! i" "demo_tables (0x102000 + 8 * of_nat i) = initial_pdpt ! i" if "i < 512" for i
    using u [OF that, of "0x101000"] u [OF that, of "0x102000"] d [OF that, of "0x101000"] d [OF that, of "0x102000"] that
    unfolding demo_tables_def word_le_nat_alt word_less_nat_alt by simp_all
  then have "table_at demo_tables 0x101000 (initial_pml4 0x102000)" "table_at demo_tables 0x102000 initial_pdpt"
    by (simp_all add: table_at_def initial_pml4_def initial_pdpt_def)
  from boot_tables_translate [OF this(1) _ _ this(2)] show ?thesis by simp
qed

end
