(* ===== verification/Gdt.thy ===== *)
theory Gdt
  imports Cpu
begin

text \<open>
  The global descriptor table and the task state segment of \<open>cpu/gdt.c\<close>. The addresses of the three
  objects the linker places (\<open>gdt\<close>, \<open>tss\<close>, \<open>ist1\<close>) are arguments. A descriptor is packed by
  \<open>MAKE_GDTE\<close> the way the processor unpacks it.
\<close>

definition GDTE_ACCESS_KERNEL_CODE :: u64 where [kconst]: "GDTE_ACCESS_KERNEL_CODE = 0x9A"
definition GDTE_ACCESS_KERNEL_DATA :: u64 where [kconst]: "GDTE_ACCESS_KERNEL_DATA = 0x92"
definition GDTE_ACCESS_USER_CODE :: u64 where [kconst]: "GDTE_ACCESS_USER_CODE = 0xFA"
definition GDTE_ACCESS_USER_DATA :: u64 where [kconst]: "GDTE_ACCESS_USER_DATA = 0xF2"
definition GDTE_ACCESS_TSS :: u64 where [kconst]: "GDTE_ACCESS_TSS = 0x89"
definition GDTE_FLAG_CODE :: u64 where [kconst]: "GDTE_FLAG_CODE = 0xA"
definition GDTE_FLAG_DATA :: u64 where [kconst]: "GDTE_FLAG_DATA = 0xC"

definition GDTE_OFFSET_LIMIT_LOW :: nat where [kconst]: "GDTE_OFFSET_LIMIT_LOW = 0"
definition GDTE_OFFSET_BASE_LOW :: nat where [kconst]: "GDTE_OFFSET_BASE_LOW = 16"
definition GDTE_OFFSET_BASE_MIDDLE :: nat where [kconst]: "GDTE_OFFSET_BASE_MIDDLE = 32"
definition GDTE_OFFSET_ACCESS :: nat where [kconst]: "GDTE_OFFSET_ACCESS = 40"
definition GDTE_OFFSET_LIMIT_HIGH :: nat where [kconst]: "GDTE_OFFSET_LIMIT_HIGH = 48"
definition GDTE_OFFSET_FLAGS :: nat where [kconst]: "GDTE_OFFSET_FLAGS = 52"
definition GDTE_OFFSET_BASE_HIGH :: nat where [kconst]: "GDTE_OFFSET_BASE_HIGH = 56"

definition MAKE_GDTE :: "u64 \<Rightarrow> u64 \<Rightarrow> u64 \<Rightarrow> u64 \<Rightarrow> u64" where
  "MAKE_GDTE base limit access flags =
     push_bit GDTE_OFFSET_LIMIT_LOW (limit AND 0x0000FFFF) OR
     push_bit GDTE_OFFSET_BASE_LOW (base AND 0x0000FFFF) OR
     push_bit (GDTE_OFFSET_BASE_MIDDLE - 16) (base AND 0x00FF0000) OR
     push_bit GDTE_OFFSET_ACCESS (access AND 0xFF) OR
     push_bit (GDTE_OFFSET_LIMIT_HIGH - 16) (limit AND 0x000F0000) OR
     push_bit GDTE_OFFSET_FLAGS (flags AND 0xF) OR
     push_bit (GDTE_OFFSET_BASE_HIGH - 24) (base AND 0xFF000000)"

definition MAKE_SYSTEM_GDTE_HIGH :: "u64 \<Rightarrow> u64" where
  "MAKE_SYSTEM_GDTE_HIGH base = drop_bit 32 base AND 0xFFFFFFFF"

record tss =
  reserved0 :: u32
  rsp0 :: u64
  rsp1 :: u64
  rsp2 :: u64
  reserved1 :: u64
  ist1 :: u64
  ist2 :: u64
  ist3 :: u64
  ist4 :: u64
  ist5 :: u64
  ist6 :: u64
  ist7 :: u64
  reserved2 :: u64
  reserved3 :: u16
  iomap_base :: u16

definition SIZEOF_TSS :: u64 where [kconst]: "SIZEOF_TSS = 104"

text \<open>\<open>memset(&tss, 0, sizeof(tss))\<close>.\<close>

definition zero_tss :: tss where
  "zero_tss = \<lparr>reserved0 = 0, rsp0 = 0, rsp1 = 0, rsp2 = 0, reserved1 = 0, ist1 = 0, ist2 = 0, ist3 = 0,
     ist4 = 0, ist5 = 0, ist6 = 0, ist7 = 0, reserved2 = 0, reserved3 = 0, iomap_base = 0\<rparr>"

definition gdt_initial :: "u64 list" where
  "gdt_initial =
     [0,
      MAKE_GDTE 0 0xFFFFF GDTE_ACCESS_KERNEL_CODE GDTE_FLAG_CODE,
      MAKE_GDTE 0 0xFFFFF GDTE_ACCESS_KERNEL_DATA GDTE_FLAG_DATA,
      MAKE_GDTE 0 0xFFFFF GDTE_ACCESS_USER_CODE GDTE_FLAG_CODE,
      MAKE_GDTE 0 0xFFFFF GDTE_ACCESS_USER_DATA GDTE_FLAG_DATA,
      0,
      0]"

record gdt_state =
  gdt :: "u64 list"
  tss_seg :: tss

text \<open>\<open>ltr\<close> loads the task register, and the processor marks the descriptor the selector names as busy, in the table in memory.\<close>

definition load_task_register :: "u16 \<Rightarrow> gdt_state \<times> cpu \<Rightarrow> gdt_state \<times> cpu" where
  "load_task_register sel = (\<lambda>(g, c). (g\<lparr>gdt := (gdt g)[unat (drop_bit 3 sel) := set_bit 41 (gdt g ! unat (drop_bit 3 sel))]\<rparr>, c\<lparr>tr := sel\<rparr>))"

text \<open>
  \<open>init_gdt\<close> for \<open>gdt\<close>, \<open>tss\<close> and the stack \<open>ist1\<close> at the given addresses. \<open>lgdt\<close> loads the table
  register; the far return and the moves load the segment registers, \<open>ltr\<close> the task register.
\<close>

definition init_gdt :: "u64 \<Rightarrow> u64 \<Rightarrow> u64 \<Rightarrow> gdt_state \<Rightarrow> cpu \<Rightarrow> gdt_state \<times> cpu" where
  "init_gdt gdt_addr tss_addr ist1_addr g c =
     (let t = zero_tss\<lparr>rsp0 := 0, ist1 := ist1_addr + 4096, iomap_base := 0xFFFF\<rparr>;
          g1 = (gdt g)[5 := MAKE_GDTE (tss_addr AND 0xFFFFFFFF) (SIZEOF_TSS - 1) GDTE_ACCESS_TSS 0];
          g2 = g1[6 := MAKE_SYSTEM_GDTE_HIGH tss_addr];
          c1 = c\<lparr>gdtr := (of_nat (8 * length g2) - 1, gdt_addr)\<rparr>;
          c2 = c1\<lparr>seg_data := ucast KERNEL_DATA_SELECTOR, seg_cs := ucast KERNEL_CODE_SELECTOR\<rparr>
      in load_task_register (ucast (MAKE_SEGMENT_SELECTOR 5 0 0)) (g\<lparr>gdt := g2, tss_seg := t\<rparr>, c2))"

definition set_rsp0 :: "u64 \<Rightarrow> gdt_state \<Rightarrow> gdt_state" where
  "set_rsp0 stack g = g\<lparr>tss_seg := (tss_seg g)\<lparr>rsp0 := stack\<rparr>\<rparr>"

section \<open>What the processor reads\<close>

text \<open>The fields of a segment descriptor at the bit positions of the architecture.\<close>

definition desc_base :: "u64 \<Rightarrow> u64" where
  "desc_base d = take_bit 24 (drop_bit 16 d) OR push_bit 24 (take_bit 8 (drop_bit 56 d))"

definition desc_limit :: "u64 \<Rightarrow> u64" where
  "desc_limit d = take_bit 16 d OR push_bit 16 (take_bit 4 (drop_bit 48 d))"

definition desc_access :: "u64 \<Rightarrow> u64" where "desc_access d = take_bit 8 (drop_bit 40 d)"
definition desc_flags :: "u64 \<Rightarrow> u64" where "desc_flags d = take_bit 4 (drop_bit 52 d)"

definition desc_dpl :: "u64 \<Rightarrow> u64" where "desc_dpl d = take_bit 2 (drop_bit 5 (desc_access d))"

text \<open>The entry of the table that a selector names.\<close>

definition selected :: "u64 list \<Rightarrow> 16 word \<Rightarrow> u64 option" where
  "selected g sel = (let i = unat (drop_bit 3 sel) in if i < length g then Some (g ! i) else None)"

lemma low_masks:
  "(0xFFFF :: u64) = mask 16" "(0xFF :: u64) = mask 8" "(0xF :: u64) = mask 4" "(0xFFFFFFFF :: u64) = mask 32"
  "(0x00FF0000 :: u64) = push_bit 16 (mask 8)" "(0x000F0000 :: u64) = push_bit 16 (mask 4)"
  "(0xFF000000 :: u64) = push_bit 24 (mask 8)"
  by (simp_all add: mask_eq_exp_minus_1 push_bit_eq_mult)

lemma bit_field: "bit (push_bit k (w AND push_bit j (mask n)) :: u64) i \<longleftrightarrow> i < 64 \<and> j + k \<le> i \<and> i < j + k + n \<and> bit w (i - k)"
  by (auto simp: bit_simps)

lemma bit_field0: "bit (push_bit k (w AND mask n) :: u64) i \<longleftrightarrow> i < 64 \<and> k \<le> i \<and> i < k + n \<and> bit w (i - k)"
  using bit_field [of k w 0 n i] by simp

lemma bit_MAKE_GDTE:
  "bit (MAKE_GDTE base limit access flags) i \<longleftrightarrow>
     (if i < 16 then bit limit i
      else if i < 40 then bit base (i - 16)
      else if i < 48 then bit access (i - 40)
      else if i < 52 then bit limit (i - 32)
      else if i < 56 then bit flags (i - 52)
      else i < 64 \<and> bit base (i - 32))"
proof -
  note offsets = GDTE_OFFSET_LIMIT_LOW_def GDTE_OFFSET_BASE_LOW_def GDTE_OFFSET_BASE_MIDDLE_def
    GDTE_OFFSET_ACCESS_def GDTE_OFFSET_LIMIT_HIGH_def GDTE_OFFSET_FLAGS_def GDTE_OFFSET_BASE_HIGH_def
  consider "i < 16" | "16 \<le> i" "i < 32" | "32 \<le> i" "i < 40" | "40 \<le> i" "i < 48" | "48 \<le> i" "i < 52" | "52 \<le> i" "i < 56" | "56 \<le> i"
    by linarith
  then show ?thesis
    unfolding MAKE_GDTE_def low_masks bit_or_iff bit_field bit_field0 offsets by cases simp_all
qed

lemma desc_MAKE_GDTE:
  "desc_base (MAKE_GDTE base limit access flags) = take_bit 32 base"
  "desc_limit (MAKE_GDTE base limit access flags) = take_bit 20 limit"
  "desc_access (MAKE_GDTE base limit access flags) = take_bit 8 access"
  "desc_flags (MAKE_GDTE base limit access flags) = take_bit 4 flags"
  unfolding desc_base_def desc_limit_def desc_access_def desc_flags_def
  by (rule bit_word_eqI; auto simp: bit_simps bit_MAKE_GDTE)+

text \<open>A descriptor made available and then marked busy.\<close>

lemma busy_MAKE_GDTE: "set_bit 41 (MAKE_GDTE base limit 0x89 flags) = MAKE_GDTE base limit 0x8B flags"
proof (rule bit_word_eqI)
  have b: "bit (0x8B :: u64) j \<longleftrightarrow> j = 1 \<or> bit (0x89 :: u64) j" for j
    by (simp add: bit_numeral_rec bit_1_iff split: nat.split)
  fix i assume "i < LENGTH(64)"
  then show "bit (set_bit 41 (MAKE_GDTE base limit 0x89 flags)) i = bit (MAKE_GDTE base limit 0x8B flags) i"
    using b [of "i - 40"] by (auto simp: bit_set_bit_iff bit_MAKE_GDTE)
qed

section \<open>Property of gdt.c\<close>

text \<open>The base of a system descriptor: 32 bits in the first entry, 32 bits in the next.\<close>

definition system_base :: "u64 \<Rightarrow> u64 \<Rightarrow> u64" where
  "system_base lo hi = desc_base lo OR push_bit 32 hi"

lemma system_base_tss:
  "system_base (MAKE_GDTE (a AND 0xFFFFFFFF) limit access flags) (MAKE_SYSTEM_GDTE_HIGH a) = a"
proof (rule bit_word_eqI)
  fix n assume "n < LENGTH(64)"
  then show "bit (system_base (MAKE_GDTE (a AND 0xFFFFFFFF) limit access flags) (MAKE_SYSTEM_GDTE_HIGH a)) n = bit a n"
    unfolding system_base_def desc_MAKE_GDTE MAKE_SYSTEM_GDTE_HIGH_def low_masks
    by (cases "n < 32") (auto simp: bit_simps)
qed

lemmas gdt_consts = GDTE_ACCESS_KERNEL_CODE_def GDTE_ACCESS_KERNEL_DATA_def GDTE_ACCESS_USER_CODE_def
  GDTE_ACCESS_USER_DATA_def GDTE_ACCESS_TSS_def GDTE_FLAG_CODE_def GDTE_FLAG_DATA_def SIZEOF_TSS_def

lemmas selector_defs = KERNEL_CODE_SELECTOR_def KERNEL_DATA_SELECTOR_def USER_CODE_SELECTOR_def
  USER_DATA_SELECTOR_def MAKE_SEGMENT_SELECTOR_def

text \<open>A segment descriptor read back: base, limit, access byte and flags.\<close>

definition is_desc :: "u64 \<Rightarrow> u64 \<Rightarrow> u64 \<Rightarrow> u64 \<Rightarrow> u64 option \<Rightarrow> bool" where
  "is_desc base limit access flags d \<longleftrightarrow>
     (case d of None \<Rightarrow> False | Some x \<Rightarrow> desc_base x = base \<and> desc_limit x = limit \<and> desc_access x = access \<and> desc_flags x = flags)"

text \<open>C32. Encoding and decoding of descriptors: the processor reads back from a packed descriptor exactly the
  base, limit, access byte and flags it was made of. After \<open>init_gdt\<close> the code and data segment registers
  select flat ring-0 code and data descriptors and the user selectors select flat ring-3 ones; the code descriptors have the flags of 64-bit
  code (0xA: 4 KiB units and the L bit), the data descriptors those of 32-bit data (0xC). The task register selects a
  64-bit task state segment, marked busy by \<open>ltr\<close>, whose base is the address of \<open>tss\<close> and whose limit covers it. The first entry is null. The
  processor's other registers are as before, and \<open>tss\<close> is cleared but for the interrupt stack and the I/O map base.\<close>

theorem init_gdt_correct:
  assumes "gdt g = gdt_initial" and "init_gdt ga ta ia g c = (g', c')"
  shows "(\<forall>b l a f. desc_base (MAKE_GDTE b l a f) = take_bit 32 b \<and> desc_limit (MAKE_GDTE b l a f) = take_bit 20 l \<and>
      desc_access (MAKE_GDTE b l a f) = take_bit 8 a \<and> desc_flags (MAKE_GDTE b l a f) = take_bit 4 f) \<and>
    length (gdt g') = 7 \<and> gdt g' ! 0 = 0 \<and>
    is_desc 0 0xFFFFF 0x9A 0xA (selected (gdt g') (seg_cs c')) \<and> is_desc 0 0xFFFFF 0x92 0xC (selected (gdt g') (seg_data c')) \<and>
    is_desc 0 0xFFFFF 0xFA 0xA (selected (gdt g') (ucast USER_CODE_SELECTOR)) \<and>
    is_desc 0 0xFFFFF 0xF2 0xC (selected (gdt g') (ucast USER_DATA_SELECTOR)) \<and>
    is_desc (take_bit 32 ta) 103 0x8B 0 (selected (gdt g') (tr c')) \<and> system_base (gdt g' ! 5) (gdt g' ! 6) = ta \<and>
    drop_bit 3 (tr c') = 5 \<and> desc_dpl (gdt g' ! 1) = 0 \<and> desc_dpl (gdt g' ! 2) = 0 \<and> desc_dpl (gdt g' ! 3) = 3 \<and> desc_dpl (gdt g' ! 4) = 3 \<and>
    c' = c\<lparr>gdtr := (55, ga), seg_data := 16, seg_cs := 8, tr := 40\<rparr> \<and>
    tss_seg g' = zero_tss\<lparr>ist1 := ia + 4096, iomap_base := 0xFFFF\<rparr>"
proof -
  have g': "gdt g' = [0, MAKE_GDTE 0 0xFFFFF 0x9A 0xA, MAKE_GDTE 0 0xFFFFF 0x92 0xC, MAKE_GDTE 0 0xFFFFF 0xFA 0xA,
      MAKE_GDTE 0 0xFFFFF 0xF2 0xC, MAKE_GDTE (ta AND 0xFFFFFFFF) 103 0x8B 0, MAKE_SYSTEM_GDTE_HIGH ta]"
    and ts: "tss_seg g' = zero_tss\<lparr>ist1 := ia + 4096, iomap_base := 0xFFFF\<rparr>"
    and c': "c' = c\<lparr>gdtr := (55, ga), seg_data := 16, seg_cs := 8, tr := 40\<rparr>"
    using assms by (auto simp: init_gdt_def gdt_initial_def gdt_consts selector_defs Let_def zero_tss_def load_task_register_def busy_MAKE_GDTE)
  have sel: "ucast USER_CODE_SELECTOR = (27 :: u16)" "ucast USER_DATA_SELECTOR = (35 :: u16)"
    by (simp_all add: selector_defs)
  have low: "take_bit 32 ta AND 0xFFFFFFFF = take_bit 32 ta" by (rule bit_word_eqI) (auto simp: low_masks bit_simps)
  show ?thesis
    unfolding g' ts c' sel selected_def desc_dpl_def is_desc_def
    by (simp add: desc_MAKE_GDTE system_base_tss low)
qed

theorem init_gdt_correct_witness:
  "\<exists>g' c'. init_gdt 0xFFFFFFFF80010000 0xFFFFFFFF80011000 0xFFFFFFFF80012000
      \<lparr>gdt = gdt_initial, tss_seg = zero_tss\<rparr> demo_cpu = (g', c') \<and> gdtr c' = (55, 0xFFFFFFFF80010000) \<and>
    is_desc 0 0xFFFFF 0x9A 0xA (selected (gdt g') (seg_cs c')) \<and> system_base (gdt g' ! 5) (gdt g' ! 6) = 0xFFFFFFFF80011000"
proof -
  let ?g = "\<lparr>gdt = gdt_initial, tss_seg = zero_tss\<rparr>"
  obtain g' c' where i: "init_gdt 0xFFFFFFFF80010000 0xFFFFFFFF80011000 0xFFFFFFFF80012000 ?g demo_cpu = (g', c')" by force
  have "gdt ?g = gdt_initial" by simp
  note C = init_gdt_correct [OF this i]
  then have "c' = demo_cpu\<lparr>gdtr := (55, 0xFFFFFFFF80010000), seg_data := 16, seg_cs := 8, tr := 40\<rparr>" by blast
  then have "gdtr c' = (55, 0xFFFFFFFF80010000)" by simp
  with C i show ?thesis by blast
qed

end
