(* ===== verification/Asm.thy ===== *)
theory Asm
  imports Kmem
begin

text \<open>
  The machine the kernel's assembly runs on: the sixteen general registers, the instruction pointer, the code and stack
  selectors, the flags, and byte memory. An instruction is a function on this state; only what \<open>kernel/asm.S\<close> and \<open>kernel/context.S\<close>
  use is here.
\<close>

datatype reg = RAX | RBX | RCX | RDX | RSI | RDI | RBP | RSP | R8 | R9 | R10 | R11 | R12 | R13 | R14 | R15

record asm =
  gpr :: "reg \<Rightarrow> u64"
  rip :: u64
  asm_cs :: u16
  asm_ss :: u16
  asm_rflags :: u64
  amem :: mem

definition push :: "u64 \<Rightarrow> asm \<Rightarrow> asm" where
  "push v s = (let sp = gpr s RSP - 8 in s\<lparr>gpr := (gpr s)(RSP := sp), amem := store64 (amem s) sp v\<rparr>)"

definition push_reg :: "reg \<Rightarrow> asm \<Rightarrow> asm" where "push_reg r s = push (gpr s r) s"

definition pop :: "reg \<Rightarrow> asm \<Rightarrow> asm" where
  "pop r s = s\<lparr>gpr := (gpr s)(RSP := gpr s RSP + 8, r := load64 (amem s) (gpr s RSP))\<rparr>"

definition mov :: "reg \<Rightarrow> reg \<Rightarrow> asm \<Rightarrow> asm" where
  "mov src dst s = s\<lparr>gpr := (gpr s)(dst := gpr s src)\<rparr>"

text \<open>\<open>mov src, off(base)\<close> and \<open>mov off(base), dst\<close>.\<close>

definition mov_store :: "reg \<Rightarrow> u64 \<Rightarrow> reg \<Rightarrow> asm \<Rightarrow> asm" where
  "mov_store src off base s = s\<lparr>amem := store64 (amem s) (gpr s base + off) (gpr s src)\<rparr>"

definition mov_load :: "u64 \<Rightarrow> reg \<Rightarrow> reg \<Rightarrow> asm \<Rightarrow> asm" where
  "mov_load off base dst s = s\<lparr>gpr := (gpr s)(dst := load64 (amem s) (gpr s base + off))\<rparr>"

definition add_imm :: "u64 \<Rightarrow> reg \<Rightarrow> asm \<Rightarrow> asm" where
  "add_imm v r s = s\<lparr>gpr := (gpr s)(r := gpr s r + v)\<rparr>"

definition ret :: "asm \<Rightarrow> asm" where
  "ret s = s\<lparr>rip := load64 (amem s) (gpr s RSP), gpr := (gpr s)(RSP := gpr s RSP + 8)\<rparr>"

text \<open>\<open>iretq\<close> takes the instruction pointer, the code selector, the flags, the stack pointer and the stack selector from the stack.\<close>

definition iretq :: "asm \<Rightarrow> asm" where
  "iretq s = (let sp = gpr s RSP; m = amem s in
     s\<lparr>rip := load64 m sp, asm_cs := ucast (load64 m (sp + 8)), asm_rflags := load64 m (sp + 16),
       gpr := (gpr s)(RSP := load64 m (sp + 24)), asm_ss := ucast (load64 m (sp + 32))\<rparr>)"

section \<open>Runs of pushes and pops\<close>

lemma push_other [simp]: "r \<noteq> RSP \<Longrightarrow> gpr (push v s) r = gpr s r"
  by (simp add: push_def Let_def)

lemma fold_push_reg:
  "RSP \<notin> set rs \<Longrightarrow> fold push_reg rs s = fold push (map (gpr s) rs) s"
proof (induction rs arbitrary: s)
  case (Cons r rs)
  have "map (gpr (push (gpr s r) s)) rs = map (gpr s) rs"
    using Cons.prems by (intro map_cong refl push_other) auto
  moreover have "fold push_reg rs (push (gpr s r) s) = fold push (map (gpr (push (gpr s r) s)) rs) (push (gpr s r) s)"
    using Cons.prems by (intro Cons.IH) simp
  ultimately show ?case by (simp only: fold_Cons comp_apply list.map push_reg_def [of r s])
qed simp

text \<open>
  The stack as the words at \<open>F\<close>, \<open>F + 8\<close>, \ldots: \<open>t\<close> is \<open>s\<close> with the values \<open>vs\<close> pushed, when the stack pointer of \<open>s\<close> is \<open>n\<close> words above \<open>F\<close>.
\<close>

definition pushed :: "u64 \<Rightarrow> nat \<Rightarrow> u64 list \<Rightarrow> asm \<Rightarrow> asm \<Rightarrow> bool" where
  "pushed F n vs s t \<longleftrightarrow> gpr t = (gpr s)(RSP := F + of_nat (8 * (n - length vs))) \<and>
     (\<forall>i < length vs. load64 (amem t) (F + of_nat (8 * (n - 1 - i))) = vs ! i) \<and>
     (\<forall>k < 2 ^ 64. k < 8 * (n - length vs) \<or> 8 * n \<le> k \<longrightarrow> amem t (F + of_nat k) = amem s (F + of_nat k)) \<and>
     t = s\<lparr>gpr := gpr t, amem := amem t\<rparr>"

lemma push_at:
  assumes "gpr s RSP = F + of_nat (8 * Suc n)"
  shows "gpr (push v s) = (gpr s)(RSP := F + of_nat (8 * n))" and "amem (push v s) = store64 (amem s) (F + of_nat (8 * n)) v"
    and "push v s = s\<lparr>gpr := gpr (push v s), amem := amem (push v s)\<rparr>"
proof -
  have "F + of_nat (8 * Suc n) - 8 = F + of_nat (8 * n)" by (simp add: algebra_simps)
  then show "gpr (push v s) = (gpr s)(RSP := F + of_nat (8 * n))" "amem (push v s) = store64 (amem s) (F + of_nat (8 * n)) v"
    "push v s = s\<lparr>gpr := gpr (push v s), amem := amem (push v s)\<rparr>"
    unfolding push_def Let_def assms by simp_all
qed

lemma push_run:
  assumes "gpr s RSP = F + of_nat (8 * n)" and "length vs \<le> n" and "n < 1000"
  shows "pushed F n vs s (fold push vs s)"
  using assms
proof (induction vs arbitrary: s n)
  case Nil
  then show ?case by (auto simp: pushed_def)
next
  case (Cons v vs)
  obtain m where n: "n = Suc m" using Cons.prems(2) by (cases n) auto
  note p = push_at [OF Cons.prems(1) [unfolded n], of v]
  define t where "t = fold push vs (push v s)"
  have "pushed F m vs (push v s) t" unfolding t_def using Cons.prems(2,3) p(1) by (intro Cons.IH) (simp_all add: n)
  then have t: "gpr t = (gpr (push v s))(RSP := F + of_nat (8 * (m - length vs)))"
    "\<And>i. i < length vs \<Longrightarrow> load64 (amem t) (F + of_nat (8 * (m - 1 - i))) = vs ! i"
    "\<And>k. k < 2 ^ 64 \<Longrightarrow> k < 8 * (m - length vs) \<or> 8 * m \<le> k \<Longrightarrow> amem t (F + of_nat k) = amem (push v s) (F + of_nat k)"
    "t = (push v s)\<lparr>gpr := gpr t, amem := amem t\<rparr>"
    unfolding pushed_def by blast+
  have "gpr t = (gpr s)(RSP := F + of_nat (8 * (n - length (v # vs))))" using t(1) p(1) by (simp add: n)
  moreover have "load64 (amem t) (F + of_nat (8 * (n - 1 - i))) = (v # vs) ! i" if "i < length (v # vs)" for i
  proof (cases i)
    case 0
    have "load64 (amem t) (F + of_nat (8 * m)) = load64 (amem (push v s)) (F + of_nat (8 * m))"
      using Cons.prems(3) by (intro load_offset_cong t(3)) (simp_all add: n)
    then show ?thesis by (simp add: 0 n p(2) m64.load_store_same)
  next
    case (Suc j)
    then show ?thesis using t(2) [of j] that by (simp add: n)
  qed
  moreover have "amem t (F + of_nat k) = amem s (F + of_nat k)" if "k < 2 ^ 64" "k < 8 * (n - length (v # vs)) \<or> 8 * n \<le> k" for k
  proof -
    have "amem t (F + of_nat k) = amem (push v s) (F + of_nat k)" using that by (intro t(3)) (auto simp: n)
    also have "\<dots> = amem s (F + of_nat k)" unfolding p(2) using that Cons.prems(2,3) by (intro store_offset_byte) (auto simp: n)
    finally show ?thesis .
  qed
  moreover have "t = s\<lparr>gpr := gpr t, amem := amem t\<rparr>"
    using t(4) p(3) by (metis asm.update_convs(1,6) asm.surjective asm.ext_inject)
  ultimately show ?case unfolding pushed_def t_def by simp
qed

lemma pushedD:
  assumes "pushed F n vs s t"
  shows "gpr t = (gpr s)(RSP := F + of_nat (8 * (n - length vs)))"
    and "i < length vs \<Longrightarrow> load64 (amem t) (F + of_nat (8 * (n - 1 - i))) = vs ! i"
    and "k < 2 ^ 64 \<Longrightarrow> k < 8 * (n - length vs) \<or> 8 * n \<le> k \<Longrightarrow> amem t (F + of_nat k) = amem s (F + of_nat k)"
  using assms unfolding pushed_def by blast+

text \<open>The words popped into the registers \<open>rs\<close>, lowest address first.\<close>

lemma pop_run:
  assumes "RSP \<notin> set rs" and "distinct rs"
  shows "gpr (fold pop rs s) RSP = gpr s RSP + of_nat (8 * length rs)"
    and "r \<noteq> RSP \<Longrightarrow> r \<notin> set rs \<Longrightarrow> gpr (fold pop rs s) r = gpr s r"
    and "i < length rs \<Longrightarrow> gpr (fold pop rs s) (rs ! i) = load64 (amem s) (gpr s RSP + of_nat (8 * i))"
    and "fold pop rs s = s\<lparr>gpr := gpr (fold pop rs s)\<rparr>"
proof -
  have "gpr (fold pop rs s) RSP = gpr s RSP + of_nat (8 * length rs) \<and> (\<forall>r. r \<noteq> RSP \<longrightarrow> r \<notin> set rs \<longrightarrow> gpr (fold pop rs s) r = gpr s r) \<and>
    (\<forall>i < length rs. gpr (fold pop rs s) (rs ! i) = load64 (amem s) (gpr s RSP + of_nat (8 * i))) \<and> fold pop rs s = s\<lparr>gpr := gpr (fold pop rs s)\<rparr>"
    using assms
  proof (induction rs arbitrary: s)
    case (Cons q rs)
    define s1 where "s1 = pop q s"
    have p: "gpr s1 RSP = gpr s RSP + 8" "gpr s1 q = load64 (amem s) (gpr s RSP)" "amem s1 = amem s" "s1 = s\<lparr>gpr := gpr s1\<rparr>"
      "\<And>r. r \<noteq> RSP \<Longrightarrow> r \<noteq> q \<Longrightarrow> gpr s1 r = gpr s r"
      using Cons.prems(1) by (auto simp: s1_def pop_def)
    define t where "t = fold pop rs s1"
    have t: "gpr t RSP = gpr s1 RSP + of_nat (8 * length rs)" "\<forall>r. r \<noteq> RSP \<longrightarrow> r \<notin> set rs \<longrightarrow> gpr t r = gpr s1 r"
      "\<forall>i < length rs. gpr t (rs ! i) = load64 (amem s1) (gpr s1 RSP + of_nat (8 * i))" "t = s1\<lparr>gpr := gpr t\<rparr>"
      using Cons.IH [of s1] Cons.prems unfolding t_def by auto
    have "gpr t ((q # rs) ! i) = load64 (amem s) (gpr s RSP + of_nat (8 * i))" if "i < length (q # rs)" for i
    proof (cases i)
      case 0
      then show ?thesis using t(2) Cons.prems p(2) by auto
    next
      case (Suc j)
      then show ?thesis using t(3) p(1,3) that by (simp add: add.assoc)
    qed
    moreover have "t = s\<lparr>gpr := gpr t\<rparr>" using t(4) p(4) by (metis asm.update_convs(1) asm.surjective asm.ext_inject)
    ultimately show ?case using t(1,2) p(1,5) unfolding s1_def [symmetric] t_def [symmetric] fold.simps comp_def by (auto simp: s1_def t_def)
  qed simp
  then show "gpr (fold pop rs s) RSP = gpr s RSP + of_nat (8 * length rs)"
    "r \<noteq> RSP \<Longrightarrow> r \<notin> set rs \<Longrightarrow> gpr (fold pop rs s) r = gpr s r"
    "i < length rs \<Longrightarrow> gpr (fold pop rs s) (rs ! i) = load64 (amem s) (gpr s RSP + of_nat (8 * i))"
    "fold pop rs s = s\<lparr>gpr := gpr (fold pop rs s)\<rparr>" by blast+
qed

end
