(* ===== verification/Boot_Entry.thy ===== *)
theory Boot_Entry
  imports Boot_Tables Gdt Asm
begin

text \<open>
  The entry code of \<open>boot/boot.S\<close>: from the protected mode a multiboot loader leaves the processor in to 64-bit mode with paging, and to \<open>kmain\<close>. The
  processor is the part of the architecture the code touches: control registers, the extended feature register, the descriptor-table
  register, selectors, and physical memory seen through the page tables once paging is on. An instruction that faults, or whose effect depends on
  what is not modelled, has no successor. Each instruction is fetched through the current translation.

  The section \<open>.init.data\<close> starts with the page-aligned \<open>initial_pml4\<close>; the labels behind it are at fixed distances. Its address, the addresses of the
  instructions, of \<open>idle_stack\<close> and of \<open>kmain\<close> are the linker's, so they are arguments.
\<close>

section \<open>The processor\<close>

datatype seg = DS | SS | ES | FS | GS

record boot_cpu =
  bgpr :: "reg \<Rightarrow> u64"
  bpc :: u64
  cr0 :: u32
  bcr3 :: u64
  cr4 :: u32
  efer :: u64
  bgdtr :: "u16 \<times> u64"
  segs :: "seg \<Rightarrow> u16"
  bcs :: u16
  cs_long :: bool
  bmem :: mem

text \<open>The bits of the registers the code sets or relies on.\<close>

abbreviation paging :: "boot_cpu \<Rightarrow> bool" where "paging s \<equiv> bit (cr0 s) 31"
abbreviation long_active :: "boot_cpu \<Rightarrow> bool" where "long_active s \<equiv> bit (efer s) 10"

definition translate :: "boot_cpu \<Rightarrow> u64 \<Rightarrow> u64 option" where
  "translate s a = (if paging s then mmu_walk (load64 (bmem s)) (bcr3 s) a else Some a)"

definition set_reg :: "reg \<Rightarrow> u64 \<Rightarrow> boot_cpu \<Rightarrow> boot_cpu" where
  "set_reg r v s = s\<lparr>bgpr := (bgpr s)(r := v)\<rparr>"

definition reg32 :: "reg \<Rightarrow> boot_cpu \<Rightarrow> u32" where "reg32 r s = ucast (bgpr s r)"

text \<open>The descriptor a selector names, read from memory through the table register.\<close>

definition load_descriptor :: "boot_cpu \<Rightarrow> u16 \<Rightarrow> u64 option" where
  "load_descriptor s sel =
     (let i = unat (drop_bit 3 sel) in
      if i = 0 \<or> bit sel 2 \<or> unat (fst (bgdtr s)) < 8 * i + 7 then None
      else map_option (load64 (bmem s)) (translate s (snd (bgdtr s) + of_nat (8 * i))))"

text \<open>Present, of ring 0, flat; a writable data segment, or a 64-bit code segment.\<close>

definition flat_data :: "u64 \<Rightarrow> bool" where
  "flat_data d \<longleftrightarrow> desc_access d AND 0x9A = 0x92 \<and> desc_dpl d = 0 \<and> desc_base d = 0 \<and> desc_limit d = 0xFFFFF"

definition long_code :: "u64 \<Rightarrow> bool" where
  "long_code d \<longleftrightarrow> desc_access d AND 0x98 = 0x98 \<and> desc_dpl d = 0 \<and> bit (desc_flags d) 1 \<and> \<not> bit (desc_flags d) 2"

section \<open>Instructions\<close>

datatype instr =
    MOVL_STORE reg u64 | MOVL_IMM u32 reg | ORL u32 reg | MOVW_IMM u16 reg
  | MOV_TO_CR3 reg | MOV_FROM_CR4 reg | MOV_TO_CR4 reg | MOV_FROM_CR0 reg | MOV_TO_CR0 reg
  | RDMSR | WRMSR | LGDT u64 | MOV_SEG reg seg | LJMP u16 u64
  | MOVQ_IMM u32 reg | ADDQ u32 reg | MOVL_LOAD u64 reg | MOVABS u64 reg | JMP reg

text \<open>The instructions behind \<open>.code64\<close> are encoded for 64-bit mode.\<close>

fun in_code64 :: "instr \<Rightarrow> bool" where
  "in_code64 (MOVQ_IMM v r) = True"
| "in_code64 (ADDQ v r) = True"
| "in_code64 (MOVL_LOAD a r) = True"
| "in_code64 (MOVABS v r) = True"
| "in_code64 (JMP r) = True"
| "in_code64 _ = False"

definition IA32_EFER :: u32 where "IA32_EFER = 0xC0000080"

text \<open>Turning paging on needs protection and, for long mode, physical-address extension; it activates long mode. Only that case is modelled.\<close>

definition write_cr0 :: "u32 \<Rightarrow> boot_cpu \<Rightarrow> boot_cpu option" where
  "write_cr0 v s =
     (if bit v 31 = paging s then Some (s\<lparr>cr0 := v\<rparr>)
      else if paging s \<or> \<not> bit v 0 \<or> \<not> bit (efer s) 8 \<or> \<not> bit (cr4 s) 5 \<or> bit (cr4 s) 12 \<or> cs_long s then None
      else Some (s\<lparr>cr0 := v, efer := set_bit 10 (efer s)\<rparr>))"

definition write_efer :: "u64 \<Rightarrow> boot_cpu \<Rightarrow> boot_cpu option" where
  "write_efer v s =
     (if paging s \<and> bit v 8 \<noteq> bit (efer s) 8 then None
      else Some (s\<lparr>efer := (if long_active s then set_bit 10 v else unset_bit 10 v)\<rparr>))"

fun exec :: "instr \<Rightarrow> boot_cpu \<Rightarrow> boot_cpu option" where
  "exec (MOVL_STORE r a) s = map_option (\<lambda>p. s\<lparr>bmem := store32 (bmem s) p (reg32 r s)\<rparr>) (translate s a)"
| "exec (MOVL_IMM v r) s = Some (set_reg r (ucast v) s)"
| "exec (ORL v r) s = Some (set_reg r (ucast (reg32 r s OR v)) s)"
| "exec (MOVW_IMM v r) s = Some (set_reg r ((bgpr s r AND NOT 0xFFFF) OR ucast v) s)"
| "exec (MOV_TO_CR3 r) s = Some (s\<lparr>bcr3 := ucast (reg32 r s)\<rparr>)"
| "exec (MOV_FROM_CR4 r) s = Some (set_reg r (ucast (cr4 s)) s)"
| "exec (MOV_TO_CR4 r) s = (if long_active s \<and> \<not> bit (reg32 r s) 5 then None else Some (s\<lparr>cr4 := reg32 r s\<rparr>))"
| "exec (MOV_FROM_CR0 r) s = Some (set_reg r (ucast (cr0 s)) s)"
| "exec (MOV_TO_CR0 r) s = write_cr0 (reg32 r s) s"
| "exec RDMSR s = (if reg32 RCX s \<noteq> IA32_EFER then None else Some (set_reg RAX (efer s AND 0xFFFFFFFF) (set_reg RDX (drop_bit 32 (efer s)) s)))"
| "exec WRMSR s = (if reg32 RCX s \<noteq> IA32_EFER then None else write_efer (push_bit 32 (ucast (reg32 RDX s)) OR ucast (reg32 RAX s)) s)"
| "exec (LGDT a) s = (case (translate s a, translate s (a + 2)) of
     (Some p, Some q) \<Rightarrow> Some (s\<lparr>bgdtr := (load_word (bmem s) p, ucast (load32 (bmem s) q))\<rparr>) | _ \<Rightarrow> None)"
| "exec (MOV_SEG r g) s = (case load_descriptor s (ucast (bgpr s r)) of None \<Rightarrow> None
     | Some d \<Rightarrow> if flat_data d then Some (s\<lparr>segs := (segs s)(g := ucast (bgpr s r))\<rparr>) else None)"
| "exec (LJMP sel target) s = (case load_descriptor s sel of None \<Rightarrow> None
     | Some d \<Rightarrow> if long_active s \<and> long_code d then Some (s\<lparr>bcs := sel, cs_long := True, bpc := target\<rparr>) else None)"
| "exec (MOVQ_IMM v r) s = Some (set_reg r (scast v) s)"
| "exec (ADDQ v r) s = Some (set_reg r (bgpr s r + scast v) s)"
| "exec (MOVL_LOAD a r) s = map_option (\<lambda>p. set_reg r (ucast (load32 (bmem s) p)) s) (translate s a)"
| "exec (MOVABS v r) s = Some (set_reg r v s)"
| "exec (JMP r) s = Some (s\<lparr>bpc := bgpr s r\<rparr>)"

text \<open>One instruction at \<open>a\<close>, with the next one at \<open>a'\<close>: it must be where the program counter is, in the memory at \<open>a\<close>, and encoded for the mode.\<close>

definition boot_step :: "instr \<Rightarrow> u64 \<Rightarrow> u64 \<Rightarrow> boot_cpu \<Rightarrow> boot_cpu option" where
  "boot_step x a a' s =
     (if bpc s \<noteq> a \<or> translate s a \<noteq> Some a \<or> in_code64 x \<noteq> cs_long s then None else exec x (s\<lparr>bpc := a'\<rparr>))"

primrec boot_run :: "(nat \<Rightarrow> u64) \<Rightarrow> nat \<Rightarrow> instr list \<Rightarrow> boot_cpu \<Rightarrow> boot_cpu option" where
  "boot_run at i [] s = Some s"
| "boot_run at i (x # xs) s = (case boot_step x (at i) (at (Suc i)) s of None \<Rightarrow> None | Some s' \<Rightarrow> boot_run at (Suc i) xs s')"

section \<open>boot.S\<close>

text \<open>The labels of \<open>.init.data\<close> for \<open>initial_pml4\<close> at \<open>P\<close>.\<close>

definition loader_info :: "u64 \<Rightarrow> u64" where "loader_info P = P + 0x2000"
definition loader_magic :: "u64 \<Rightarrow> u64" where "loader_magic P = P + 0x2004"
definition initial_gdt_at :: "u64 \<Rightarrow> u64" where "initial_gdt_at P = P + 0x2008"
definition initial_gdtr :: "u64 \<Rightarrow> u64" where "initial_gdtr P = P + 0x2020"

definition initial_gdt :: "u64 list" where
  "initial_gdt = [0x0000000000000000, 0x00af9a000000ffff, 0x00cf92000000ffff]"

text \<open>The tags behind the multiboot header: 16-bit type and flags, then 32-bit words, the first of which is the size in bytes.\<close>

definition multiboot2_framebuffer :: "u16 list \<times> u32 list" where "multiboot2_framebuffer = ([5, 0], [20, 800, 600, 0])"
definition multiboot2_end :: "u16 list \<times> u32 list" where "multiboot2_end = ([0, 0], [8])"

lemma tag_sizes:
  "hd (snd multiboot2_framebuffer) = of_nat (2 * length (fst multiboot2_framebuffer) + 4 * length (snd multiboot2_framebuffer))"
  "hd (snd multiboot2_end) = of_nat (2 * length (fst multiboot2_end) + 4 * length (snd multiboot2_end))"
  by (simp_all add: multiboot2_framebuffer_def multiboot2_end_def)

text \<open>\<open>_start_32\<close>, and \<open>_start_64\<close> from index 22 on.\<close>

definition start_32 :: "u64 \<Rightarrow> u64 \<Rightarrow> instr list" where
  "start_32 P start_64 =
     [MOVL_STORE RAX (loader_magic P), MOVL_STORE RBX (loader_info P),
      MOVL_IMM (ucast P) RAX, MOV_TO_CR3 RAX,
      MOV_FROM_CR4 RAX, ORL 0x20 RAX, MOV_TO_CR4 RAX,
      MOVL_IMM 0xC0000080 RCX, RDMSR, ORL 0x100 RAX, WRMSR,
      MOV_FROM_CR0 RAX, ORL 0x80000000 RAX, MOV_TO_CR0 RAX,
      LGDT (initial_gdtr P),
      MOVW_IMM 0x10 RAX, MOV_SEG RAX DS, MOV_SEG RAX SS, MOV_SEG RAX ES, MOV_SEG RAX FS, MOV_SEG RAX GS,
      LJMP 0x08 start_64]"

definition start_64 :: "u64 \<Rightarrow> u64 \<Rightarrow> u64 \<Rightarrow> instr list" where
  "start_64 P idle_stack kmain_at =
     [MOVQ_IMM (ucast idle_stack) RSP, ADDQ 4096 RSP,
      MOVL_LOAD (loader_magic P) RDI, MOVL_LOAD (loader_info P) RSI,
      MOVABS kmain_at RAX, JMP RAX]"

definition boot_start :: "(nat \<Rightarrow> u64) \<Rightarrow> u64 \<Rightarrow> u64 \<Rightarrow> u64 \<Rightarrow> boot_cpu \<Rightarrow> boot_cpu option" where
  "boot_start at P idle_stack kmain_at = boot_run at 0 (start_32 P (at 22) @ start_64 P idle_stack kmain_at)"

text \<open>The section in memory.\<close>

definition init_data :: "mem \<Rightarrow> u64 \<Rightarrow> bool" where
  "init_data m P \<longleftrightarrow> table_at (load64 m) P (initial_pml4 (P + 0x1000)) \<and> table_at (load64 m) (P + 0x1000) initial_pdpt \<and>
     (\<forall>i < 3. load64 m (initial_gdt_at P + of_nat (8 * i)) = initial_gdt ! i) \<and>
     load_word m (initial_gdtr P) = (24 - 1 :: u16) \<and> load64 m (initial_gdtr P + 2) = initial_gdt_at P"

section \<open>The data section\<close>

lemma init_dataD:
  assumes "init_data m P"
  shows "table_at (load64 m) P (initial_pml4 (P + 0x1000))" and "table_at (load64 m) (P + 0x1000) initial_pdpt"
    and "i < 3 \<Longrightarrow> load64 m (initial_gdt_at P + of_nat (8 * i)) = initial_gdt ! i"
    and "load_word m (initial_gdtr P) = (24 - 1 :: u16)" and "load64 m (initial_gdtr P + 2) = initial_gdt_at P"
  using assms unfolding init_data_def by blast+

lemma init_data_word:
  assumes "\<And>x. 8 \<le> unat (x - loader_info P) \<Longrightarrow> m' x = m x" and "8 dvd LENGTH('a)" and "LENGTH('a) \<le> 64"
    and "off + LENGTH('a) div 8 \<le> 0x2000 \<or> 0x2008 \<le> off" and "off < 0x4000"
  shows "(load_word m' (P + of_nat off) :: 'a::len word) = load_word m (P + of_nat off)"
proof (rule load_word_eqI [OF assms(2,3)])
  fix x assume x: "unat (x - (P + of_nat off)) < LENGTH('a) div 8"
  define k where "k = unat (x - (P + of_nat off))"
  have e: "x = P + of_nat (off + k)" by (simp add: k_def)
  have k: "k < LENGTH('a) div 8" "k < 8" using x assms(3) by (simp_all add: k_def)
  have "loader_info P = P + of_nat 0x2000" by (simp add: loader_info_def)
  then have "8 \<le> unat (x - loader_info P)"
    using k assms(4,5) unfolding e by (simp only:) (subst unat_offset_diff, auto)
  then show "m' x = m x" by (rule assms(1))
qed

lemma init_data_kept:
  assumes "init_data m P" and "\<And>x. 8 \<le> unat (x - loader_info P) \<Longrightarrow> m' x = m x"
  shows "init_data m' P"
proof -
  note L = init_data_word [where m = m and m' = m' and P = P, OF assms(2)]
  have w: "load64 m' a = load64 m a" if "a = P + of_nat off" "off + 8 \<le> 0x2000 \<or> 0x2008 \<le> off" "off < 0x4000" for a off
    unfolding that(1) by (rule L) (use that(2,3) in simp_all)
  have "load64 m' (P + 8 * of_nat i) = load64 m (P + 8 * of_nat i)" "load64 m' (P + 0x1000 + 8 * of_nat i) = load64 m (P + 0x1000 + 8 * of_nat i)" if "i < 512" for i
    using w [of _ "8 * i"] w [of _ "0x1000 + 8 * i"] that by (simp_all add: add.assoc)
  moreover have "load64 m' (initial_gdt_at P + of_nat (8 * i)) = load64 m (initial_gdt_at P + of_nat (8 * i))" if "i < 3" for i
    using w [of _ "0x2008 + 8 * i"] that by (simp add: initial_gdt_at_def add.assoc)
  moreover have "load64 m' (initial_gdtr P + 2) = load64 m (initial_gdtr P + 2)" "(load_word m' (initial_gdtr P) :: u16) = load_word m (initial_gdtr P)"
    using w [of "P + 0x2022" "0x2022"] L [where 'a = 16, of "0x2020"] by (simp_all add: initial_gdtr_def add.assoc)
  ultimately show ?thesis using assms(1) by (simp add: init_data_def table_at_def)
qed

lemma load32_low: "load32 m a = ucast (load64 m a)"
  by (rule bit_word_eqI) (auto simp: bit_load_word bit_simps)

lemma store_magic_kept: "8 \<le> unat (x - loader_info P) \<Longrightarrow> store32 m (loader_magic P) v x = m x" "8 \<le> unat (x - loader_info P) \<Longrightarrow> store32 m (loader_info P) v x = m x"
proof -
  assume a: "8 \<le> unat (x - loader_info P)"
  have "(4 :: u64) \<le> x - loader_info P" using a by (simp add: word_le_nat_alt)
  from unat_sub [OF this] a have "4 \<le> unat (x - loader_info P - 4)" by simp
  moreover have "x - loader_magic P = x - loader_info P - 4" by (simp add: loader_magic_def loader_info_def)
  ultimately show "store32 m (loader_magic P) v x = m x" by (intro m32.store_byte_other) (simp only:)
  show "store32 m (loader_info P) v x = m x" using a by (intro m32.store_byte_other) simp
qed

lemma cells_apart: "apart 4 (loader_magic P) (loader_info P)"
  using apart_offsets [of "0x2004" "0x2000" 4 P] by (simp add: loader_magic_def loader_info_def)

section \<open>Reading descriptors and tables\<close>

lemma flat_descriptors: "long_code 0x00af9a000000ffff" "flat_data 0x00cf92000000ffff"
  by (simp_all add: long_code_def flat_data_def desc_access_def desc_dpl_def desc_base_def desc_limit_def desc_flags_def)

lemma translate_low:
  assumes "init_data (bmem s) P" and "4096 dvd unat P" and "unat P < 2 ^ 32" and "bcr3 s = P" and "unat a < 510 * 2 ^ 30"
  shows "translate s a = Some a"
proof -
  have u: "unat (P + 0x1000) = unat P + 0x1000" using assms(3) by (subst unat_add_nowrap) simp_all
  have "4096 dvd unat (P + 0x1000)" unfolding u using assms(2) by (intro dvd_add) simp_all
  with boot_translates [of "load64 (bmem s)" P "P + 0x1000"] u assms show ?thesis by (simp add: translate_def init_data_def)
qed

lemma descriptor_boot:
  assumes "init_data (bmem s) P" and "4096 dvd unat P" and "unat P < 2 ^ 32 - 0x3000" and "bcr3 s = P" and "bgdtr s = (23, initial_gdt_at P)"
    and "sel = 8 * of_nat i" and "i \<in> {1, 2}"
  shows "load_descriptor s sel = Some (initial_gdt ! i)"
proof -
  have i: "unat (drop_bit 3 sel) = i" "\<not> bit sel 2" using assms(6,7) by auto
  have "unat (initial_gdt_at P + of_nat (8 * i)) < 510 * 2 ^ 30"
  proof -
    have e: "initial_gdt_at P + of_nat (8 * i) = P + of_nat (0x2008 + 8 * i)" by (simp add: initial_gdt_at_def)
    show ?thesis unfolding e using assms(3,7) by (subst unat_add_nowrap) (auto simp: unat_of_nat_small)
  qed
  from translate_low [OF assms(1,2) _ assms(4) this] have "translate s (initial_gdt_at P + of_nat (8 * i)) = Some (initial_gdt_at P + of_nat (8 * i))"
    using assms(3) by simp
  moreover have "load64 (bmem s) (initial_gdt_at P + of_nat (8 * i)) = initial_gdt ! i"
    using init_dataD(3) [OF assms(1), of i] assms(7) by auto
  ultimately show ?thesis using assms(5,7) by (auto simp: load_descriptor_def i)
qed

section \<open>The run\<close>

lemma boot_run_append:
  "boot_run at i (xs @ ys) s = (case boot_run at i xs s of None \<Rightarrow> None | Some s' \<Rightarrow> boot_run at (i + length xs) ys s')"
  by (induction xs arbitrary: i s) (auto split: option.splits)

text \<open>The state in front of the code: protected mode without paging, as the loader leaves it.\<close>

definition protected_mode :: "boot_cpu \<Rightarrow> bool" where
  "protected_mode s \<longleftrightarrow> bit (cr0 s) 0 \<and> \<not> paging s \<and> \<not> long_active s \<and> \<not> bit (cr4 s) 12 \<and> \<not> cs_long s"

text \<open>Up to the instruction that turns paging on, translation is the identity.\<close>

lemma step_unpaged:
  "\<not> paging s \<Longrightarrow> \<not> cs_long s \<Longrightarrow> \<not> in_code64 x \<Longrightarrow> bpc s = at i \<Longrightarrow>
   boot_run at i (x # xs) s = (case exec x (s\<lparr>bpc := at (Suc i)\<rparr>) of None \<Rightarrow> None | Some s' \<Rightarrow> boot_run at (Suc i) xs s')"
  by (simp add: boot_step_def translate_def)

lemma ucast_low: "unat a < 2 ^ 32 \<Longrightarrow> ucast (ucast a :: u32) = a" for a :: u64
proof -
  assume "unat a < 2 ^ 32"
  then have "unat (ucast (ucast a :: u32) :: u64) = unat a" by (simp add: unsigned_ucast_eq unsigned_take_bit_eq take_bit_nat_eq_self)
  then show ?thesis by (rule unsigned_word_eqI)
qed

lemma reg32_zext: "ucast (ucast v :: u64) = v" for v :: u32
  by (rule bit_word_eqI) (simp add: bit_simps)

lemmas run_defs = start_32_def start_64_def step_unpaged protected_mode_def translate_def set_reg_def reg32_def reg32_zext numeral_2_eq_2 [symmetric]

lemma phase_tables:
  assumes "protected_mode s" and "bpc s = at 0" and "unat P < 2 ^ 32"
  shows "\<exists>g. boot_run at 0 (take 7 (start_32 P st)) s =
    Some (s\<lparr>bgpr := g, bpc := at 7, bcr3 := P, cr4 := cr4 s OR 0x20,
      bmem := store32 (store32 (bmem s) (loader_magic P) (reg32 RAX s)) (loader_info P) (reg32 RBX s)\<rparr>)"
  using assms by (intro exI [of _ "(bgpr s)(RAX := ucast (cr4 s OR 0x20))"]) (simp add: run_defs ucast_low del: boot_run.simps(2))

text \<open>The extended feature register gains bit 8; the other bits are as before.\<close>

lemma efer_bits:
  "push_bit 32 (ucast (ucast (drop_bit 32 w) :: u32)) OR ucast (ucast (w AND 0xFFFFFFFF) OR 0x100 :: u32) = set_bit 8 w" for w :: u64
proof (rule bit_word_eqI)
  have m: "(0xFFFFFFFF :: u64) = mask 32" by (simp add: mask_eq_exp_minus_1)
  have b: "bit (0x100 :: u64) n \<longleftrightarrow> n = 8" "bit (0x100 :: int) n \<longleftrightarrow> n = 8" for n
    using bit_exp_iff [of 8 n, where 'a = u64] bit_exp_iff [of 8 n, where 'a = int] by (auto simp: possible_bit_word)
  fix n assume "n < LENGTH(64)"
  then show "bit (push_bit 32 (ucast (ucast (drop_bit 32 w) :: u32)) OR ucast (ucast (w AND 0xFFFFFFFF) OR 0x100 :: u32) :: u64) n = bit (set_bit 8 w) n"
    unfolding m by (cases "n < 32"; simp add: bit_simps b) auto
qed

lemma cr0_bits: "bit (v OR 0x80000000) 31" "bit (v OR 0x80000000) 0 \<longleftrightarrow> bit v 0" for v :: u32
  by (simp_all add: bit_or_iff)

lemma set_after_unset: "set_bit 10 (unset_bit 10 w) = set_bit 10 w" "bit (unset_bit 10 (set_bit 8 w)) 8" for w :: u64
  by (rule bit_word_eqI) (auto simp: bit_simps)

lemma phase_paging:
  assumes "protected_mode s" and "bpc s = at 7" and "bit (cr4 s) 5"
  shows "\<exists>g. boot_run at 7 (take 7 (drop 7 (start_32 P st))) s =
    Some (s\<lparr>bgpr := g, bpc := at 14, cr0 := cr0 s OR 0x80000000, efer := set_bit 10 (set_bit 8 (efer s))\<rparr>)"
  using assms
  by (intro exI [of _ "(bgpr s)(RCX := 0xC0000080, RDX := drop_bit 32 (efer s), RAX := ucast (cr0 s OR 0x80000000))"])
    (simp add: run_defs write_efer_def write_cr0_def IA32_EFER_def efer_bits cr0_bits set_after_unset del: boot_run.simps(2))

text \<open>From here on the instructions are fetched through the tables.\<close>

definition boot_paged :: "u64 \<Rightarrow> boot_cpu \<Rightarrow> bool" where
  "boot_paged P s \<longleftrightarrow> init_data (bmem s) P \<and> bcr3 s = P \<and> paging s \<and> long_active s"

lemma boot_paged_upd [simp]:
  "boot_paged P (s\<lparr>bpc := a\<rparr>) = boot_paged P s" "boot_paged P (s\<lparr>bgpr := g\<rparr>) = boot_paged P s" "boot_paged P (s\<lparr>bgdtr := d\<rparr>) = boot_paged P s"
  "boot_paged P (s\<lparr>segs := e\<rparr>) = boot_paged P s"
  by (simp_all add: boot_paged_def)

lemma step_paged:
  assumes "4096 dvd unat P" and "unat P < 2 ^ 32 - 0x3000" and "boot_paged P s" and "bpc s = at i" and "unat (at i) < 2 ^ 32" and "in_code64 x = cs_long s"
  shows "boot_run at i (x # xs) s = (case exec x (s\<lparr>bpc := at (Suc i)\<rparr>) of None \<Rightarrow> None | Some s' \<Rightarrow> boot_run at (Suc i) xs s')"
proof -
  have "translate s (at i) = Some (at i)" using assms by (intro translate_low [where P = P]) (simp_all add: boot_paged_def)
  then show ?thesis using assms(4,6) by (simp add: boot_step_def)
qed

lemma translate_boot:
  assumes "boot_paged P s" and "4096 dvd unat P" and "unat P < 2 ^ 32"
  shows "unat p < 510 * 2 ^ 30 \<Longrightarrow> translate s (phys_to_virt p) = Some p" and "unat p < 2 * 2 ^ 30 \<Longrightarrow> translate s (KERNEL_IMAGE_BASE + p) = Some p"
    and "unat p < 510 * 2 ^ 30 \<Longrightarrow> translate s p = Some p"
proof -
  have u: "unat (P + 0x1000) = unat P + 0x1000" using assms(3) by (subst unat_add_nowrap) simp_all
  have "4096 dvd unat (P + 0x1000)" unfolding u using assms(2) by (intro dvd_add) simp_all
  then show "unat p < 510 * 2 ^ 30 \<Longrightarrow> translate s (phys_to_virt p) = Some p" "unat p < 2 * 2 ^ 30 \<Longrightarrow> translate s (KERNEL_IMAGE_BASE + p) = Some p"
    "unat p < 510 * 2 ^ 30 \<Longrightarrow> translate s p = Some p"
    using boot_translates [of "load64 (bmem s)" P "P + 0x1000"] u assms by (simp_all add: boot_paged_def translate_def init_data_def)
qed

lemma phase_segments:
  assumes P: "4096 dvd unat P" "unat P < 2 ^ 32 - 0x3000" and s: "boot_paged P s" "bpc s = at 14" "\<not> cs_long s" and at: "\<forall>i < 28. unat (at i) < 2 ^ 32"
  shows "\<exists>g. boot_run at 14 (drop 14 (start_32 P st)) s =
    Some (s\<lparr>bgpr := g, bpc := st, bgdtr := (23, initial_gdt_at P), segs := (\<lambda>_. 0x10), bcs := 0x08, cs_long := True\<rparr>)"
proof -
  note S = step_paged [OF P]
  have T: "translate t a = Some a" if "boot_paged P t" "unat a < 2 ^ 32" for t a
    using that P by (intro translate_low [where P = P]) (simp_all add: boot_paged_def)
  have D: "load_descriptor t 0x10 = Some (initial_gdt ! 2)" "load_descriptor t 0x08 = Some (initial_gdt ! 1)"
    if "boot_paged P t" "bgdtr t = (23, initial_gdt_at P)" for t
    using that P by (auto intro!: descriptor_boot [where P = P] simp: boot_paged_def)
  have d: "initial_gdt ! 2 = 0x00cf92000000ffff" "initial_gdt ! Suc 0 = 0x00af9a000000ffff" "long_active s" using s(1) by (simp_all add: initial_gdt_def boot_paged_def)
  have a: "unat (initial_gdtr P) < 2 ^ 32" "unat (initial_gdtr P + 2) < 2 ^ 32" "unat (initial_gdt_at P) < 2 ^ 32"
    using P(2) unfolding initial_gdtr_def initial_gdt_at_def add.assoc by (subst unat_add_nowrap; simp)+
  have I: "init_data (bmem s) P" using s(1) by (simp add: boot_paged_def)
  have "ucast (load32 (bmem s) (initial_gdtr P + 2)) = initial_gdt_at P"
    using a(3) by (simp add: load32_low init_dataD(5) [OF I] ucast_low)
  moreover have "load_word (bmem s) (initial_gdtr P) = (23 :: u16)" using init_dataD(4) [OF I] by simp
  moreover have "(segs s)(DS := 0x10, SS := 0x10, ES := 0x10, FS := 0x10, GS := 0x10) = (\<lambda>_. 0x10)"
  proof
    show "((segs s)(DS := 0x10, SS := 0x10, ES := 0x10, FS := 0x10, GS := 0x10)) g = 0x10" for g by (cases g) simp_all
  qed
  moreover have "ucast ((v AND NOT 0xFFFF) OR 0x10) = (0x10 :: u16)" for v :: u64
    by (rule bit_word_eqI) (auto simp: bit_simps low_masks)
  ultimately show ?thesis
    using s at a by (intro exI [of _ "(bgpr s)(RAX := (bgpr s RAX AND NOT 0xFFFF) OR 0x10)"])
      (simp add: start_32_def S T D d flat_descriptors set_reg_def numeral_2_eq_2 [symmetric] del: boot_run.simps(2))
qed

text \<open>An address in the image window is a sign-extended 32-bit immediate.\<close>

lemma image_immediate:
  assumes "unat q < 2 ^ 31"
  shows "scast (ucast (KERNEL_IMAGE_BASE + q) :: u32) = KERNEL_IMAGE_BASE + q"
proof (rule bit_word_eqI)
  have q: "n < 31" if "bit q n" for n
  proof (rule ccontr)
    assume "\<not> n < 31"
    then have "unat q < 2 ^ n" using assms by (meson less_le_trans linorder_not_less one_le_numeral power_increasing)
    then show False using that by (simp add: bit_unat)
  qed
  have "KERNEL_IMAGE_BASE = NOT (mask 31)" by (simp add: KERNEL_IMAGE_BASE_def mask_eq_exp_minus_1)
  note base = this
  have b: "bit (KERNEL_IMAGE_BASE + q) n \<longleftrightarrow> n < 64 \<and> (31 \<le> n \<or> bit q n)" for n
    unfolding base using q bit_imp_le_length [of q n] by (subst disjunctive_add) (auto simp: bit_simps)
  fix n assume "n < LENGTH(64)"
  then show "bit (scast (ucast (KERNEL_IMAGE_BASE + q) :: u32) :: u64) n = bit (KERNEL_IMAGE_BASE + q) n"
    by (auto simp: bit_simps b min_def)
qed

lemma phase_kmain:
  assumes P: "4096 dvd unat P" "unat P < 2 ^ 32 - 0x3000" and s: "boot_paged P s" "bpc s = at 22" "cs_long s" and at: "\<forall>i < 28. unat (at i) < 2 ^ 32"
    and "unat q < 2 ^ 31" "idle = KERNEL_IMAGE_BASE + q"
  shows "\<exists>g. boot_run at 22 (start_64 P idle km) s = Some (s\<lparr>bgpr := g, bpc := km\<rparr>) \<and> g RSP = idle + 4096 \<and>
      g RDI = ucast (load32 (bmem s) (loader_magic P)) \<and> g RSI = ucast (load32 (bmem s) (loader_info P))"
proof -
  note S = step_paged [OF P]
  have T: "translate t a = Some a" if "boot_paged P t" "unat a < 2 ^ 32" for t a
    using that P by (intro translate_low [where P = P]) (simp_all add: boot_paged_def)
  have a: "unat (loader_magic P) < 2 ^ 32" "unat (loader_info P) < 2 ^ 32"
    using P(2) unfolding loader_magic_def loader_info_def by (subst unat_add_nowrap; simp)+
  have i: "scast (ucast idle :: u32) = idle" unfolding assms(8) by (rule image_immediate [OF assms(7)])
  show ?thesis
    using s at a by (intro exI [of _ "(bgpr s)(RSP := idle + 4096, RDI := ucast (load32 (bmem s) (loader_magic P)), RSI := ucast (load32 (bmem s) (loader_info P)), RAX := km)"])
      (simp add: start_64_def S T i set_reg_def numeral_2_eq_2 [symmetric] del: boot_run.simps(2))
qed

section \<open>Property\<close>

lemma start_32_split: "start_32 P st = take 7 (start_32 P st) @ take 7 (drop 7 (start_32 P st)) @ drop 14 (start_32 P st)"
  by (simp add: start_32_def)

lemma length_start_32: "length (start_32 P st) = 22"
  by (simp add: start_32_def)

lemma boot_run_phases:
  assumes "boot_run at 0 (take 7 (start_32 P (at 22))) s = Some s1" and "boot_run at 7 (take 7 (drop 7 (start_32 P (at 22)))) s1 = Some s2"
    and "boot_run at 14 (drop 14 (start_32 P (at 22))) s2 = Some s3"
  shows "boot_start at P idle km s = boot_run at 22 (start_64 P idle km) s3"
  unfolding boot_start_def by (subst start_32_split) (simp add: boot_run_append length_start_32 assms)

lemma boot_start_ok:
  assumes s: "protected_mode s" "bpc s = at 0" "init_data (bmem s) P" and P: "4096 dvd unat P" "unat P < 2 ^ 32 - 0x3000"
    and at: "\<forall>i < 28. unat (at i) < 2 ^ 32" and q: "unat q < 2 ^ 31"
  shows "\<exists>s'. boot_start at P (KERNEL_IMAGE_BASE + q) km s = Some s' \<and> boot_paged P s' \<and> bpc s' = km \<and> cs_long s' \<and> bcs s' = 0x08 \<and> segs s' = (\<lambda>_. 0x10) \<and>
    bgdtr s' = (23, initial_gdt_at P) \<and> bgpr s' RSP = KERNEL_IMAGE_BASE + q + 4096 \<and> bgpr s' RDI = ucast (reg32 RAX s) \<and> bgpr s' RSI = ucast (reg32 RBX s) \<and>
    (\<forall>x. 8 \<le> unat (x - loader_info P) \<longrightarrow> bmem s' x = bmem s x)"
proof -
  define m where "m = store32 (store32 (bmem s) (loader_magic P) (reg32 RAX s)) (loader_info P) (reg32 RBX s)"
  have low: "unat P < 2 ^ 32" using P(2) by simp
  from phase_tables [where at = at, OF s(1,2) low] obtain g where g: "boot_run at 0 (take 7 (start_32 P (at 22))) s =
      Some (s\<lparr>bgpr := g, bpc := at 7, bcr3 := P, cr4 := cr4 s OR 0x20, bmem := m\<rparr>)" (is "_ = Some ?s1") unfolding m_def by blast
  have b: "bit (cr4 s OR 0x20) 5" "bit (cr4 s OR 0x20) 12 \<longleftrightarrow> bit (cr4 s) 12" by (simp_all add: bit_or_iff)
  then have "protected_mode ?s1" using s(1) by (simp add: protected_mode_def)
  from phase_paging [where at = at, OF this] b obtain g2 where g2: "boot_run at 7 (take 7 (drop 7 (start_32 P (at 22)))) ?s1 =
      Some (?s1\<lparr>bgpr := g2, bpc := at 14, cr0 := cr0 s OR 0x80000000, efer := set_bit 10 (set_bit 8 (efer s))\<rparr>)" (is "_ = Some ?s2") by auto
  have kept: "m x = bmem s x" if "8 \<le> unat (x - loader_info P)" for x
    unfolding m_def using store_magic_kept [OF that] by simp
  have "boot_paged P ?s2" using init_data_kept [OF s(3) kept] cr0_bits(1) by (simp add: boot_paged_def bit_simps)
  from phase_segments [where at = at, OF P this _ _ at] s(1) obtain g3 where g3: "boot_run at 14 (drop 14 (start_32 P (at 22))) ?s2 =
      Some (?s2\<lparr>bgpr := g3, bpc := at 22, bgdtr := (23, initial_gdt_at P), segs := (\<lambda>_. 0x10), bcs := 0x08, cs_long := True\<rparr>)" (is "_ = Some ?s3")
    by (auto simp: protected_mode_def)
  have p3: "boot_paged P ?s3" using \<open>boot_paged P ?s2\<close> by (simp add: boot_paged_def)
  have cells: "load32 m (loader_magic P) = reg32 RAX s" "load32 m (loader_info P) = reg32 RBX s"
    unfolding m_def using cells_apart [of P] by (simp_all add: m32.load_store_same m32.load_store_apart apart_def conj_commute)
  from phase_kmain [where at = at and km = km, OF P p3 _ _ at q refl] obtain g4 where g4: "boot_run at 22 (start_64 P (KERNEL_IMAGE_BASE + q) km) ?s3 = Some (?s3\<lparr>bgpr := g4, bpc := km\<rparr>)"
    "g4 RSP = KERNEL_IMAGE_BASE + q + 4096" "g4 RDI = ucast (reg32 RAX s)" "g4 RSI = ucast (reg32 RBX s)" by (auto simp: cells)
  then show ?thesis using boot_run_phases [OF g g2 g3] p3 kept by (intro exI [of _ "?s3\<lparr>bgpr := g4, bpc := km\<rparr>"]) (simp add: boot_paged_def)
qed

text \<open>C23. From the loader to \<open>kmain\<close>: started in protected mode without paging, with the section \<open>.init.data\<close> in memory below 4 GiB, the entry code of
  \<open>boot.S\<close> runs without a fault and ends at \<open>kmain\<close> in 64-bit mode, with the boot page tables and descriptor table loaded, flat kernel segments, an empty stack
  of 4096 mapped bytes, and the two arguments of \<open>kmain\<close> taken from \<open>eax\<close> and \<open>ebx\<close>, zero-extended; of memory only the two saved words
  change. There \<open>kmain\<close>, the whole direct map below 510 GiB and the loader's structure are mapped.\<close>

theorem boot_start_correct:
  assumes "protected_mode s" "bpc s = at 0" "init_data (bmem s) P" and "4096 dvd unat P" "unat P < 2 ^ 32 - 0x3000"
    and "\<forall>i < 28. unat (at i) < 2 ^ 32" and "unat q + 4096 < 2 ^ 31" and "unat k < 2 ^ 31"
  shows "\<exists>s'. boot_start at P (KERNEL_IMAGE_BASE + q) (KERNEL_IMAGE_BASE + k) s = Some s' \<and>
    bpc s' = KERNEL_IMAGE_BASE + k \<and> cs_long s' \<and> long_active s' \<and> bcr3 s' = P \<and>
    bcs s' = 0x08 \<and> (\<exists>d. load_descriptor s' 0x08 = Some d \<and> long_code d) \<and> segs s' = (\<lambda>_. 0x10) \<and> (\<exists>d. load_descriptor s' 0x10 = Some d \<and> flat_data d) \<and>
    bgpr s' RSP = KERNEL_IMAGE_BASE + q + 4096 \<and> bgpr s' RDI = ucast (reg32 RAX s) \<and> bgpr s' RSI = ucast (reg32 RBX s) \<and>
    (\<forall>x. 8 \<le> unat (x - loader_info P) \<longrightarrow> bmem s' x = bmem s x) \<and>
    translate s' (bpc s') = Some k \<and> translate s' (bgpr s' RSI) = Some (bgpr s' RSI) \<and>
    (\<forall>j < 4096. translate s' (KERNEL_IMAGE_BASE + q + of_nat j) = Some (q + of_nat j)) \<and>
    (\<forall>p. unat p < 510 * 2 ^ 30 \<longrightarrow> translate s' (phys_to_virt p) = Some p)"
proof -
  have "unat q < 2 ^ 31" using assms(7) by simp
  from boot_start_ok [where at = at, OF assms(1-6) this, of "KERNEL_IMAGE_BASE + k"] obtain s' where
    r: "boot_start at P (KERNEL_IMAGE_BASE + q) (KERNEL_IMAGE_BASE + k) s = Some s'" and p: "boot_paged P s'" and
    s': "bpc s' = KERNEL_IMAGE_BASE + k" "cs_long s'" "bcs s' = 0x08" "segs s' = (\<lambda>_. 0x10)" "bgdtr s' = (23, initial_gdt_at P)"
      "bgpr s' RSP = KERNEL_IMAGE_BASE + q + 4096" "bgpr s' RDI = ucast (reg32 RAX s)" "bgpr s' RSI = ucast (reg32 RBX s)"
      "\<forall>x. 8 \<le> unat (x - loader_info P) \<longrightarrow> bmem s' x = bmem s x" by blast
  have P: "unat P < 2 ^ 32" using assms(5) by simp
  have I: "init_data (bmem s') P" "bcr3 s' = P" "long_active s'" using p by (simp_all add: boot_paged_def)
  note T = translate_boot [OF p assms(4) P]
  note D = descriptor_boot [OF I(1) assms(4,5) I(2) s'(5)]
  have d: "load_descriptor s' 0x08 = Some 0x00af9a000000ffff" "load_descriptor s' 0x10 = Some 0x00cf92000000ffff"
    using D [of "0x08" 1] D [of "0x10" 2] by (simp_all add: initial_gdt_def)
  have "translate s' (KERNEL_IMAGE_BASE + (q + of_nat j)) = Some (q + of_nat j)" if "j < 4096" for j
    using that assms(7) by (intro T(2)) (subst unat_add_nowrap; simp add: unat_of_nat_small)
  moreover have "translate s' (bgpr s' RSI) = Some (bgpr s' RSI)"
    unfolding s'(8) by (intro T(3)) (use unsigned_less [of "reg32 RBX s", where 'a = nat] in \<open>simp add: unsigned_ucast_eq take_bit_nat_eq_self\<close>)
  ultimately show ?thesis
    using r s' I(2,3) T(1) T(2) [of k] assms(8) d flat_descriptors by (auto simp: add.assoc)
qed

text \<open>A list of words in memory.\<close>

definition words_mem :: "u64 \<Rightarrow> u64 list \<Rightarrow> mem" where
  "words_mem a ws = (\<lambda>x. let d = unat (x - a) in if d div 8 < length ws then ucast (drop_bit (8 * (d mod 8)) (ws ! (d div 8))) else 0)"

lemma load_words_mem:
  assumes "i < length ws" and "length ws < 2 ^ 50"
  shows "load64 (words_mem a ws) (a + of_nat (8 * i)) = ws ! i"
proof (rule bit_word_eqI)
  fix n assume n: "n < LENGTH(64)"
  have e: "a + of_nat (8 * i) + of_nat (n div 8) - a = of_nat (8 * i + n div 8)" by simp
  have "unat (a + of_nat (8 * i) + of_nat (n div 8) - a) = 8 * i + n div 8"
    unfolding e using assms n by (intro unat_of_nat_small) simp
  then show "bit (load64 (words_mem a ws) (a + of_nat (8 * i))) n = bit (ws ! i) n"
    using n assms(1) by (auto simp: bit_load_word words_mem_def bit_simps Let_def)
qed

text \<open>The section at \<open>0x101000\<close>; at \<open>0x103020\<close> are the 16-bit limit and the address of the descriptor table.\<close>

definition demo_init_data :: "u64 list" where
  "demo_init_data = initial_pml4 0x102000 @ initial_pdpt @ [0] @ initial_gdt @ [0x103008 * 2 ^ 16 + 23, 0]"

lemma length_demo: "length (initial_pml4 p) = 512" "length initial_pdpt = 512" "length initial_gdt = 3"
  by (simp_all add: initial_pml4_def initial_pdpt_def initial_gdt_def)

lemma load_bytes_unrolled:
  "load64 m a = push_bit 8 (push_bit 8 (push_bit 8 (push_bit 8 (push_bit 8 (push_bit 8 (push_bit 8 (push_bit 8 0 OR
     ucast (m (a + 1 + 1 + 1 + 1 + 1 + 1 + 1))) OR ucast (m (a + 1 + 1 + 1 + 1 + 1 + 1))) OR ucast (m (a + 1 + 1 + 1 + 1 + 1))) OR ucast (m (a + 1 + 1 + 1 + 1))) OR
     ucast (m (a + 1 + 1 + 1))) OR ucast (m (a + 1 + 1))) OR ucast (m (a + 1))) OR ucast (m a)"
  "(load_word m a :: u16) = push_bit 8 (push_bit 8 0 OR ucast (m (a + 1))) OR ucast (m a)"
proof -
  have e: "LENGTH(64) div 8 = Suc (Suc (Suc (Suc (Suc (Suc (Suc (Suc 0)))))))" "LENGTH(16) div 8 = Suc (Suc 0)" by simp_all
  show "load64 m a = push_bit 8 (push_bit 8 (push_bit 8 (push_bit 8 (push_bit 8 (push_bit 8 (push_bit 8 (push_bit 8 0 OR
     ucast (m (a + 1 + 1 + 1 + 1 + 1 + 1 + 1))) OR ucast (m (a + 1 + 1 + 1 + 1 + 1 + 1))) OR ucast (m (a + 1 + 1 + 1 + 1 + 1))) OR ucast (m (a + 1 + 1 + 1 + 1))) OR
     ucast (m (a + 1 + 1 + 1))) OR ucast (m (a + 1 + 1))) OR ucast (m (a + 1))) OR ucast (m a)"
    "(load_word m a :: u16) = push_bit 8 (push_bit 8 0 OR ucast (m (a + 1))) OR ucast (m a)"
    unfolding load_word_def e load_bytes.simps by (rule refl)+
qed

lemma demo_init_data_ok: "init_data (words_mem 0x101000 demo_init_data) 0x101000"
proof -
  let ?m = "words_mem 0x101000 demo_init_data"
  have l: "length demo_init_data = 1030" by (simp add: demo_init_data_def length_demo initial_gdt_def)
  have L: "load64 ?m a = demo_init_data ! i" if "a = 0x101000 + of_nat (8 * i)" "i < 1030" for a i
    unfolding that(1) by (rule load_words_mem) (simp_all add: l that(2))
  have "load64 ?m (0x101000 + 8 * of_nat i) = initial_pml4 0x102000 ! i" "load64 ?m (0x102000 + 8 * of_nat i) = initial_pdpt ! i" if "i < 512" for i
    using L [of _ i] L [of _ "512 + i"] that by (simp_all add: demo_init_data_def nth_append length_demo)
  moreover have "load64 ?m (0x103008 + 8 * of_nat i) = initial_gdt ! i" if "i < 3" for i
    using L [of _ "1025 + i"] that by (simp add: demo_init_data_def nth_append length_demo)
  moreover have "?m 0x103020 = 23" "?m 0x103021 = 0" "?m 0x103022 = 8" "?m 0x103023 = 0x30" "?m 0x103024 = 0x10" "?m 0x103025 = 0"
    "?m 0x103026 = 0" "?m 0x103027 = 0" "?m 0x103028 = 0" "?m 0x103029 = 0"
    by (simp_all add: words_mem_def l Let_def demo_init_data_def nth_append length_demo initial_gdt_def)
  then have "load_word ?m 0x103020 = (23 :: u16)" "load64 ?m 0x103022 = 0x103008"
    unfolding load_bytes_unrolled by simp_all
  ultimately show ?thesis by (simp add: init_data_def table_at_def initial_gdt_at_def initial_gdtr_def length_demo)
qed

definition demo_loaded :: boot_cpu where
  "demo_loaded = \<lparr>bgpr = (\<lambda>_. 0)(RAX := 0x36D76289, RBX := 0x9000), bpc = 0x104000, cr0 = 0x11, bcr3 = 0, cr4 = 0, efer = 0, bgdtr = (0, 0),
     segs = (\<lambda>_. 0x18), bcs = 0x10, cs_long = False, bmem = words_mem 0x101000 demo_init_data\<rparr>"

theorem boot_start_correct_witness:
  "\<exists>s'. boot_start (\<lambda>i. 0x104000 + 4 * of_nat i) 0x101000 0xFFFFFFFF80110000 0xFFFFFFFF80105000 demo_loaded = Some s' \<and>
    bpc s' = 0xFFFFFFFF80105000 \<and> bgpr s' RDI = 0x36D76289 \<and> bgpr s' RSI = 0x9000 \<and> bgpr s' RSP = 0xFFFFFFFF80111000"
proof -
  let ?at = "\<lambda>i. 0x104000 + 4 * of_nat i :: u64"
  have e: "?at i = of_nat (0x104000 + 4 * i)" for i by simp
  have "\<forall>i < 28. unat (?at i) < 2 ^ 32" unfolding e by (auto simp: unat_of_nat_small simp del: of_nat_add of_nat_mult)
  moreover have "protected_mode demo_loaded" "bpc demo_loaded = ?at 0" "init_data (bmem demo_loaded) 0x101000"
    using demo_init_data_ok by (simp_all add: demo_loaded_def protected_mode_def)
  moreover have "4096 dvd unat (0x101000 :: u64)" "unat (0x101000 :: u64) < 2 ^ 32 - 0x3000" "unat (0x110000 :: u64) + 4096 < 2 ^ 31" "unat (0x105000 :: u64) < 2 ^ 31"
    by simp_all
  ultimately show ?thesis
    using boot_start_correct [where at = ?at and s = demo_loaded and P = "0x101000" and q = "0x110000" and k = "0x105000"]
    by (auto simp: KERNEL_IMAGE_BASE_def demo_loaded_def reg32_def)
qed

end
