(* ===== verification/Snprintf.thy ===== *)
theory Snprintf
  imports Ktypes "HOL-Library.Char_ord"
begin

text \<open>
  The formatter of \<open>rtl/snprintf.c\<close>. The destination is modelled by offsets from the start of
  the buffer: \<open>out\<close> gives the byte at every offset, inside the buffer or not, so a write outside
  \<open>0 ..< length\<close> is visible. \<open>limit\<close> is the offset \<open>length\<close>. A format or an argument string is the
  list of its characters before the terminating NUL; moving past the NUL is a \<open>Fault\<close>.
  Variable arguments are a list of typed values; fetching a missing argument or one of another type
  is a \<open>Fault\<close>. Widths and flags are 32-bit words and wrap as \<open>unsigned int\<close> does.
\<close>

type_synonym out = "int \<Rightarrow> char"

definition NUL :: char where "NUL = CHR 0x00"

definition ZEROPAD :: u32 where [kconst]: "ZEROPAD = 1"
definition LEFTALIGN :: u32 where [kconst]: "LEFTALIGN = 2"
definition SIGN :: u32 where [kconst]: "SIGN = 16"
definition LOWERCASE :: u32 where [kconst]: "LOWERCASE = 32"
definition HEX :: u32 where [kconst]: "HEX = 64"
definition OCTA :: u32 where [kconst]: "OCTA = 128"
definition BIN :: u32 where [kconst]: "BIN = 256"

datatype length_mod = LEN_HH | LEN_H | LEN_DEFAULT | LEN_L | LEN_LL

datatype va = VInt u32 | VLong u64 | VStr string | VPtr u64

section \<open>print_number\<close>

text \<open>Consecutive writes \<open>*buffer++ = c\<close>.\<close>

primrec put :: "string \<Rightarrow> int \<Rightarrow> out \<Rightarrow> out" where
  "put [] p out = out"
| "put (c # cs) p out = put cs (p + 1) (out(p := c))"

definition number_base :: "u32 \<Rightarrow> u64" where
  "number_base flags =
     (if flags AND HEX \<noteq> 0 then 16 else if flags AND OCTA \<noteq> 0 then 8
      else if flags AND BIN \<noteq> 0 then 2 else 10)"

definition number_digits :: "u32 \<Rightarrow> string" where
  "number_digits flags = (if flags AND LOWERCASE \<noteq> 0 then ''0123456789abcdef'' else ''0123456789ABCDEF'')"

lemma number_base_cases: "number_base flags \<in> {16, 8, 2, 10}"
  by (simp add: number_base_def)

lemma unat_div_base_less: "n \<noteq> 0 \<Longrightarrow> unat (n div number_base flags) < unat n"
  using number_base_cases [of flags] by (auto simp: unat_div unat_gt_0)

text \<open>\<open>while (unumber) { *tmptail++ = digits[unumber % base]; unumber /= base; }\<close>: least digit first.\<close>

function digit_loop :: "u32 \<Rightarrow> u64 \<Rightarrow> string" where
  "digit_loop flags n =
     (if n = 0 then []
      else number_digits flags ! unat (n mod number_base flags) # digit_loop flags (n div number_base flags))"
  by pat_completeness auto
termination
  by (relation "measure (\<lambda>(flags, n). unat n)") (auto simp: unat_div_base_less)

declare digit_loop.simps [simp del]

definition number_tmp :: "u32 \<Rightarrow> u64 \<Rightarrow> string" where
  "number_tmp flags n = (if n = 0 then ''0'' else digit_loop flags n)"

text \<open>The in-place reversal of \<open>tmp\<close>, with \<open>tmphead\<close> and \<open>tmptail\<close> as indices.\<close>

function rev_loop :: "nat \<Rightarrow> nat \<Rightarrow> string \<Rightarrow> string" where
  "rev_loop h t tmp =
     (if h < t then rev_loop (h + 1) (t - 1) (tmp[h := tmp ! t, t := tmp ! h]) else tmp)"
  by pat_completeness auto
termination
  by (relation "measure (\<lambda>(h, t, tmp). t - h)") auto

declare rev_loop.simps [simp del]

text \<open>The characters the printing loops store, in order, when the number fits.\<close>

definition number_layout :: "u32 \<Rightarrow> bool \<Rightarrow> u32 \<Rightarrow> string \<Rightarrow> string" where
  "number_layout flags negative pad digs =
     (let fill = (if flags AND ZEROPAD \<noteq> 0 \<and> flags AND LEFTALIGN = 0 then CHR ''0'' else CHR '' '');
          sign = (if negative then ''-'' else []);
          pads = replicate (unat pad) fill
      in if flags AND LEFTALIGN \<noteq> 0 then sign @ digs @ pads
         else if fill = CHR '' '' then pads @ sign @ digs
         else sign @ pads @ digs)"

definition print_number :: "u64 \<Rightarrow> u64 \<Rightarrow> u32 \<Rightarrow> u32 \<Rightarrow> int \<Rightarrow> int \<Rightarrow> out \<Rightarrow> int \<times> out" where
  "print_number unumber0 snumber flags width buffer limit out =
     (let negative = (flags AND SIGN \<noteq> 0 \<and> sint snumber < 0);
          unumber = (if flags AND SIGN \<noteq> 0 then if sint snumber < 0 then NOT snumber + 1 else snumber
                     else unumber0);
          tmp0 = number_tmp flags unumber;
          tmplen = (of_nat (length tmp0) :: u32);
          tmp = rev_loop 0 (length tmp0 - 1) tmp0;
          total = tmplen + (if negative then 1 else 0);
          pad = (if width > total then width - total else 0);
          str = number_layout flags negative pad (take (unat tmplen) tmp);
          (buffer', out') =
            (if buffer < limit \<and> int (unat (pad + total + 1)) \<le> limit - buffer
             then (buffer + int (length str), put str buffer out)
             else (buffer + int (unat (pad + tmplen + (if negative then 1 else 0))), out))
      in (buffer', if buffer' < limit then out'(buffer' := NUL) else out'))"

section \<open>Directives\<close>

fun parse_flags :: "string \<Rightarrow> u32 \<Rightarrow> u32 \<times> string" where
  "parse_flags (c # cs) flags =
     (if c = CHR ''0'' then parse_flags cs (flags OR ZEROPAD)
      else if c = CHR ''-'' then parse_flags cs (flags OR LEFTALIGN)
      else (flags, c # cs))"
| "parse_flags [] flags = (flags, [])"

definition is_digit :: "char \<Rightarrow> bool" where
  "is_digit c \<longleftrightarrow> CHR ''0'' \<le> c \<and> c \<le> CHR ''9''"

fun parse_width :: "string \<Rightarrow> u32 \<Rightarrow> u32 \<times> string" where
  "parse_width (c # cs) width =
     (if is_digit c then parse_width cs (width * 10 + of_nat (of_char c - of_char CHR ''0''))
      else (width, c # cs))"
| "parse_width [] width = (width, [])"

text \<open>The character at the format pointer, NUL at the end.\<close>

definition cur :: "string \<Rightarrow> char" where
  "cur fmt = (case fmt of [] \<Rightarrow> NUL | c # _ \<Rightarrow> c)"

definition parse_length :: "string \<Rightarrow> length_mod \<times> string" where
  "parse_length fmt =
     (if cur fmt = CHR ''l'' then
        if cur (tl fmt) = CHR ''l'' then (LEN_LL, drop 2 fmt) else (LEN_L, drop 1 fmt)
      else if cur fmt = CHR ''h'' then
        if cur (tl fmt) = CHR ''h'' then (LEN_HH, drop 2 fmt) else (LEN_H, drop 1 fmt)
      else (LEN_DEFAULT, fmt))"

lemma parse_flags_shorter: "length (snd (parse_flags fmt flags)) \<le> length fmt"
  by (induction fmt flags rule: parse_flags.induct) auto

lemma parse_width_shorter: "length (snd (parse_width fmt width)) \<le> length fmt"
  by (induction fmt width rule: parse_width.induct) auto

lemma parse_length_shorter: "length (snd (parse_length fmt)) \<le> length fmt"
  by (auto simp: parse_length_def)

text \<open>The text between \<open>%\<close> and the conversion character: flags, width, length modifier.\<close>

definition parse_directive :: "string \<Rightarrow> u32 \<times> u32 \<times> length_mod \<times> string" where
  "parse_directive fmt =
     (let (flags, f1) = parse_flags fmt 0; (width, f2) = parse_width f1 0; (len, f3) = parse_length f2
      in (flags, width, len, f3))"

lemma parse_directive_shorter:
  "parse_directive fmt = (flags, width, len, rest) \<Longrightarrow> length rest \<le> length fmt"
  using parse_flags_shorter [of fmt 0] parse_width_shorter [of "snd (parse_flags fmt 0)" 0]
    parse_length_shorter [of "snd (parse_width (snd (parse_flags fmt 0)) 0)"]
  by (simp add: parse_directive_def split: prod.splits)

text \<open>
  \<open>va_arg(args, int)\<close> for the short lengths and \<open>va_arg(args, long long)\<close> for the long ones,
  both converted to 64 bits; an \<open>int\<close> is sign-extended.
\<close>

fun va_number :: "length_mod \<Rightarrow> va list \<Rightarrow> (u64 \<times> va list) res" where
  "va_number LEN_L (VLong w # args) = Inr (w, args)"
| "va_number LEN_LL (VLong w # args) = Inr (w, args)"
| "va_number LEN_HH (VInt w # args) = Inr (scast w, args)"
| "va_number LEN_H (VInt w # args) = Inr (scast w, args)"
| "va_number LEN_DEFAULT (VInt w # args) = Inr (scast w, args)"
| "va_number _ _ = Inl Fault"

fun va_string :: "va list \<Rightarrow> (string \<times> va list) res" where
  "va_string (VStr s # args) = Inr (s, args)"
| "va_string _ = Inl Fault"

fun va_char :: "va list \<Rightarrow> (char \<times> va list) res" where
  "va_char (VInt w # args) = Inr (char_of (unat w), args)"
| "va_char _ = Inl Fault"

fun va_pointer :: "va list \<Rightarrow> (u64 \<times> va list) res" where
  "va_pointer (VPtr w # args) = Inr (w, args)"
| "va_pointer _ = Inl Fault"

text \<open>The loop of \<open>%s\<close>: characters that do not fit are counted and not written.\<close>

primrec print_string :: "string \<Rightarrow> int \<Rightarrow> int \<Rightarrow> out \<Rightarrow> int \<times> out" where
  "print_string [] buffer limit out = (buffer, out)"
| "print_string (c # cs) buffer limit out =
     (if c = NUL then (buffer, out)
      else print_string cs (buffer + 1) limit (if buffer + 1 < limit then out(buffer := c) else out))"

definition print_numeric ::
  "bool \<Rightarrow> length_mod \<Rightarrow> u32 \<Rightarrow> u32 \<Rightarrow> va list \<Rightarrow> int \<Rightarrow> int \<Rightarrow> out \<Rightarrow> (int \<times> out \<times> va list) res" where
  "print_numeric is_signed len flags width args buffer limit out =
     rbind (va_number len args) (\<lambda>(w, args').
       (let (buffer', out') =
          (if is_signed then print_number 0 w flags width buffer limit out
           else print_number w 0 flags width buffer limit out)
        in Inr (buffer', out', args')))"

text \<open>The cases without a number: \<open>%p\<close>, \<open>%%\<close> and an unknown character, which is copied with its percent sign.\<close>

definition convert_pointer :: "u32 \<Rightarrow> u32 \<Rightarrow> va list \<Rightarrow> int \<Rightarrow> int \<Rightarrow> out \<Rightarrow> (int \<times> out \<times> va list) res" where
  "convert_pointer flags width args buffer limit out =
     rbind (va_pointer args) (\<lambda>(w, args').
       (let (b1, out1) = (if buffer + 2 < limit
                          then (buffer + 2, out(buffer := CHR ''0'', buffer + 1 := CHR ''x''))
                          else (buffer, out));
            (b2, out2) = print_number w 0 (flags OR HEX) width b1 limit out1
        in Inr (b2, out2, args')))"

definition convert_literal :: "char \<Rightarrow> va list \<Rightarrow> int \<Rightarrow> int \<Rightarrow> out \<Rightarrow> (int \<times> out \<times> va list) res" where
  "convert_literal c args buffer limit out =
     (if c = CHR ''%'' then
        Inr (buffer + 1, if buffer + 1 < limit then out(buffer := CHR ''%'') else out, args)
      else if c = NUL then Inl Fault
      else Inr (buffer + 2,
                if buffer + 3 < limit then out(buffer := CHR ''%'', buffer + 1 := c) else out, args))"

text \<open>
  The \<open>switch (*format)\<close> on the conversion character. At the end of the format the \<open>default\<close> case
  runs and the loop's \<open>format++\<close> then leaves the string.
\<close>

definition convert ::
  "char \<Rightarrow> length_mod \<Rightarrow> u32 \<Rightarrow> u32 \<Rightarrow> va list \<Rightarrow> int \<Rightarrow> int \<Rightarrow> out \<Rightarrow> (int \<times> out \<times> va list) res" where
  "convert c len flags width args buffer limit out =
     (if c = CHR ''s'' then
        rbind (va_string args) (\<lambda>(str, args').
          (let (buffer', out') = print_string str buffer limit out in Inr (buffer', out', args')))
      else if c = CHR ''c'' then
        if buffer + 1 < limit
        then rbind (va_char args) (\<lambda>(ch, args'). Inr (buffer + 1, out(buffer := ch), args'))
        else Inr (buffer + 1, out, args)
      else if c = CHR ''d'' then print_numeric True len (flags OR SIGN) width args buffer limit out
      else if c = CHR ''u'' then print_numeric False len flags width args buffer limit out
      else if c = CHR ''x'' then
        print_numeric False len ((flags OR LOWERCASE) OR HEX) width args buffer limit out
      else if c = CHR ''X'' then print_numeric False len (flags OR HEX) width args buffer limit out
      else if c = CHR ''o'' then print_numeric False len (flags OR OCTA) width args buffer limit out
      else if c = CHR ''b'' then print_numeric False len (flags OR BIN) width args buffer limit out
      else if c = CHR ''p'' then convert_pointer flags width args buffer limit out
      else convert_literal c args buffer limit out)"

section \<open>vsnprintf\<close>

function format_loop :: "string \<Rightarrow> va list \<Rightarrow> int \<Rightarrow> int \<Rightarrow> out \<Rightarrow> (int \<times> out) res" where
  "format_loop fmt args buffer limit out =
     (if cur fmt = NUL then Inr (buffer, out)
      else if cur fmt = CHR ''%'' then
        (let (flags, width, len, rest) = parse_directive (tl fmt)
         in rbind (convert (cur rest) len flags width args buffer limit out) (\<lambda>(buffer', out', args').
              format_loop (tl rest) args' buffer' limit out'))
      else if buffer + 1 < limit then format_loop (tl fmt) args (buffer + 1) limit (out(buffer := cur fmt))
      else format_loop (tl fmt) args buffer limit out)"
  by pat_completeness auto
termination
proof (relation "measure (\<lambda>(fmt, _). length fmt)", goal_cases)
  case (2 fmt args buffer limit out x flags y width z len rest)
  then show ?case
    using parse_directive_shorter [of "tl fmt" flags width len rest]
    by (cases fmt) (auto simp: cur_def le_imp_less_Suc less_Suc_eq_le)
qed (auto simp: cur_def split: list.splits)

declare format_loop.simps [simp del]

text \<open>The final NUL, in front of \<open>limit\<close> when the text did not fit.\<close>

definition terminate :: "int \<Rightarrow> int \<Rightarrow> out \<Rightarrow> out" where
  [simp]: "terminate buffer limit out = (if buffer < limit then out(buffer := NUL) else out(limit - 1 := NUL))"

definition vsnprintf :: "out \<Rightarrow> u64 \<Rightarrow> string \<Rightarrow> va list \<Rightarrow> (u64 \<times> out) res" where
  "vsnprintf out len format args =
     (let limit = uint len
      in rbind (format_loop format args 0 limit out) (\<lambda>(buffer, out').
           Inr (of_int buffer, terminate buffer limit out')))"

definition snprintf :: "out \<Rightarrow> u64 \<Rightarrow> string \<Rightarrow> va list \<Rightarrow> (u64 \<times> out) res" where
  "snprintf out len format args = vsnprintf out len format args"

end
