(* ===== verification/Uart.thy ===== *)
theory Uart
  imports Cpu Snprintf
begin

text \<open>
  The serial driver of \<open>drivers/uart.c\<close>. \<open>uart_write\<close> polls the line status register until the
  transmitter is ready, a loop with no bound of its own: it is a partial function and \<open>None\<close> means that
  it never returns. It returns exactly when the device becomes ready.
\<close>

definition COM3 :: u16 where [kconst]: "COM3 = 0x3E8"
definition COM :: u16 where [kconst]: "COM = COM3"

definition uart_init :: "cpu \<Rightarrow> cpu" where
  "uart_init c =
     (let c1 = outb (COM + 1) 0x00 c;
          c2 = outb (COM + 3) 0x80 c1;
          c3 = outb (COM + 0) 0x01 c2;
          c4 = outb (COM + 1) 0x00 c3;
          c5 = outb (COM + 3) 0x03 c4;
          c6 = outb (COM + 2) 0xC7 c5
      in outb (COM + 4) 0x0B c6)"

text \<open>\<open>while (!(inb(COM + 5) & 0x20));\<close>\<close>

partial_function (option) uart_wait :: "cpu \<Rightarrow> cpu option" where
  "uart_wait c = (case inb (COM + 5) c of (v, c1) \<Rightarrow> if v AND 0x20 = 0 then uart_wait c1 else Some c1)"

definition uart_write :: "char \<Rightarrow> cpu \<Rightarrow> cpu option" where
  "uart_write ch c = Option.bind (uart_wait c) (\<lambda>c1. Some (outb COM (of_char ch) c1))"

text \<open>A string is the list of its characters; the loop stops at a NUL or at the end.\<close>

primrec uart_write_str :: "string \<Rightarrow> cpu \<Rightarrow> cpu option" where
  "uart_write_str [] c = Some c"
| "uart_write_str (ch # s) c =
     (if ch = NUL then Some c else Option.bind (uart_write ch c) (uart_write_str s))"

section \<open>Polling\<close>

definition tx_ready :: "cpu \<Rightarrow> nat \<Rightarrow> bool" where
  "tx_ready c k \<longleftrightarrow> port_in c k (COM + 5) AND 0x20 \<noteq> 0"

text \<open>The transmitter is ready again and again.\<close>

definition uart_live :: "cpu \<Rightarrow> bool" where
  "uart_live c \<longleftrightarrow> (\<forall>n. \<exists>k \<ge> n. tx_ready c k)"

lemma uart_wait_step:
  "uart_wait c = (if tx_ready c (port_reads c) then Some (c\<lparr>port_reads := port_reads c + 1\<rparr>)
     else uart_wait (c\<lparr>port_reads := port_reads c + 1\<rparr>))"
  by (subst uart_wait.simps) (simp add: inb_def tx_ready_def)

lemma uart_wait_ready:
  assumes "tx_ready c k" and "port_reads c \<le> k"
  shows "\<exists>r. uart_wait c = Some (c\<lparr>port_reads := r\<rparr>) \<and> port_reads c < r \<and> r \<le> Suc k"
  using assms
proof (induction "k - port_reads c" arbitrary: c)
  case 0
  then show ?case by (subst uart_wait_step) (auto intro!: exI [of _ "Suc (port_reads c)"])
next
  case (Suc d)
  show ?case
  proof (cases "tx_ready c (port_reads c)")
    case True
    then show ?thesis using Suc.prems
      by (subst uart_wait_step) (auto intro!: exI [of _ "Suc (port_reads c)"])
  next
    case False
    let ?c = "c\<lparr>port_reads := port_reads c + 1\<rparr>"
    have "tx_ready ?c k" "port_reads ?c \<le> k" "d = k - port_reads ?c"
      using Suc.prems Suc.hyps(2) by (auto simp: tx_ready_def)
    from Suc.hyps(1) [OF this(3,1,2)] False show ?thesis
      by (subst uart_wait_step) auto
  qed
qed

text \<open>A device that is never ready again keeps the loop going for ever.\<close>

lemma uart_wait_never:
  assumes "\<forall>k \<ge> port_reads c. \<not> tx_ready c k"
  shows "uart_wait c = None"
proof (rule ccontr)
  assume "uart_wait c \<noteq> None"
  then obtain c' where "uart_wait c = Some c'" by auto
  then have "\<exists>k \<ge> port_reads c. tx_ready c k"
  proof (rule uart_wait.raw_induct [where P = "\<lambda>c c'. \<exists>k \<ge> port_reads c. tx_ready c k", rotated])
    fix uw :: "cpu \<Rightarrow> cpu option" and c1 c2 :: cpu
    assume ih: "\<And>c c'. uw c = Some c' \<Longrightarrow> \<exists>k \<ge> port_reads c. tx_ready c k"
      and step: "(case inb (COM + 5) c1 of (v, c) \<Rightarrow> if v AND 0x20 = 0 then uw c else Some c) = Some c2"
    show "\<exists>k \<ge> port_reads c1. tx_ready c1 k"
    proof (cases "tx_ready c1 (port_reads c1)")
      case False
      with step have "uw (c1\<lparr>port_reads := Suc (port_reads c1)\<rparr>) = Some c2" by (simp add: inb_def tx_ready_def)
      from ih [OF this] show ?thesis by (auto simp: tx_ready_def intro: Suc_leD)
    qed blast
  qed
  with assms show False by blast
qed

lemma uart_write_ready:
  assumes "uart_live c"
  shows "\<exists>r. uart_write ch c = Some (c\<lparr>port_reads := r, port_out := port_out c @ [(COM, of_char ch)]\<rparr>)"
proof -
  obtain k where "port_reads c \<le> k" "tx_ready c k" using assms by (auto simp: uart_live_def)
  with uart_wait_ready obtain r where "uart_wait c = Some (c\<lparr>port_reads := r\<rparr>)" by blast
  then show ?thesis by (auto simp: uart_write_def outb_def)
qed

lemma uart_write_str_ready:
  assumes "uart_live c"
  shows "\<exists>r. uart_write_str s c =
    Some (c\<lparr>port_reads := r, port_out := port_out c @ map (\<lambda>ch. (COM, of_char ch)) (takeWhile (\<lambda>ch. ch \<noteq> NUL) s)\<rparr>)"
  using assms
proof (induction s arbitrary: c)
  case Nil
  then show ?case by (auto intro!: exI [of _ "port_reads c"])
next
  case (Cons ch s)
  obtain r where r: "uart_write ch c = Some (c\<lparr>port_reads := r, port_out := port_out c @ [(COM, of_char ch)]\<rparr>)" (is "_ = Some ?c")
    using uart_write_ready [OF Cons.prems] by blast
  have "uart_live ?c" using Cons.prems by (simp add: uart_live_def tx_ready_def)
  from Cons.IH [OF this] r show ?case
    by (auto intro!: exI [of _ "port_reads c"])
qed

section \<open>Property of uart.c\<close>

text \<open>C34. Liveness of serial output: when the transmitter becomes ready again and again, \<open>uart_write_str\<close> returns
  and has sent exactly the characters of the string, in order, to the data port, changing nothing else of the
  processor; and a single \<open>uart_write\<close> returns if and only if the transmitter is ready at some later poll.\<close>

theorem uart_write_str_live:
  "(uart_live c \<longrightarrow> (\<exists>r. uart_write_str s c = Some (c\<lparr>port_reads := r,
      port_out := port_out c @ map (\<lambda>ch. (COM, of_char ch)) (takeWhile (\<lambda>ch. ch \<noteq> NUL) s)\<rparr>))) \<and>
   (uart_write ch c \<noteq> None \<longleftrightarrow> (\<exists>k \<ge> port_reads c. tx_ready c k))"
proof -
  have "uart_write ch c \<noteq> None \<longleftrightarrow> (\<exists>k \<ge> port_reads c. tx_ready c k)"
  proof
    assume "\<exists>k \<ge> port_reads c. tx_ready c k"
    then obtain k where "tx_ready c k" "port_reads c \<le> k" by auto
    from uart_wait_ready [OF this] show "uart_write ch c \<noteq> None" by (auto simp: uart_write_def)
  next
    assume "uart_write ch c \<noteq> None"
    then have "uart_wait c \<noteq> None" by (auto simp: uart_write_def bind_eq_Some_conv)
    then have "\<not> (\<forall>k \<ge> port_reads c. \<not> tx_ready c k)" using uart_wait_never [of c] by (rule contrapos_nn)
    then show "\<exists>k \<ge> port_reads c. tx_ready c k" by simp
  qed
  then show ?thesis using uart_write_str_ready [of c s] by (intro conjI impI)
qed

text \<open>A port whose transmitter is ready at every third poll.\<close>

definition slow_cpu :: cpu where
  "slow_cpu = demo_cpu\<lparr>port_in := \<lambda>n _. if n mod 3 = 2 then 0x20 else 0\<rparr>"

theorem uart_write_str_live_witness:
  "(\<exists>c. uart_write_str ''ok'' slow_cpu = Some c \<and> port_out c = [(0x3E8, 0x6F), (0x3E8, 0x6B)]) \<and>
   uart_write CHR ''x'' slow_cpu \<noteq> None"
proof -
  have ready: "tx_ready slow_cpu (3 * n + 2)" for n
  proof -
    have "(3 * n + 2) mod 3 = 2" by presburger
    then show ?thesis by (simp add: tx_ready_def slow_cpu_def demo_cpu_def del: add_2_eq_Suc')
  qed
  have "uart_live slow_cpu"
    unfolding uart_live_def
  proof
    fix n show "\<exists>k \<ge> n. tx_ready slow_cpu k" using ready [of n] by (intro exI [of _ "3 * n + 2"]) simp
  qed
  moreover have "\<exists>k \<ge> port_reads slow_cpu. tx_ready slow_cpu k"
    using ready [of 0] by (intro exI [of _ "Suc (Suc 0)"]) (simp add: slow_cpu_def demo_cpu_def)
  ultimately show ?thesis
    using uart_write_str_live [of slow_cpu "''ok''" "CHR ''x''"] by (auto simp: slow_cpu_def demo_cpu_def NUL_def COM_def COM3_def)
qed

end
