(* ===== verification/Multiboot.thy ===== *)
theory Multiboot
  imports Kmem
begin

text \<open>
  The boot information of \<open>include/multiboot2.h\<close> and its readers in \<open>init/main.c\<close>: structures in byte memory at
  the offsets of their declarations, the walk over the tags, and the copy into the kernel's buffer. The address of the
  buffer is an argument.
\<close>

definition MULTIBOOT2_HEADER_MAGIC :: u32 where [kconst]: "MULTIBOOT2_HEADER_MAGIC = 0xE85250D6"
definition MULTIBOOT2_ARCH_I386 :: u32 where [kconst]: "MULTIBOOT2_ARCH_I386 = 0"
definition MULTIBOOT2_HEADER_LEN :: u32 where [kconst]: "MULTIBOOT2_HEADER_LEN = 12"
definition MULTIBOOT2_CHKSUM :: u32 where [kconst]: "MULTIBOOT2_CHKSUM = - (0xE85250D6 + 12) AND 0xFFFFFFFF"

text \<open>The header the loader searches for, whose words must add up to 0.\<close>

definition MAKE_MULTIBOOT2_HEADER :: "u32 list" where
  "MAKE_MULTIBOOT2_HEADER = [MULTIBOOT2_HEADER_MAGIC, MULTIBOOT2_ARCH_I386, MULTIBOOT2_HEADER_LEN, MULTIBOOT2_CHKSUM]"

lemma header_checksum: "sum_list MAKE_MULTIBOOT2_HEADER = 0"
  by (simp add: MAKE_MULTIBOOT2_HEADER_def kconst)

definition MULTIBOOT2_LOADER_MAGIC :: u32 where [kconst]: "MULTIBOOT2_LOADER_MAGIC = 0x36D76289"
definition MULTIBOOT2_TAG_END :: u32 where [kconst]: "MULTIBOOT2_TAG_END = 0"
definition MULTIBOOT2_TAG_BOOT_COMMANDLINE :: u32 where [kconst]: "MULTIBOOT2_TAG_BOOT_COMMANDLINE = 1"
definition MULTIBOOT2_TAG_BOOT_LOADER_NAME :: u32 where [kconst]: "MULTIBOOT2_TAG_BOOT_LOADER_NAME = 2"
definition MULTIBOOT2_TAG_MODULES :: u32 where [kconst]: "MULTIBOOT2_TAG_MODULES = 3"
definition MULTIBOOT2_TAG_BASIC_MEMORY_INFORMATION :: u32 where [kconst]: "MULTIBOOT2_TAG_BASIC_MEMORY_INFORMATION = 4"
definition MULTIBOOT2_TAG_BIOS_BOOT_DEVICE :: u32 where [kconst]: "MULTIBOOT2_TAG_BIOS_BOOT_DEVICE = 5"
definition MULTIBOOT2_TAG_MEMORY_MAP :: u32 where [kconst]: "MULTIBOOT2_TAG_MEMORY_MAP = 6"
definition MULTIBOOT2_TAG_VBE_INFORMATION :: u32 where [kconst]: "MULTIBOOT2_TAG_VBE_INFORMATION = 7"
definition MULTIBOOT2_TAG_FRAMEBUFFER_INFORMATION :: u32 where [kconst]: "MULTIBOOT2_TAG_FRAMEBUFFER_INFORMATION = 8"
definition MULTIBOOT2_TAG_ELF_SYMBOLS :: u32 where [kconst]: "MULTIBOOT2_TAG_ELF_SYMBOLS = 9"
definition MULTIBOOT2_TAG_APM_TABLE :: u32 where [kconst]: "MULTIBOOT2_TAG_APM_TABLE = 10"
definition MULTIBOOT2_TAG_EFI_SYSTEM_TABLE_32 :: u32 where [kconst]: "MULTIBOOT2_TAG_EFI_SYSTEM_TABLE_32 = 11"
definition MULTIBOOT2_TAG_EFI_SYSTEM_TABLE_64 :: u32 where [kconst]: "MULTIBOOT2_TAG_EFI_SYSTEM_TABLE_64 = 12"
definition MULTIBOOT2_TAG_SMBIOS_TABLES :: u32 where [kconst]: "MULTIBOOT2_TAG_SMBIOS_TABLES = 13"
definition MULTIBOOT2_TAG_ACPI_RSDP_V1 :: u32 where [kconst]: "MULTIBOOT2_TAG_ACPI_RSDP_V1 = 14"
definition MULTIBOOT2_TAG_ACPI_RSDP_V2PLUS :: u32 where [kconst]: "MULTIBOOT2_TAG_ACPI_RSDP_V2PLUS = 15"
definition MULTIBOOT2_TAG_NETWORKING_INFORMATION :: u32 where [kconst]: "MULTIBOOT2_TAG_NETWORKING_INFORMATION = 16"
definition MULTIBOOT2_TAG_EFI_MEMORY_MAP :: u32 where [kconst]: "MULTIBOOT2_TAG_EFI_MEMORY_MAP = 17"
definition MULTIBOOT2_TAG_EFI_BOOT_SERVICES_NOT_TERMINATED :: u32 where [kconst]: "MULTIBOOT2_TAG_EFI_BOOT_SERVICES_NOT_TERMINATED = 18"
definition MULTIBOOT2_TAG_EFI_32_IMAGE_HANDLE :: u32 where [kconst]: "MULTIBOOT2_TAG_EFI_32_IMAGE_HANDLE = 19"
definition MULTIBOOT2_TAG_EFI_64_IMAGE_HANDLE :: u32 where [kconst]: "MULTIBOOT2_TAG_EFI_64_IMAGE_HANDLE = 20"
definition MULTIBOOT2_TAG_IMAGE_LOAD_BASE_ADDRESS :: u32 where [kconst]: "MULTIBOOT2_TAG_IMAGE_LOAD_BASE_ADDRESS = 21"

record multiboot2_info =
  total_size :: u32
  info_reserved :: u32

record multiboot2_tag_header =
  tag_type :: u32
  tag_size :: u32

record color_type =
  red_position :: u8
  red_mask :: u8
  green_position :: u8
  green_mask :: u8
  blue_position :: u8
  blue_mask :: u8

record multiboot2_tag_framebuffer =
  fb_header :: multiboot2_tag_header
  fb_addr :: u64
  fb_pitch :: u32
  fb_width :: u32
  fb_height :: u32
  fb_bpp :: u8
  fb_type :: u8
  fb_reserved :: u16
  fb_color :: color_type

record multiboot2_mmap_entry =
  e_addr :: u64
  e_len :: u64
  e_type :: u32
  e_reserved :: u32

record multiboot2_tag_mmap =
  mmap_header :: multiboot2_tag_header
  entry_size :: u32
  entry_version :: u32

section \<open>Reading\<close>

definition read_info :: "mem \<Rightarrow> u64 \<Rightarrow> multiboot2_info" where
  "read_info m a = \<lparr>total_size = load32 m a, info_reserved = load32 m (a + 4)\<rparr>"

definition read_tag :: "mem \<Rightarrow> u64 \<Rightarrow> multiboot2_tag_header" where
  "read_tag m a = \<lparr>tag_type = load32 m a, tag_size = load32 m (a + 4)\<rparr>"

definition read_framebuffer :: "mem \<Rightarrow> u64 \<Rightarrow> multiboot2_tag_framebuffer" where
  "read_framebuffer m a =
     \<lparr>fb_header = read_tag m a, fb_addr = load64 m (a + 8), fb_pitch = load32 m (a + 16), fb_width = load32 m (a + 20),
      fb_height = load32 m (a + 24), fb_bpp = m (a + 28), fb_type = m (a + 29), fb_reserved = load_word m (a + 30),
      fb_color = \<lparr>red_position = m (a + 32), red_mask = m (a + 33), green_position = m (a + 34),
        green_mask = m (a + 35), blue_position = m (a + 36), blue_mask = m (a + 37)\<rparr>\<rparr>"

definition read_entry :: "mem \<Rightarrow> u64 \<Rightarrow> multiboot2_mmap_entry" where
  "read_entry m a = \<lparr>e_addr = load64 m a, e_len = load64 m (a + 8), e_type = load32 m (a + 16), e_reserved = load32 m (a + 20)\<rparr>"

definition read_mmap :: "mem \<Rightarrow> u64 \<Rightarrow> multiboot2_tag_mmap" where
  "read_mmap m a = \<lparr>mmap_header = read_tag m a, entry_size = load32 m (a + 8), entry_version = load32 m (a + 12)\<rparr>"

text \<open>\<open>mmap->entries[0]\<close> to \<open>mmap->entries[count - 1]\<close>.\<close>

definition mmap_entries :: "mem \<Rightarrow> u64 \<Rightarrow> u64 \<Rightarrow> multiboot2_mmap_entry list" where
  "mmap_entries m mmap count = map (\<lambda>i. read_entry m (mmap + 16 + 24 * of_nat i)) [0..<unat count]"

definition MULTIBOOT2_FIRST_TAG :: "u64 \<Rightarrow> u64" where
  "MULTIBOOT2_FIRST_TAG info = info + 8"

definition MULTIBOOT2_NEXT_TAG :: "mem \<Rightarrow> u64 \<Rightarrow> u64" where
  "MULTIBOOT2_NEXT_TAG m p = align_up_mask (p + ucast (tag_size (read_tag m p))) 7"

text \<open>Division by a zero \<open>entry_size\<close> is an exception of the processor.\<close>

definition MULTIBOOT2_MMAP_ENTRY_COUNT :: "mem \<Rightarrow> u64 \<Rightarrow> u64 res" where
  "MULTIBOOT2_MMAP_ENTRY_COUNT m mmap =
     (let t = read_mmap m mmap in
      if entry_size t = 0 then Inl Fault
      else Inr ((ucast (tag_size (mmap_header t)) - 8) div ucast (entry_size t)))"

section \<open>main.c\<close>

definition validate_multiboot :: "u32 \<Rightarrow> unit res" where
  "validate_multiboot magic =
     (if magic \<noteq> MULTIBOOT2_LOADER_MAGIC then Inl (Panic (''FYNAOS must be loaded by GRUB.'' @ [CHR 0x0A])) else Inr ())"

definition INFO_BUFFER_SIZE :: u64 where [kconst]: "INFO_BUFFER_SIZE = 8192 * 2"

definition copy_multiboot_info :: "u64 \<Rightarrow> u64 \<Rightarrow> mem \<Rightarrow> mem res" where
  "copy_multiboot_info buffer info m =
     (if ucast (total_size (read_info m info)) \<ge> INFO_BUFFER_SIZE then Inl (Panic ''Bootloader information is too big.'')
      else Inr (snd (memcpy m buffer info (ucast (total_size (read_info m info))))))"

text \<open>
  The loop of \<open>parse_multiboot_info\<close> with the two pointers it sets. Memory does not change, so a walk of more steps than
  there are addresses never ends: \<open>fuel\<close> counts down from \<open>2 ^ 64\<close>.
\<close>

function parse_tags :: "nat \<Rightarrow> mem \<Rightarrow> u64 \<Rightarrow> u64 \<times> u64 \<Rightarrow> (u64 \<times> u64) res" where
  "parse_tags fuel m i found =
     (let ty = tag_type (read_tag m i) in
      if ty = MULTIBOOT2_TAG_END then Inr found
      else if fuel = 0 then Inl Spin
      else
        parse_tags (fuel - 1) m (MULTIBOOT2_NEXT_TAG m i)
          (if ty = MULTIBOOT2_TAG_MEMORY_MAP then (i, snd found)
           else if ty = MULTIBOOT2_TAG_FRAMEBUFFER_INFORMATION then (fst found, i)
           else found))"
  by pat_completeness auto
termination
  by (relation "measure fst") auto

declare parse_tags.simps [simp del]

definition parse_multiboot_info :: "u64 \<Rightarrow> mem \<Rightarrow> u64 \<times> u64 \<Rightarrow> (u64 \<times> u64) res" where
  "parse_multiboot_info buffer m found = parse_tags (2 ^ 64) m (MULTIBOOT2_FIRST_TAG buffer) found"

end
