(* ===== verification/Framebuffer.thy ===== *)
theory Framebuffer
  imports Multiboot
begin

text \<open>
  The linear framebuffer of \<open>drivers/framebuffer.c\<close>: a pixel is the 32-bit word at
  \<open>addr + y * pitch + x * 4\<close>, the products taken on 32 bits; a colour is packed at the bit positions the boot loader
  gives (below 32: a larger shift is undefined in C).
\<close>

definition FRAMEBUFFER_RGB :: "u8 \<Rightarrow> u8 \<Rightarrow> u8 \<Rightarrow> u32" where
  "FRAMEBUFFER_RGB r g b = push_bit 16 (ucast r) OR push_bit 8 (ucast g) OR ucast b"

definition FRAMEBUFFER_RGB_RED :: "u32 \<Rightarrow> u8" where "FRAMEBUFFER_RGB_RED c = ucast (drop_bit 16 c AND 0xFF)"
definition FRAMEBUFFER_RGB_GREEN :: "u32 \<Rightarrow> u8" where "FRAMEBUFFER_RGB_GREEN c = ucast (drop_bit 8 c AND 0xFF)"
definition FRAMEBUFFER_RGB_BLUE :: "u32 \<Rightarrow> u8" where "FRAMEBUFFER_RGB_BLUE c = ucast (c AND 0xFF)"

text \<open>\<open>framebuffer_init\<close>: the result code and the new value of \<open>framebuffer_info\<close>.\<close>

definition framebuffer_init ::
  "multiboot2_tag_framebuffer \<Rightarrow> multiboot2_tag_framebuffer \<Rightarrow> int \<times> multiboot2_tag_framebuffer" where
  "framebuffer_init info framebuffer_info =
     (if fb_type info \<noteq> 1 then (- ENOSYS, framebuffer_info) else (0, info))"

definition pixel :: "multiboot2_tag_framebuffer \<Rightarrow> u32 \<Rightarrow> u32 \<Rightarrow> u64" where
  "pixel fb x y = fb_addr fb + ucast (y * fb_pitch fb) + ucast (x * 4)"

definition pack_color :: "multiboot2_tag_framebuffer \<Rightarrow> u32 \<Rightarrow> u32" where
  "pack_color fb color =
     push_bit (unat (red_position (fb_color fb))) (ucast (FRAMEBUFFER_RGB_RED color)) OR
     push_bit (unat (green_position (fb_color fb))) (ucast (FRAMEBUFFER_RGB_GREEN color)) OR
     push_bit (unat (blue_position (fb_color fb))) (ucast (FRAMEBUFFER_RGB_BLUE color))"

definition framebuffer_write :: "multiboot2_tag_framebuffer \<Rightarrow> u32 \<Rightarrow> u32 \<Rightarrow> u32 \<Rightarrow> mem \<Rightarrow> mem" where
  "framebuffer_write fb color x y m = store32 m (pixel fb x y) (pack_color fb color)"

definition framebuffer_read :: "multiboot2_tag_framebuffer \<Rightarrow> u32 \<Rightarrow> u32 \<Rightarrow> mem \<Rightarrow> u32" where
  "framebuffer_read fb x y m =
     (let v = load32 m (pixel fb x y);
          red = ucast (drop_bit (unat (red_position (fb_color fb))) v AND 0xFF);
          green = ucast (drop_bit (unat (green_position (fb_color fb))) v AND 0xFF);
          blue = ucast (drop_bit (unat (blue_position (fb_color fb))) v AND 0xFF)
      in FRAMEBUFFER_RGB red green blue)"

text \<open>The body of the two loops of \<open>framebuffer_scroll_up\<close>, then the loops.\<close>

definition scroll_pixel :: "multiboot2_tag_framebuffer \<Rightarrow> u32 \<Rightarrow> u32 \<Rightarrow> u32 \<Rightarrow> u32 \<Rightarrow> mem \<Rightarrow> mem" where
  "scroll_pixel fb scale empty_fill y x m =
     (if y + scale \<ge> fb_height fb then framebuffer_write fb empty_fill x y m
      else store32 m (pixel fb x y) (load32 m (pixel fb x (y + scale))))"

definition scroll_row :: "multiboot2_tag_framebuffer \<Rightarrow> u32 \<Rightarrow> u32 \<Rightarrow> u32 \<Rightarrow> mem \<Rightarrow> mem" where
  "scroll_row fb scale empty_fill y m =
     fold (\<lambda>x. scroll_pixel fb scale empty_fill y (of_nat x)) [0..<unat (fb_width fb)] m"

definition framebuffer_scroll_up :: "multiboot2_tag_framebuffer \<Rightarrow> u32 \<Rightarrow> u32 \<Rightarrow> mem \<Rightarrow> mem" where
  "framebuffer_scroll_up fb scale empty_fill m =
     fold (\<lambda>y. scroll_row fb scale empty_fill (of_nat y)) [0..<unat (fb_height fb)] m"

end
