(* ===== verification/Fbcon.thy ===== *)
theory Fbcon
  imports Framebuffer Font Snprintf
begin

text \<open>
  The text console of \<open>drivers/fbcon.c\<close> on the framebuffer: its static variables as a record, every function of the
  file. The font has 128 glyphs; indexing it with a larger character code is a \<open>Fault\<close>.
\<close>

record fbcon =
  fbcon_x :: u32
  fbcon_y :: u32
  fbcon_cx :: u32
  fbcon_cy :: u32
  fbcon_text_cx :: u32
  fbcon_text_cy :: u32
  fbcon_foreground :: u32
  fbcon_background :: u32

definition fbcon_initial :: fbcon where
  "fbcon_initial = \<lparr>fbcon_x = 0, fbcon_y = 0, fbcon_cx = 0, fbcon_cy = 0, fbcon_text_cx = 8, fbcon_text_cy = 8,
     fbcon_foreground = 0x00FFFFFF, fbcon_background = 0x00000000\<rparr>"

text \<open>One pixel of a glyph: the background, and the foreground over it where the font has a bit.\<close>

definition draw_pixel :: "multiboot2_tag_framebuffer \<Rightarrow> fbcon \<Rightarrow> u8 list \<Rightarrow> u32 \<Rightarrow> u32 \<Rightarrow> nat \<Rightarrow> nat \<Rightarrow> mem \<Rightarrow> mem" where
  "draw_pixel fb f glyph x y row col m =
     (let m1 = framebuffer_write fb (fbcon_background f) (x + of_nat col) (y + of_nat row) m
      in if glyph ! row AND push_bit col 1 \<noteq> 0
         then framebuffer_write fb (fbcon_foreground f) (x + of_nat col) (y + of_nat row) m1 else m1)"

definition fbcon_draw_ch :: "multiboot2_tag_framebuffer \<Rightarrow> char \<Rightarrow> u32 \<Rightarrow> u32 \<Rightarrow> fbcon \<Rightarrow> mem \<Rightarrow> mem res" where
  "fbcon_draw_ch fb ch x y f m =
     (let uch = of_char ch :: nat in
      if uch < length font8x8_basic then
        Inr (fold (\<lambda>row. fold (\<lambda>col. draw_pixel fb f (font8x8_basic ! uch) x y row col) [0..<8]) [0..<8] m)
      else Inl Fault)"

definition fbcon_scroll_up :: "multiboot2_tag_framebuffer \<Rightarrow> fbcon \<Rightarrow> mem \<Rightarrow> mem" where
  "fbcon_scroll_up fb f m = framebuffer_scroll_up fb (fbcon_text_cy f) (fbcon_background f) m"

text \<open>The two checks after each character: wrap at the right edge, scroll at the bottom.\<close>

definition fbcon_wrap :: "multiboot2_tag_framebuffer \<Rightarrow> fbcon \<Rightarrow> mem \<Rightarrow> fbcon \<times> mem" where
  "fbcon_wrap fb f m =
     (let f1 = (if fbcon_x f \<ge> fbcon_cx f then f\<lparr>fbcon_x := 0, fbcon_y := fbcon_y f + 1\<rparr> else f)
      in if fbcon_y f1 \<ge> fbcon_cy f1 then (f1\<lparr>fbcon_y := fbcon_y f1 - 1\<rparr>, fbcon_scroll_up fb f1 m) else (f1, m))"

definition tabs_weight :: "string \<Rightarrow> nat" where
  "tabs_weight s = sum_list (map (\<lambda>c. if c = CHR 0x09 then 6 else 1) s)"

function fbcon_write :: "multiboot2_tag_framebuffer \<Rightarrow> string \<Rightarrow> fbcon \<Rightarrow> mem \<Rightarrow> (fbcon \<times> mem) res" where
  "fbcon_write fb s f m =
     (case s of
        [] \<Rightarrow> Inr (f, m)
      | c # cs \<Rightarrow>
          if c = NUL then Inr (f, m)
          else
            rbind
              (if c = CHR 0x0A then Inr (f\<lparr>fbcon_x := 0, fbcon_y := fbcon_y f + 1\<rparr>, m)
               else if c = CHR 0x09 then fbcon_write fb ''    '' f m
               else
                 rbind (fbcon_draw_ch fb c (fbcon_x f * fbcon_text_cx f) (fbcon_y f * fbcon_text_cy f) f m) (\<lambda>m1.
                 Inr (f\<lparr>fbcon_x := fbcon_x f + 1\<rparr>, m1)))
              (\<lambda>(f1, m1). let (f2, m2) = fbcon_wrap fb f1 m1 in fbcon_write fb cs f2 m2))"
  by pat_completeness auto
termination
  by (relation "measure (\<lambda>(fb, s, f, m). tabs_weight s)") (auto simp: tabs_weight_def)

declare fbcon_write.simps [simp del]

definition fbcon_init :: "multiboot2_tag_framebuffer \<Rightarrow> fbcon \<Rightarrow> int \<times> fbcon" where
  "fbcon_init fb f =
     (if fb_type fb \<noteq> 1 then (- ENOSYS, f)
      else
        let f1 = f\<lparr>fbcon_x := 0, fbcon_y := 0, fbcon_text_cx := 8, fbcon_text_cy := 8\<rparr>
        in (0, f1\<lparr>fbcon_cx := fb_width fb div fbcon_text_cx f1, fbcon_cy := fb_height fb div fbcon_text_cy f1\<rparr>))"

definition fbcon_set_color :: "u8 \<Rightarrow> u8 \<Rightarrow> u8 \<Rightarrow> u8 \<Rightarrow> u8 \<Rightarrow> u8 \<Rightarrow> fbcon \<Rightarrow> fbcon" where
  "fbcon_set_color fg_r fg_g fg_b bg_r bg_g bg_b f =
     f\<lparr>fbcon_foreground := FRAMEBUFFER_RGB fg_r fg_g fg_b, fbcon_background := FRAMEBUFFER_RGB bg_r bg_g bg_b\<rparr>"

end
