(* ===== verification/Idt.thy ===== *)
theory Idt
  imports Cpu
begin

text \<open>
  The interrupt descriptor table of \<open>cpu/idt.c\<close> and its set-up by \<open>init_interrupt\<close> of
  \<open>kernel/interrupt.c\<close>. The table is a list of 256 gates; an index outside it is a \<open>Fault\<close>. The addresses of
  the entry stubs (\<open>isr_table\<close>, made by \<open>kernel/asm.S\<close>) and of the table itself are arguments.
\<close>

definition IDT_COUNT :: nat where [kconst]: "IDT_COUNT = 256"
definition IDT_ATTRIBUTE_PRESENT :: u32 where [kconst]: "IDT_ATTRIBUTE_PRESENT = 0x80"
definition IDT_ATTRIBUTE_PRIVILEGE_KERNELONLY :: u32 where [kconst]: "IDT_ATTRIBUTE_PRIVILEGE_KERNELONLY = 0x00"
definition IDT_ATTRIBUTE_PRIVILEGE_USERCALLABLE :: u32 where [kconst]: "IDT_ATTRIBUTE_PRIVILEGE_USERCALLABLE = 0x60"
definition IDT_ATTRIBUTE_TYPE_INTERRUPT_GATE :: u32 where [kconst]: "IDT_ATTRIBUTE_TYPE_INTERRUPT_GATE = 0x0E"
definition IDT_ATTRIBUTE_TYPE_TRAP_GATE :: u32 where [kconst]: "IDT_ATTRIBUTE_TYPE_TRAP_GATE = 0x0F"
definition IDT_ATTRIBUTE_TYPE_TASK_GATE :: u32 where [kconst]: "IDT_ATTRIBUTE_TYPE_TASK_GATE = 0x05"

definition CPU_EXCEPTION_DIVIDE_ERROR :: nat where [kconst]: "CPU_EXCEPTION_DIVIDE_ERROR = 0"
definition CPU_EXCEPTION_DEBUG :: nat where [kconst]: "CPU_EXCEPTION_DEBUG = 1"
definition CPU_EXCEPTION_NON_MASKABLE_INTERRUPT :: nat where [kconst]: "CPU_EXCEPTION_NON_MASKABLE_INTERRUPT = 2"
definition CPU_EXCEPTION_DEBUG_BREAK :: nat where [kconst]: "CPU_EXCEPTION_DEBUG_BREAK = 3"
definition CPU_EXCEPTION_OVERFLOW :: nat where [kconst]: "CPU_EXCEPTION_OVERFLOW = 4"
definition CPU_EXCEPTION_BOUND_RANGE :: nat where [kconst]: "CPU_EXCEPTION_BOUND_RANGE = 5"
definition CPU_EXCEPTION_INVALID_OPCODE :: nat where [kconst]: "CPU_EXCEPTION_INVALID_OPCODE = 6"
definition CPU_EXCEPTION_DEVICE_NOT_AVAILABLE :: nat where [kconst]: "CPU_EXCEPTION_DEVICE_NOT_AVAILABLE = 7"
definition CPU_EXCEPTION_DOUBLE_FAULT :: nat where [kconst]: "CPU_EXCEPTION_DOUBLE_FAULT = 8"
definition CPU_EXCEPTION_INVALID_TSS :: nat where [kconst]: "CPU_EXCEPTION_INVALID_TSS = 10"
definition CPU_EXCEPTION_SEGMENT_NOT_PRESENT :: nat where [kconst]: "CPU_EXCEPTION_SEGMENT_NOT_PRESENT = 11"
definition CPU_EXCEPTION_STACK_SEGMENT_FAULT :: nat where [kconst]: "CPU_EXCEPTION_STACK_SEGMENT_FAULT = 12"
definition CPU_EXCEPTION_GENERAL_PROTECTION :: nat where [kconst]: "CPU_EXCEPTION_GENERAL_PROTECTION = 13"
definition CPU_EXCEPTION_PAGE_FAULT :: nat where [kconst]: "CPU_EXCEPTION_PAGE_FAULT = 14"
definition CPU_EXCEPTION_X87_FP :: nat where [kconst]: "CPU_EXCEPTION_X87_FP = 16"
definition CPU_EXCEPTION_ALIGNMENT_CHECK :: nat where [kconst]: "CPU_EXCEPTION_ALIGNMENT_CHECK = 17"
definition CPU_EXCEPTION_MACHINE_CHECK :: nat where [kconst]: "CPU_EXCEPTION_MACHINE_CHECK = 18"
definition CPU_EXCEPTION_SIMD_FP :: nat where [kconst]: "CPU_EXCEPTION_SIMD_FP = 19"

record idte =
  offset_low :: u16
  selector :: u16
  ist :: u8
  attributes :: u8
  offset_mid :: u16
  offset_high :: u32
  reserved :: u32

definition SIZEOF_IDTE :: nat where [kconst]: "SIZEOF_IDTE = 16"

definition set_idt_entry :: "nat \<Rightarrow> u64 \<Rightarrow> u8 \<Rightarrow> u8 \<Rightarrow> idte list \<Rightarrow> idte list res" where
  "set_idt_entry index isr_addr attrs stack idt =
     (if index < length idt then
        Inr (idt[index := (idt ! index)\<lparr>
          attributes := attrs,
          ist := stack,
          selector := ucast KERNEL_CODE_SELECTOR,
          offset_low := ucast (isr_addr AND 0xFFFF),
          offset_mid := ucast (drop_bit 16 isr_addr AND 0xFFFF),
          offset_high := ucast (drop_bit 32 isr_addr AND 0xFFFFFFFF),
          reserved := 0\<rparr>])
      else Inl Fault)"

definition init_idt :: "u64 \<Rightarrow> idte list \<Rightarrow> cpu \<Rightarrow> idte list \<times> cpu" where
  "init_idt idt_addr idt c =
     (map (\<lambda>e. e\<lparr>attributes := attributes e AND NOT (ucast IDT_ATTRIBUTE_PRESENT)\<rparr>) idt,
      c\<lparr>idtr := (of_nat (SIZEOF_IDTE * IDT_COUNT) - 1, idt_addr)\<rparr>)"

text \<open>The loop \<open>for (i = 0; i < IDT_COUNT; i++) SET_IDTE(i, attr, 0);\<close>, from \<open>i\<close> on.\<close>

function set_idt_entries :: "(nat \<Rightarrow> u64) \<Rightarrow> u8 \<Rightarrow> nat \<Rightarrow> idte list \<Rightarrow> idte list res" where
  "set_idt_entries isr_table attr i idt =
     (if i < IDT_COUNT then
        rbind (set_idt_entry i (isr_table i) attr 0 idt) (set_idt_entries isr_table attr (i + 1))
      else Inr idt)"
  by pat_completeness auto
termination
  by (relation "measure (\<lambda>(t, a, i, idt). IDT_COUNT - i)") auto

declare set_idt_entries.simps [simp del]

definition init_interrupt :: "u64 \<Rightarrow> (nat \<Rightarrow> u64) \<Rightarrow> idte list \<Rightarrow> cpu \<Rightarrow> (idte list \<times> cpu) res" where
  "init_interrupt idt_addr isr_table idt c =
     (let (idt0, c1) = init_idt idt_addr idt c;
          attr = ucast (IDT_ATTRIBUTE_PRESENT OR IDT_ATTRIBUTE_PRIVILEGE_KERNELONLY OR IDT_ATTRIBUTE_TYPE_INTERRUPT_GATE)
      in rbind (set_idt_entries isr_table attr 0 idt0) (\<lambda>idt1.
         rbind (set_idt_entry CPU_EXCEPTION_NON_MASKABLE_INTERRUPT (isr_table CPU_EXCEPTION_NON_MASKABLE_INTERRUPT) attr 1 idt1) (\<lambda>idt2.
         rbind (set_idt_entry CPU_EXCEPTION_DOUBLE_FAULT (isr_table CPU_EXCEPTION_DOUBLE_FAULT) attr 1 idt2) (\<lambda>idt3.
         rbind (set_idt_entry CPU_EXCEPTION_MACHINE_CHECK (isr_table CPU_EXCEPTION_MACHINE_CHECK) attr 1 idt3) (\<lambda>idt4.
         Inr (idt4, c1))))))"

section \<open>What the processor reads\<close>

text \<open>The target of a gate, and a gate that leads to \<open>a\<close> in ring 0 with interrupts off on stack \<open>k\<close>.\<close>

definition gate_offset :: "idte \<Rightarrow> u64" where
  "gate_offset e = ucast (offset_low e) OR push_bit 16 (ucast (offset_mid e)) OR push_bit 32 (ucast (offset_high e))"

definition kernel_gate :: "u64 \<Rightarrow> u8 \<Rightarrow> idte \<Rightarrow> bool" where
  "kernel_gate a k e \<longleftrightarrow> gate_offset e = a \<and> selector e = 8 \<and> attributes e = 0x8E \<and> ist e = k \<and> reserved e = 0"

lemma gate_masks: "(0xFFFF :: u64) = mask 16" "(0xFFFFFFFF :: u64) = mask 32"
  by (simp_all add: mask_eq_exp_minus_1)

lemma gate_offset_split:
  "offset_low e = ucast (a AND 0xFFFF) \<Longrightarrow> offset_mid e = ucast (drop_bit 16 a AND 0xFFFF) \<Longrightarrow>
   offset_high e = ucast (drop_bit 32 a AND 0xFFFFFFFF) \<Longrightarrow> gate_offset e = a"
proof -
  assume e: "offset_low e = ucast (a AND 0xFFFF)" "offset_mid e = ucast (drop_bit 16 a AND 0xFFFF)"
    "offset_high e = ucast (drop_bit 32 a AND 0xFFFFFFFF)"
  show "gate_offset e = a"
  proof (rule bit_word_eqI)
    fix n assume n: "n < LENGTH(64)"
    consider "n < 16" | "16 \<le> n" "n < 32" | "32 \<le> n" by linarith
    then show "bit (gate_offset e) n = bit a n"
      unfolding gate_offset_def e gate_masks using n by cases (auto simp: bit_simps)
  qed
qed

lemma set_idt_entry_ok:
  assumes "i < length idt"
  obtains e where "set_idt_entry i a 0x8E k idt = Inr (idt[i := e])" and "kernel_gate a k e"
proof
  let ?e = "(idt ! i)\<lparr>attributes := 0x8E, ist := k, selector := ucast KERNEL_CODE_SELECTOR,
    offset_low := ucast (a AND 0xFFFF), offset_mid := ucast (drop_bit 16 a AND 0xFFFF),
    offset_high := ucast (drop_bit 32 a AND 0xFFFFFFFF), reserved := 0\<rparr>"
  show "set_idt_entry i a 0x8E k idt = Inr (idt[i := ?e])"
    using assms by (simp add: set_idt_entry_def)
  have "gate_offset ?e = a" by (rule gate_offset_split) simp_all
  then show "kernel_gate a k ?e"
    by (simp add: kernel_gate_def KERNEL_CODE_SELECTOR_def MAKE_SEGMENT_SELECTOR_def)
qed

lemma set_idt_entries_ok:
  assumes "length idt = 256" and "\<forall>v < i. kernel_gate (isr v) 0 (idt ! v)" and "i \<le> 256"
  shows "\<exists>idt'. set_idt_entries isr 0x8E i idt = Inr idt' \<and> length idt' = 256 \<and>
    (\<forall>v < 256. kernel_gate (isr v) 0 (idt' ! v))"
  using assms
proof (induction "256 - i" arbitrary: i idt)
  case 0
  then show ?case by (simp add: set_idt_entries.simps IDT_COUNT_def)
next
  case (Suc d)
  have i: "i < 256" "i < length idt" using Suc by auto
  obtain e where e: "set_idt_entry i (isr i) 0x8E 0 idt = Inr (idt[i := e])" "kernel_gate (isr i) 0 e"
    by (rule set_idt_entry_ok [OF i(2)])
  have "\<forall>v < i + 1. kernel_gate (isr v) 0 (idt[i := e] ! v)"
    using Suc.prems(2) e(2) i by (auto simp: nth_list_update less_Suc_eq)
  then show ?case
    using Suc.hyps(1) [of "i + 1" "idt[i := e]"] Suc.hyps(2) Suc.prems e(1) i
    by (simp add: set_idt_entries.simps [of isr _ i] IDT_COUNT_def)
qed

section \<open>Property of idt.c and init_interrupt\<close>

lemma init_interrupt_gates:
  assumes "length idt = 256"
  shows "\<exists>idt'. init_interrupt a isr idt c = Inr (idt', c\<lparr>idtr := (4095, a)\<rparr>) \<and> length idt' = 256 \<and>
    (\<forall>v < 256. kernel_gate (isr v) (if v \<in> {2, 8, 18} then 1 else 0) (idt' ! v))"
proof -
  let ?idt0 = "map (\<lambda>e. e\<lparr>attributes := attributes e AND NOT (ucast IDT_ATTRIBUTE_PRESENT)\<rparr>) idt"
  have "length ?idt0 = 256" using assms by simp
  from set_idt_entries_ok [OF this, of 0 isr] obtain d where
    d: "set_idt_entries isr 0x8E 0 ?idt0 = Inr d" "length d = 256" "\<forall>v < 256. kernel_gate (isr v) 0 (d ! v)" by auto
  obtain e2 where e2: "set_idt_entry 2 (isr 2) 0x8E 1 d = Inr (d[2 := e2])" "kernel_gate (isr 2) 1 e2"
    by (rule set_idt_entry_ok [of 2 d "isr 2" 1]) (use d(2) in auto)
  obtain e8 where e8: "set_idt_entry 8 (isr 8) 0x8E 1 (d[2 := e2]) = Inr (d[2 := e2, 8 := e8])" "kernel_gate (isr 8) 1 e8"
    by (rule set_idt_entry_ok [of 8 "d[2 := e2]" "isr 8" 1]) (use d(2) in auto)
  obtain e18 where e18: "set_idt_entry 18 (isr 18) 0x8E 1 (d[2 := e2, 8 := e8]) = Inr (d[2 := e2, 8 := e8, 18 := e18])"
      "kernel_gate (isr 18) 1 e18"
    by (rule set_idt_entry_ok [of 18 "d[2 := e2, 8 := e8]" "isr 18" 1]) (use d(2) in auto)
  have "init_interrupt a isr idt c = Inr (d[2 := e2, 8 := e8, 18 := e18], c\<lparr>idtr := (4095, a)\<rparr>)"
    using d(1) e2(1) e8(1) e18(1) unfolding init_interrupt_def init_idt_def
    by (simp add: kconst)
  then show ?thesis
    using d(2,3) e2(2) e8(2) e18(2) by (auto simp: nth_list_update)
qed

text \<open>C33. After \<open>init_interrupt\<close> every one of the 256 vectors has a present ring-0 interrupt gate in the kernel
  code segment whose reassembled offset is the address of that vector's stub; the non-maskable interrupt, the
  double fault and the machine check run on the separate stack 1, all others on none; the table register covers
  the table.\<close>

theorem init_interrupt_correct:
  assumes "length idt = 256"
  shows "\<exists>idt'. init_interrupt a isr idt c = Inr (idt', c\<lparr>idtr := (4095, a)\<rparr>) \<and> length idt' = 256 \<and>
    (\<forall>v < 256. kernel_gate (isr v) (if v \<in> {2, 8, 18} then 1 else 0) (idt' ! v))"
  using assms by (rule init_interrupt_gates)

theorem init_interrupt_correct_witness:
  "\<exists>idt'. init_interrupt 0xFFFFFFFF80020000 (\<lambda>v. 0xFFFFFFFF80001000 + 16 * of_nat v)
      (replicate 256 \<lparr>offset_low = 0, selector = 0, ist = 0, attributes = 0, offset_mid = 0, offset_high = 0, reserved = 0\<rparr>)
      demo_cpu = Inr (idt', demo_cpu\<lparr>idtr := (4095, 0xFFFFFFFF80020000)\<rparr>) \<and>
    kernel_gate 0xFFFFFFFF80001080 1 (idt' ! 8)"
proof -
  let ?idt = "replicate 256 \<lparr>offset_low = 0, selector = 0, ist = 0, attributes = 0, offset_mid = 0, offset_high = 0, reserved = 0\<rparr>"
  have "length ?idt = 256" by simp
  from init_interrupt_correct [OF this, of "0xFFFFFFFF80020000" "\<lambda>v. 0xFFFFFFFF80001000 + 16 * of_nat v" demo_cpu]
  obtain idt' where i: "init_interrupt 0xFFFFFFFF80020000 (\<lambda>v. 0xFFFFFFFF80001000 + 16 * of_nat v) ?idt demo_cpu =
      Inr (idt', demo_cpu\<lparr>idtr := (4095, 0xFFFFFFFF80020000)\<rparr>)"
    and g: "\<forall>v < 256. kernel_gate (0xFFFFFFFF80001000 + 16 * of_nat v) (if v \<in> {2, 8, 18} then 1 else 0) (idt' ! v)"
    by blast
  from spec [OF g, of 8] have "kernel_gate 0xFFFFFFFF80001080 1 (idt' ! 8)" by simp
  with i show ?thesis by blast
qed

end
