(* ===== verification/Console.thy ===== *)
theory Console
  imports Uart Fbcon Vmm Gdt Idt
begin

text \<open>
  The state of the whole kernel, and its output: \<open>kernel/kprintf.c\<close> and \<open>kernel/panic.c\<close>. A function that does not return ends in
  the state in which the processor is halted for good; polling a serial port that is never ready is \<open>Spin\<close>.
\<close>

record machine =
  kern :: kernel
  boot :: boot_state
  gdts :: gdt_state
  idt :: "idte list"
  framebuffer_info :: multiboot2_tag_framebuffer
  con :: fbcon
  panic_use_fbcon :: bool
  in_panic :: bool
  interrupt_handlers :: "u64 list"
  multiboot_mmap_info :: u64
  multiboot_framebuffer_info :: u64

definition set_cpu :: "cpu \<Rightarrow> machine \<Rightarrow> machine" where
  "set_cpu c s = s\<lparr>kern := (kern s)\<lparr>kcpu := c\<rparr>\<rparr>"

definition set_mem :: "mem \<Rightarrow> machine \<Rightarrow> machine" where
  "set_mem m s = s\<lparr>kern := (kern s)\<lparr>kmem := m\<rparr>\<rparr>"

definition or_spin :: "'a option \<Rightarrow> 'a res" where
  "or_spin r = (case r of None \<Rightarrow> Inl Spin | Some x \<Rightarrow> Inr x)"

definition serial :: "string \<Rightarrow> machine \<Rightarrow> machine res" where
  "serial str s = rbind (or_spin (uart_write_str str (kcpu (kern s)))) (\<lambda>c. Inr (set_cpu c s))"

definition screen :: "string \<Rightarrow> machine \<Rightarrow> machine res" where
  "screen str s = rbind (fbcon_write (framebuffer_info s) str (con s) (kmem (kern s))) (\<lambda>(f, m). Inr (set_mem m (s\<lparr>con := f\<rparr>)))"

text \<open>The string in a character array of \<open>n\<close> bytes; without a NUL the readers would run past its end.\<close>

definition c_string :: "nat \<Rightarrow> out \<Rightarrow> string res" where
  "c_string n buffer =
     (let s = map (\<lambda>i. buffer (int i)) [0..<n]
      in if NUL \<in> set s then Inr (takeWhile (\<lambda>c. c \<noteq> NUL) s) else Inl Fault)"

section \<open>kprintf.c\<close>

text \<open>\<open>stack\<close> is what the uninitialised local \<open>buffer\<close> holds.\<close>

definition vkprintf :: "out \<Rightarrow> string \<Rightarrow> va list \<Rightarrow> machine \<Rightarrow> machine res" where
  "vkprintf stack fmt args s =
     rbind (vsnprintf stack 1024 fmt args) (\<lambda>(n, buffer).
     rbind (c_string 1024 buffer) (\<lambda>str.
     rbind (serial str s) (screen str)))"

definition kprintf :: "out \<Rightarrow> string \<Rightarrow> va list \<Rightarrow> machine \<Rightarrow> machine res" where
  "kprintf stack fmt args s = vkprintf stack fmt args s"

section \<open>panic.c\<close>

text \<open>\<open>halt_cpu_forever\<close> of \<open>include/fynaos/cpu.h\<close>: the state the processor stays in.\<close>

definition halt_cpu_forever :: "machine \<Rightarrow> machine" where
  "halt_cpu_forever s = set_cpu (disable_interrupts (kcpu (kern s))) s"

text \<open>The static \<open>buffer\<close> is zero before its only use.\<close>

definition vpanic :: "string \<Rightarrow> va list \<Rightarrow> machine \<Rightarrow> machine res" where
  "vpanic msg args s =
     (let s0 = set_cpu (disable_interrupts (kcpu (kern s))) s in
      if in_panic s0 then
        rbind (serial (''*** Double panic detected'' @ [CHR 0x0A]) s0) (\<lambda>s1. Inr (halt_cpu_forever s1))
      else
        let s1 = s0\<lparr>in_panic := True\<rparr> in
        rbind (vsnprintf (\<lambda>_. NUL) 1024 msg args) (\<lambda>(n, buffer).
        rbind (c_string 1024 buffer) (\<lambda>str.
        rbind (serial ''kernel panic: '' s1) (\<lambda>s2.
        rbind (serial str s2) (\<lambda>s3.
        rbind (or_spin (uart_write (CHR 0x0A) (kcpu (kern s3)))) (\<lambda>c.
        let s4 = set_cpu c s3 in
        rbind
          (if panic_use_fbcon s4 then
             rbind (screen ''kernel panic: '' s4) (\<lambda>s5.
             rbind (screen str s5) (screen [CHR 0x0A]))
           else Inr s4)
          (\<lambda>s6. Inr (halt_cpu_forever s6))))))))"

definition panic :: "string \<Rightarrow> va list \<Rightarrow> machine \<Rightarrow> machine res" where
  "panic msg args s = vpanic msg args s"

definition panic_use_console :: "machine \<Rightarrow> machine" where
  "panic_use_console s = s\<lparr>panic_use_fbcon := True\<rparr>"

end
