(* ===== verification/Interrupt.thy ===== *)
theory Interrupt
  imports Console
begin

text \<open>
  Interrupt dispatch of \<open>kernel/interrupt.c\<close>. The nodes of the handler lists live in pool memory (the handler's address at offset 0, the
  link at offset 8). What a handler does is the argument \<open>call\<close>: given its address and the trap frame it returns
  its result and the new state. \<open>exit_interrupt_service\<close>, which resumes the interrupted code, is the result \<open>Some frame\<close>; \<open>None\<close>
  means that the machine was halted by a panic.
\<close>

type_synonym handler_call = "u64 \<Rightarrow> u64 \<Rightarrow> machine \<Rightarrow> int \<times> machine"

definition SIZEOF_HANDLER_INFO :: u64 where [kconst]: "SIZEOF_HANDLER_INFO = 16"

definition h_handler :: "mem \<Rightarrow> u64 \<Rightarrow> u64" where "h_handler m p = load64 m p"
definition h_next :: "mem \<Rightarrow> u64 \<Rightarrow> u64" where "h_next m p = load64 m (p + 8)"

text \<open>\<open>struct trap_frame\<close>, pushed by the entry stubs, and its place in memory.\<close>

record trap_frame =
  tf_r15 :: u64
  tf_r14 :: u64
  tf_r13 :: u64
  tf_r12 :: u64
  tf_r11 :: u64
  tf_r10 :: u64
  tf_r9 :: u64
  tf_r8 :: u64
  tf_rax :: u64
  tf_rbx :: u64
  tf_rcx :: u64
  tf_rdx :: u64
  tf_rsi :: u64
  tf_rdi :: u64
  tf_rbp :: u64
  tf_vector :: u64
  tf_errcode :: u64
  tf_rip :: u64
  tf_cs :: u64
  tf_rflags :: u64
  tf_rsp :: u64
  tf_ss :: u64

definition read_trap_frame :: "mem \<Rightarrow> u64 \<Rightarrow> trap_frame" where
  "read_trap_frame m a =
     \<lparr>tf_r15 = load64 m a, tf_r14 = load64 m (a + 8), tf_r13 = load64 m (a + 16), tf_r12 = load64 m (a + 24),
       tf_r11 = load64 m (a + 32), tf_r10 = load64 m (a + 40), tf_r9 = load64 m (a + 48), tf_r8 = load64 m (a + 56),
       tf_rax = load64 m (a + 64), tf_rbx = load64 m (a + 72), tf_rcx = load64 m (a + 80), tf_rdx = load64 m (a + 88),
       tf_rsi = load64 m (a + 96), tf_rdi = load64 m (a + 104), tf_rbp = load64 m (a + 112), tf_vector = load64 m (a + 120),
       tf_errcode = load64 m (a + 128), tf_rip = load64 m (a + 136), tf_cs = load64 m (a + 144), tf_rflags = load64 m (a + 152),
       tf_rsp = load64 m (a + 160), tf_ss = load64 m (a + 168)\<rparr>"

definition frame_vector :: "mem \<Rightarrow> u64 \<Rightarrow> u64" where "frame_vector m frame = tf_vector (read_trap_frame m frame)"

text \<open>The loop over the handlers: whether one accepted, and the state. A cyclic list may be walked for ever.\<close>

partial_function (option) handler_loop :: "handler_call \<Rightarrow> u64 \<Rightarrow> u64 \<Rightarrow> machine \<Rightarrow> (bool \<times> machine) option" where
  "handler_loop call frame head s =
     (if head = 0 then Some (False, s)
      else (case call (h_handler (kmem (kern s)) head) frame s of (r, s1) \<Rightarrow>
        if r = 0 then Some (True, s1) else handler_loop call frame (h_next (kmem (kern s1)) head) s1))"

definition interrupt_service :: "handler_call \<Rightarrow> u64 \<Rightarrow> machine \<Rightarrow> (u64 option \<times> machine) res" where
  "interrupt_service call frame s =
     (let vector = frame_vector (kmem (kern s)) frame in
      if unat vector \<ge> length (interrupt_handlers s) then Inl Fault else
      let head = interrupt_handlers s ! unat vector in
      if vector < 32 then
        rbind (panic ''Unhandled exception: vector=%llu'' [VLong vector] s) (\<lambda>s1. Inr (None, s1))
      else
        rbind (or_spin (handler_loop call frame head s)) (\<lambda>(accepted, s1).
        if accepted then Inr (Some frame, s1)
        else rbind (panic ''Unhandled interrupt: vector=%llu'' [VLong (frame_vector (kmem (kern s1)) frame)] s1) (\<lambda>s2. Inr (None, s2))))"

definition connect_interrupt :: "u64 \<Rightarrow> u32 \<Rightarrow> machine \<Rightarrow> (int \<times> machine) res" where
  "connect_interrupt handler number s =
     (if number < 32 then Inr (- EINVAL, s)
      else
        let (flags, c) = save_and_disable_interrupts (kcpu (kern s)); s0 = set_cpu c s in
        rbind (kmalloc SIZEOF_HANDLER_INFO (kern s0)) (\<lambda>(new_node, k).
        let s1 = s0\<lparr>kern := k\<rparr> in
        if new_node = 0 then Inr (- ENOMEM, set_cpu (restore_interrupts flags (kcpu (kern s1))) s1)
        else if unat number \<ge> length (interrupt_handlers s1) then Inl Fault
        else
          let m1 = store64 (kmem (kern s1)) new_node handler;
              m2 = store64 m1 (new_node + 8) (interrupt_handlers s1 ! unat number);
              s2 = (set_mem m2 s1)\<lparr>interrupt_handlers := (interrupt_handlers s1)[unat number := new_node]\<rparr>
          in Inr (0, set_cpu (restore_interrupts flags (kcpu (kern s2))) s2)))"

end
