(* ===== verification/Entry_Stubs.thy ===== *)
theory Entry_Stubs
  imports Asm Interrupt
begin

text \<open>
  The interrupt entry of \<open>kernel/asm.S\<close>: the 256 stubs made by \<open>MAKE_ISR\<close>, the common part that saves the registers and calls
  \<open>interrupt_service\<close>, and \<open>exit_interrupt_service\<close>. The property ties them to \<open>struct trap_frame\<close> of \<open>kernel.h\<close>, through which the C
  code sees the saved registers.
\<close>

section \<open>Code\<close>

text \<open>The vectors for which the processor pushes an error code, by the list in \<open>MAKE_ISR\<close>.\<close>

definition has_error_code :: "nat \<Rightarrow> bool" where
  "has_error_code num \<longleftrightarrow> num \<in> {8, 10, 11, 12, 13, 14, 17, 21, 29, 30}"

definition isr_stub :: "nat \<Rightarrow> asm \<Rightarrow> asm" where
  "isr_stub num s = push (of_nat num) (if has_error_code num then s else push 0 s)"

definition saved_regs :: "reg list" where
  "saved_regs = [RBP, RDI, RSI, RDX, RCX, RBX, RAX, R8, R9, R10, R11, R12, R13, R14, R15]"

text \<open>Up to \<open>jmp interrupt_service\<close>, with the first argument in \<open>RDI\<close>.\<close>

definition isr_common :: "asm \<Rightarrow> asm" where
  "isr_common s = mov RSP RDI (fold push_reg saved_regs s)"

definition isr :: "nat \<Rightarrow> asm \<Rightarrow> asm" where "isr num s = isr_common (isr_stub num s)"

definition exit_interrupt_service :: "asm \<Rightarrow> asm" where
  "exit_interrupt_service s = iretq (add_imm 16 RSP (fold pop [R15, R14, R13, R12, R11, R10, R9, R8, RAX, RBX, RCX, RDX, RSI, RDI, RBP] (mov RDI RSP s)))"

section \<open>The frame\<close>

text \<open>
  \<open>delivered s0 num code s\<close>: \<open>s\<close> is the state in which the processor enters the stub of vector \<open>num\<close> after interrupting \<open>s0\<close>. The new stack holds,
  from the stack pointer up, the error code if the vector has one, and the interrupted instruction pointer, code selector, flags, stack
  pointer and stack selector; the other registers are those of \<open>s0\<close>.
\<close>

definition frame_base :: "nat \<Rightarrow> asm \<Rightarrow> u64" where
  "frame_base num s = gpr s RSP - (if has_error_code num then 128 else 136)"

definition delivered :: "asm \<Rightarrow> nat \<Rightarrow> u64 \<Rightarrow> asm \<Rightarrow> bool" where
  "delivered s0 num code s \<longleftrightarrow> (let F = frame_base num s; m = amem s in
     (\<forall>r. r \<noteq> RSP \<longrightarrow> gpr s r = gpr s0 r) \<and> (has_error_code num \<longrightarrow> load64 m (F + 128) = code) \<and>
     load64 m (F + 136) = rip s0 \<and> load64 m (F + 144) = ucast (asm_cs s0) \<and> load64 m (F + 152) = asm_rflags s0 \<and>
     load64 m (F + 160) = gpr s0 RSP \<and> load64 m (F + 168) = ucast (asm_ss s0))"

definition frame_of :: "asm \<Rightarrow> nat \<Rightarrow> u64 \<Rightarrow> trap_frame" where
  "frame_of s num code = \<lparr>tf_r15 = gpr s R15, tf_r14 = gpr s R14, tf_r13 = gpr s R13, tf_r12 = gpr s R12,
     tf_r11 = gpr s R11, tf_r10 = gpr s R10, tf_r9 = gpr s R9, tf_r8 = gpr s R8,
     tf_rax = gpr s RAX, tf_rbx = gpr s RBX, tf_rcx = gpr s RCX, tf_rdx = gpr s RDX, tf_rsi = gpr s RSI, tf_rdi = gpr s RDI, tf_rbp = gpr s RBP,
     tf_vector = of_nat num, tf_errcode = (if has_error_code num then code else 0), tf_rip = rip s, tf_cs = ucast (asm_cs s),
     tf_rflags = asm_rflags s, tf_rsp = gpr s RSP, tf_ss = ucast (asm_ss s)\<rparr>"

text \<open>The stub leaves vector and error code 15 words above the frame's base, whether or not the processor pushed a code.\<close>

lemma isr_stub_words:
  assumes "F = frame_base num s"
  shows "gpr (isr_stub num s) = (gpr s)(RSP := F + of_nat (8 * 15))"
    and "load64 (amem (isr_stub num s)) (F + of_nat 120) = of_nat num"
    and "load64 (amem (isr_stub num s)) (F + of_nat 128) = (if has_error_code num then load64 (amem s) (F + of_nat 128) else 0)"
    and "k < 120 \<or> 136 \<le> k \<Longrightarrow> k < 2 ^ 64 \<Longrightarrow> amem (isr_stub num s) (F + of_nat k) = amem s (F + of_nat k)"
proof -
  let ?vs = "(if has_error_code num then [] else [0]) @ [of_nat num :: u64]" and ?n = "if has_error_code num then 16 else 17 :: nat"
  have e: "isr_stub num s = fold push ?vs s" by (simp add: isr_stub_def)
  have "gpr s RSP = F + of_nat (8 * ?n)" by (simp add: assms frame_base_def)
  then have P: "pushed F ?n ?vs s (isr_stub num s)" unfolding e by (intro push_run) simp_all
  show "gpr (isr_stub num s) = (gpr s)(RSP := F + of_nat (8 * 15))"
    using pushedD(1) [OF P] by (cases "has_error_code num") simp_all
  have w: "load64 (amem (isr_stub num s)) (F + of_nat (8 * (?n - 1 - i))) = ?vs ! i" if "i < length ?vs" for i
    using pushedD(2) [OF P that] .
  show "load64 (amem (isr_stub num s)) (F + of_nat 120) = of_nat num"
    using w [of "length ?vs - 1"] by (cases "has_error_code num") simp_all
  have byte: "amem (isr_stub num s) (F + of_nat k) = amem s (F + of_nat k)" if "k < 8 * 15 \<or> 8 * ?n \<le> k" "k < 2 ^ 64" for k
    using that by (intro pushedD(3) [OF P]) (cases "has_error_code num"; simp)+
  then show "amem (isr_stub num s) (F + of_nat k) = amem s (F + of_nat k)" if "k < 120 \<or> 136 \<le> k" "k < 2 ^ 64"
    using that by (intro byte) (auto split: if_splits)
  show "load64 (amem (isr_stub num s)) (F + of_nat 128) = (if has_error_code num then load64 (amem s) (F + of_nat 128) else 0)"
  proof (cases "has_error_code num")
    case True
    have "load64 (amem (isr_stub num s)) (F + of_nat 128) = load64 (amem s) (F + of_nat 128)"
      using True by (intro load_offset_cong byte) simp_all
    with True show ?thesis by simp
  next
    case False
    then show ?thesis using w [of 0] by simp
  qed
qed

lemma isr_frame:
  assumes d: "delivered s0 num code s" and F: "F = frame_base num s"
  shows "read_trap_frame (amem (isr num s)) F = frame_of s0 num code" and "gpr (isr num s) RDI = F" and "gpr (isr num s) RSP = F"
    and "k < 2 ^ 64 \<Longrightarrow> 136 \<le> k \<Longrightarrow> amem (isr num s) (F + of_nat k) = amem s (F + of_nat k)"
proof -
  define s1 where "s1 = isr_stub num s"
  define t where "t = fold push_reg saved_regs s1"
  let ?vs = "map (gpr s1) saved_regs"
  note S = isr_stub_words [OF F, folded s1_def]
  have r: "RSP \<notin> set saved_regs" by (simp add: saved_regs_def)
  have "pushed F 15 ?vs s1 t" unfolding t_def fold_push_reg [OF r] using S(1) by (intro push_run) (simp_all add: saved_regs_def)
  note P = pushedD [OF this]
  have isr: "isr num s = mov RSP RDI t" by (simp add: isr_def isr_common_def s1_def t_def)
  have sp: "gpr t RSP = F" using P(1) by (simp add: saved_regs_def)
  show "gpr (isr num s) RDI = F" "gpr (isr num s) RSP = F" using sp by (simp_all add: isr mov_def)
  have m: "amem (isr num s) = amem t" by (simp add: isr mov_def)
  have byte: "amem t (F + of_nat k) = amem s1 (F + of_nat k)" if "120 \<le> k" "k < 2 ^ 64" for k using that by (intro P(3)) simp_all
  show "amem (isr num s) (F + of_nat k) = amem s (F + of_nat k)" if "k < 2 ^ 64" "136 \<le> k" using that byte S(4) by (simp add: m)
  have "map (\<lambda>k. load64 (amem t) (F + of_nat (8 * k))) [0..<15] = rev ?vs"
  proof (rule nth_equalityI)
    show "length (map (\<lambda>k. load64 (amem t) (F + of_nat (8 * k))) [0..<15]) = length (rev ?vs)" by (simp add: saved_regs_def)
    fix i assume i: "i < length (map (\<lambda>k. load64 (amem t) (F + of_nat (8 * k))) [0..<15])"
    have len: "length ?vs = 15" by (simp add: saved_regs_def)
    have "load64 (amem t) (F + of_nat (8 * (15 - 1 - (14 - i)))) = ?vs ! (14 - i)" by (rule P(2), unfold len, simp)
    moreover have "15 - 1 - (14 - i) = i" using i by simp
    ultimately show "map (\<lambda>k. load64 (amem t) (F + of_nat (8 * k))) [0..<15] ! i = rev ?vs ! i" using i len by (simp add: rev_nth)
  qed
  then have low: "load64 (amem t) F = gpr s0 R15" "load64 (amem t) (F + 8) = gpr s0 R14" "load64 (amem t) (F + 16) = gpr s0 R13"
    "load64 (amem t) (F + 24) = gpr s0 R12" "load64 (amem t) (F + 32) = gpr s0 R11" "load64 (amem t) (F + 40) = gpr s0 R10"
    "load64 (amem t) (F + 48) = gpr s0 R9" "load64 (amem t) (F + 56) = gpr s0 R8" "load64 (amem t) (F + 64) = gpr s0 RAX"
    "load64 (amem t) (F + 72) = gpr s0 RBX" "load64 (amem t) (F + 80) = gpr s0 RCX" "load64 (amem t) (F + 88) = gpr s0 RDX"
    "load64 (amem t) (F + 96) = gpr s0 RSI" "load64 (amem t) (F + 104) = gpr s0 RDI" "load64 (amem t) (F + 112) = gpr s0 RBP"
    using d S(1) by (simp_all add: saved_regs_def upt_rec delivered_def Let_def)
  have same1: "load64 (amem t) (F + of_nat k) = load64 (amem s1) (F + of_nat k)" if "120 \<le> k" "k < 1000" for k
    using that by (intro load_offset_cong byte) auto
  have same: "load64 (amem s1) (F + of_nat k) = load64 (amem s) (F + of_nat k)" if "136 \<le> k" "k < 1000" for k
    using that by (intro load_offset_cong S(4)) auto
  have "load64 (amem t) (F + 120) = of_nat num" "load64 (amem t) (F + 128) = (if has_error_code num then code else 0)"
    "load64 (amem t) (F + 136) = rip s0" "load64 (amem t) (F + 144) = ucast (asm_cs s0)" "load64 (amem t) (F + 152) = asm_rflags s0"
    "load64 (amem t) (F + 160) = gpr s0 RSP" "load64 (amem t) (F + 168) = ucast (asm_ss s0)"
    using same1 [of 120] same1 [of 128] same1 [of 136] same1 [of 144] same1 [of 152] same1 [of 160] same1 [of 168]
      same [of 136] same [of 144] same [of 152] same [of 160] same [of 168] S(2,3) d
    by (simp_all add: delivered_def F Let_def)
  with low show "read_trap_frame (amem (isr num s)) F = frame_of s0 num code" by (simp add: m read_trap_frame_def frame_of_def)
qed

lemma exit_frame:
  assumes F: "gpr u RDI = F" and fr: "read_trap_frame (amem u) F = frame_of s0 num code"
  shows "exit_interrupt_service u = s0\<lparr>amem := amem u\<rparr>"
proof -
  let ?rs = "[R15, R14, R13, R12, R11, R10, R9, R8, RAX, RBX, RCX, RDX, RSI, RDI, RBP]"
  define v where "v = fold pop ?rs (mov RDI RSP u)"
  have "RSP \<notin> set ?rs" "distinct ?rs" by simp_all
  note P = pop_run [OF this, where s = "mov RDI RSP u", folded v_def]
  have sp: "gpr v RSP = F + 120" using P(1) F by (simp add: mov_def)
  have m: "amem v = amem u" using P(4) by (metis asm.select_convs(6) asm.surjective asm.update_convs(1) mov_def)
  have "map (gpr v) ?rs = map (\<lambda>i. load64 (amem u) (F + of_nat (8 * i))) [0..<15]"
  proof (rule nth_equalityI)
    fix i assume "i < length (map (gpr v) ?rs)"
    then show "map (gpr v) ?rs ! i = map (\<lambda>i. load64 (amem u) (F + of_nat (8 * i))) [0..<15] ! i"
      using P(3) [of i] F by (simp add: mov_def del: list.map)
  qed simp
  then have "gpr v r = gpr s0 r" if "r \<noteq> RSP" for r
    using fr that by (cases r) (simp_all add: upt_rec read_trap_frame_def frame_of_def)
  moreover have "load64 (amem u) (F + 136) = rip s0" "load64 (amem u) (F + 144) = ucast (asm_cs s0)" "load64 (amem u) (F + 152) = asm_rflags s0"
    "load64 (amem u) (F + 160) = gpr s0 RSP" "load64 (amem u) (F + 168) = ucast (asm_ss s0)"
    using fr by (simp_all add: read_trap_frame_def frame_of_def)
  moreover have "ucast (ucast w :: u64) = w" for w :: u16 by (rule bit_word_eqI) (simp add: bit_simps)
  ultimately show ?thesis
    unfolding exit_interrupt_service_def v_def [symmetric]
    by (intro asm.equality) (auto simp: iretq_def add_imm_def Let_def sp m ac_simps fun_eq_iff)
qed

section \<open>Properties of asm.S\<close>

text \<open>C21. Entering and leaving an interrupt: from the state the processor delivers for vector \<open>num\<close>, the stub calls \<open>interrupt_service\<close> with a pointer to
  a \<open>struct trap_frame\<close> that holds every register of the interrupted code, the vector and the error code (0 where the processor gives none), and
  writes nothing outside that frame's first 136 bytes. Whatever the C code does in between, as long as the frame is kept,
  \<open>exit_interrupt_service\<close> resumes the interrupted code with all its registers, flags, selectors and its stack pointer.\<close>

theorem interrupt_frame_roundtrip:
  assumes "delivered s0 num code s" and "F = gpr (isr num s) RDI"
  shows "read_trap_frame (amem (isr num s)) F = frame_of s0 num code \<and>
    (\<forall>x. 136 \<le> unat (x - F) \<longrightarrow> amem (isr num s) x = amem s x) \<and>
    (\<forall>u. gpr u RDI = F \<and> read_trap_frame (amem u) F = frame_of s0 num code \<longrightarrow> exit_interrupt_service u = s0\<lparr>amem := amem u\<rparr>)"
proof (intro conjI allI impI)
  note f = isr_frame [OF assms(1) refl]
  have F: "F = frame_base num s" using f(2) assms(2) by simp
  show "read_trap_frame (amem (isr num s)) F = frame_of s0 num code" unfolding F by (rule f(1))
  show "amem (isr num s) x = amem s x" if "136 \<le> unat (x - F)" for x
    using f(4) [of "unat (x - F)"] that unsigned_less [where 'a = nat and w = "x - F"] unfolding F by simp
  show "exit_interrupt_service u = s0\<lparr>amem := amem u\<rparr>" if "gpr u RDI = F \<and> read_trap_frame (amem u) F = frame_of s0 num code" for u
    using exit_frame that by blast
qed

text \<open>A page fault at \<open>0x1234\<close> with error code 2 and an empty stack page at \<open>0x8000\<close>.\<close>

definition demo_fault :: asm where
  "demo_fault = \<lparr>gpr = (\<lambda>r. if r = RSP then 0x7FD0 else 5), rip = 0, asm_cs = 8, asm_ss = 16, asm_rflags = 2,
     amem = store64 (store64 (store64 (store64 (store64 (store64 (\<lambda>_. 0) 0x7FD0 2) 0x7FD8 0x1234) 0x7FE0 8) 0x7FE8 0x202) 0x7FF0 0x9000) 0x7FF8 16\<rparr>"

theorem interrupt_frame_roundtrip_witness:
  "\<exists>F. frame_vector (amem (isr 14 demo_fault)) F = 14 \<and> rip (exit_interrupt_service ((isr 14 demo_fault)\<lparr>rip := 0\<rparr>)) = 0x1234 \<and>
    gpr (exit_interrupt_service (isr 14 demo_fault)) RSP = 0x9000"
proof -
  define s0 where "s0 = demo_fault\<lparr>gpr := (gpr demo_fault)(RSP := 0x9000), rip := 0x1234, asm_rflags := 0x202\<rparr>"
  have c: "has_error_code 14" by (simp add: has_error_code_def)
  have "delivered s0 14 2 demo_fault"
    by (simp add: delivered_def frame_base_def c s0_def demo_fault_def m64.load_store_same m64.load_store_apart apart_def)
  from interrupt_frame_roundtrip [OF this refl] have
    r: "read_trap_frame (amem (isr 14 demo_fault)) (gpr (isr 14 demo_fault) RDI) = frame_of s0 14 2"
    "exit_interrupt_service u = s0\<lparr>amem := amem u\<rparr>"
    if "gpr u RDI = gpr (isr 14 demo_fault) RDI \<and> amem u = amem (isr 14 demo_fault)" for u using that by auto
  have "frame_vector (amem (isr 14 demo_fault)) (gpr (isr 14 demo_fault) RDI) = 14"
    using r(1) [of "isr 14 demo_fault"] by (simp add: frame_vector_def frame_of_def)
  then show ?thesis
    using r(2) [of "(isr 14 demo_fault)\<lparr>rip := 0\<rparr>"] r(2) [of "isr 14 demo_fault"] by (auto simp: s0_def)
qed

end
