(* ===== verification/Context.thy ===== *)
theory Context
  imports Asm
begin

text \<open>
  The context switch of \<open>kernel/context.S\<close>: \<open>swap_context(current, next)\<close> stores the registers a callee must keep in the structure at
  \<open>current\<close> and loads them from the one at \<open>next\<close>, so that its \<open>ret\<close> returns to where \<open>next\<close> once called it.
\<close>

record kcontext =
  ctx_rbx :: u64
  ctx_r12 :: u64
  ctx_r13 :: u64
  ctx_r14 :: u64
  ctx_r15 :: u64
  ctx_rsp :: u64
  ctx_rbp :: u64

definition read_context :: "mem \<Rightarrow> u64 \<Rightarrow> kcontext" where
  "read_context m a = \<lparr>ctx_rbx = load64 m a, ctx_r12 = load64 m (a + 8), ctx_r13 = load64 m (a + 16), ctx_r14 = load64 m (a + 24),
     ctx_r15 = load64 m (a + 32), ctx_rsp = load64 m (a + 40), ctx_rbp = load64 m (a + 48)\<rparr>"

definition save_context :: "asm \<Rightarrow> asm" where
  "save_context s = mov_store RBP 48 RDI (mov_store RSP 40 RDI (mov_store R15 32 RDI (mov_store R14 24 RDI
     (mov_store R13 16 RDI (mov_store R12 8 RDI (mov_store RBX 0 RDI s))))))"

definition restore_context :: "asm \<Rightarrow> asm" where
  "restore_context s = mov_load 48 RSI RBP (mov_load 40 RSI RSP (mov_load 32 RSI R15 (mov_load 24 RSI R14
     (mov_load 16 RSI R13 (mov_load 8 RSI R12 (mov_load 0 RSI RBX s))))))"

definition swap_context :: "asm \<Rightarrow> asm" where
  "swap_context s = ret (mov RDI RAX (restore_context (save_context s)))"

section \<open>What is saved and restored\<close>

definition callee_saved :: "asm \<Rightarrow> kcontext" where
  "callee_saved s = \<lparr>ctx_rbx = gpr s RBX, ctx_r12 = gpr s R12, ctx_r13 = gpr s R13, ctx_r14 = gpr s R14, ctx_r15 = gpr s R15,
     ctx_rsp = gpr s RSP, ctx_rbp = gpr s RBP\<rparr>"

definition store_context :: "mem \<Rightarrow> u64 \<Rightarrow> kcontext \<Rightarrow> mem" where
  "store_context m a c = store64 (store64 (store64 (store64 (store64 (store64 (store64 m (a + 0) (ctx_rbx c)) (a + 8) (ctx_r12 c))
     (a + 16) (ctx_r13 c)) (a + 24) (ctx_r14 c)) (a + 32) (ctx_r15 c)) (a + 40) (ctx_rsp c)) (a + 48) (ctx_rbp c)"

lemma save_context_eq: "save_context s = s\<lparr>amem := store_context (amem s) (gpr s RDI) (callee_saved s)\<rparr>"
  by (simp add: save_context_def mov_store_def store_context_def callee_saved_def)

lemma store_context_byte:
  assumes "56 \<le> unat (x - a)"
  shows "store_context m a c x = m x"
proof -
  define k where "k = unat (x - a)"
  have x: "x = a + of_nat k" "k < 2 ^ 64" using unsigned_less [where 'a = nat and w = "x - a"] by (simp_all add: k_def)
  have b: "store64 n (a + of_nat i) v x = n x" if "i \<le> 48" for n i v
    unfolding x(1) using assms x(2) that by (intro store_offset_byte) (simp_all add: k_def)
  show ?thesis
    unfolding store_context_def using b [of 0] b [of 8] b [of 16] b [of 24] b [of 32] b [of 40] b [of 48] by simp
qed

lemma read_store_context: "read_context (store_context m a c) a = c"
proof -
  have e: "store_context m a c = store64 (store64 (store64 (store64 (store64 (store64 (store64 m (a + of_nat 0) (ctx_rbx c)) (a + of_nat 8) (ctx_r12 c))
     (a + of_nat 16) (ctx_r13 c)) (a + of_nat 24) (ctx_r14 c)) (a + of_nat 32) (ctx_r15 c)) (a + of_nat 40) (ctx_rsp c)) (a + of_nat 48) (ctx_rbp c)"
    by (simp add: store_context_def)
  have r: "read_context n a = \<lparr>ctx_rbx = load64 n (a + of_nat 0), ctx_r12 = load64 n (a + of_nat 8), ctx_r13 = load64 n (a + of_nat 16),
     ctx_r14 = load64 n (a + of_nat 24), ctx_r15 = load64 n (a + of_nat 32), ctx_rsp = load64 n (a + of_nat 40), ctx_rbp = load64 n (a + of_nat 48)\<rparr>" for n
    by (simp add: read_context_def)
  have z: "load64 (store64 n (a + of_nat i) v) a = load64 n a" if "8 \<le> i" "i < 8192" for n i v
    using load_store_offset [of i 0 n a v] that by simp
  show ?thesis unfolding r e by (simp add: load_store_offset m64.load_store_same z del: of_nat_numeral)
qed

lemma read_context_cong:
  assumes "\<And>x. unat (x - a) < 56 \<Longrightarrow> m x = m' x"
  shows "read_context m a = read_context m' a"
proof -
  have "load64 m (a + of_nat i) = load64 m' (a + of_nat i)" if "i \<le> 48" for i
  proof (rule load_offset_cong)
    fix j :: nat assume "j < 8"
    then have "unat (a + of_nat (i + j) - a) < 56" using that by (simp add: unat_of_nat_small del: of_nat_add)
    then show "m (a + of_nat (i + j)) = m' (a + of_nat (i + j))" by (rule assms)
  qed
  from this [of 0] this [of 8] this [of 16] this [of 24] this [of 32] this [of 40] this [of 48]
  show ?thesis by (simp add: read_context_def)
qed

text \<open>The whole switch: memory, and the state of the next context.\<close>

lemma swap_context_eq:
  assumes "m = store_context (amem s) (gpr s RDI) (callee_saved s)" and "c = read_context m (gpr s RSI)"
  shows "swap_context s = s\<lparr>amem := m, rip := load64 m (ctx_rsp c),
    gpr := (gpr s)(RBX := ctx_rbx c, R12 := ctx_r12 c, R13 := ctx_r13 c, R14 := ctx_r14 c, R15 := ctx_r15 c, RBP := ctx_rbp c,
      RAX := gpr s RDI, RSP := ctx_rsp c + 8)\<rparr>"
  unfolding swap_context_def save_context_eq assms(1) [symmetric]
  by (simp add: restore_context_def mov_load_def mov_def ret_def assms(2) read_context_def fun_upd_twist)

section \<open>Properties of context.S\<close>

text \<open>C22. Switching away and back: \<open>swap_context\<close> called in state \<open>s\<close> stores the callee-saved registers in the context at \<open>current\<close> and writes no byte
  beside it. When, later, code in any state \<open>u\<close> switches to that context, with the context and the return address on the old stack as they were
  left (and its own context elsewhere), the first call returns to its caller: instruction pointer, stack pointer and every callee-saved
  register are as after an ordinary return, and its result is the context that was left last.\<close>

theorem swap_context_roundtrip:
  assumes "read_context (amem u) (gpr s RDI) = read_context (amem (swap_context s)) (gpr s RDI)" and "gpr u RSI = gpr s RDI"
    and "load64 (amem u) (gpr s RSP) = ret_addr"
    and "\<forall>x. unat (x - gpr s RDI) < 56 \<or> unat (x - gpr s RSP) < 8 \<longrightarrow> 56 \<le> unat (x - gpr u RDI)"
  shows "read_context (amem (swap_context s)) (gpr s RDI) = callee_saved s \<and>
    (\<forall>x. 56 \<le> unat (x - gpr s RDI) \<longrightarrow> amem (swap_context s) x = amem s x) \<and>
    rip (swap_context u) = ret_addr \<and> gpr (swap_context u) RAX = gpr u RDI \<and>
    callee_saved (swap_context u) = (callee_saved s)\<lparr>ctx_rsp := gpr s RSP + 8\<rparr>"
proof -
  have m: "amem (swap_context s) = store_context (amem s) (gpr s RDI) (callee_saved s)"
    by (simp add: swap_context_eq [OF refl refl])
  then have saved: "read_context (amem (swap_context s)) (gpr s RDI) = callee_saved s" by (simp add: read_store_context)
  let ?mu = "store_context (amem u) (gpr u RDI) (callee_saved u)"
  have "read_context ?mu (gpr s RDI) = read_context (amem u) (gpr s RDI)"
    using assms(4) by (intro read_context_cong store_context_byte) blast
  then have c: "read_context ?mu (gpr u RSI) = callee_saved s" using assms(1,2) saved by simp
  have "load64 ?mu (gpr s RSP) = load64 (amem u) (gpr s RSP)"
    using assms(4) by (intro load_word_eqI store_context_byte) auto
  then have "load64 ?mu (ctx_rsp (callee_saved s)) = ret_addr" using assms(3) by (simp add: callee_saved_def)
  then show ?thesis
    using saved m store_context_byte unfolding swap_context_eq [of _ u, OF refl c [symmetric]] by (simp add: callee_saved_def)
qed

text \<open>The first context at \<open>0x1000\<close> with its stack at \<open>0x2000\<close>, the second at \<open>0x3000\<close> with its stack at \<open>0x4000\<close>.\<close>

definition demo_context :: asm where
  "demo_context = \<lparr>gpr = (\<lambda>r. if r = RDI then 0x1000 else if r = RSI then 0x3000 else if r = RSP then 0x2000 else if r = RBX then 7 else 0),
     rip = 0, asm_cs = 8, asm_ss = 16, asm_rflags = 2,
     amem = store64 (store64 (store64 (\<lambda>_. 0) 0x2000 0xAAAA) 0x3028 0x4000) 0x4000 0xBBBB\<rparr>"

theorem swap_context_roundtrip_witness:
  "\<exists>u. gpr u RDI = 0x3000 \<and> gpr u RBX = 99 \<and> rip (swap_context u) = 0xAAAA \<and> gpr (swap_context u) RSP = 0x2008 \<and>
    gpr (swap_context u) RBX = 7 \<and> gpr (swap_context u) RAX = 0x3000"
proof -
  define u where "u = (swap_context demo_context)\<lparr>gpr := (\<lambda>_. 99)(RDI := 0x3000, RSI := 0x1000)\<rparr>"
  have g: "gpr demo_context RDI = 0x1000" "gpr demo_context RSP = 0x2000" "gpr u RDI = 0x3000" "gpr u RSI = 0x1000" "gpr u RBX = 99"
    "amem u = amem (swap_context demo_context)" by (simp_all add: demo_context_def u_def)
  have far: "56 \<le> unat (x - b)" if "unat (x - a) < n" "a < 0x10000" "b < 0x10000" "unat a + n \<le> unat b \<or> unat b + 56 \<le> unat a" "n < 100" for x a b :: u64 and n
  proof -
    have "x = a + of_nat (unat (x - a))" by simp
    then have e: "x - b = (0 + of_nat (unat a + unat (x - a))) - (0 + of_nat (unat b))" by (simp add: algebra_simps)
    have "unat a < 0x10000" "unat b < 0x10000" using that(2,3) by (simp_all add: word_less_nat_alt)
    then show ?thesis unfolding e using that(1,4,5) by (subst unat_offset_diff) auto
  qed
  have "amem (swap_context demo_context) = store_context (amem demo_context) 0x1000 (callee_saved demo_context)"
    using swap_context_eq [OF refl refl, of demo_context] by (simp add: g)
  then have "load64 (amem u) 0x2000 = load64 (amem demo_context) 0x2000"
    unfolding g(6) by (intro load_word_eqI) (auto intro!: store_context_byte far [where n = 8])
  also have "\<dots> = 0xAAAA" by (simp add: demo_context_def m64.load_store_same m64.load_store_apart apart_def)
  finally have r: "load64 (amem u) (gpr demo_context RSP) = 0xAAAA" by (simp add: g)
  have "56 \<le> unat (x - gpr u RDI)" if "unat (x - gpr demo_context RDI) < 56 \<or> unat (x - gpr demo_context RSP) < 8" for x
    using that far [of x "0x1000" 56 "0x3000"] far [of x "0x2000" 8 "0x3000"] by (auto simp: g)
  with swap_context_roundtrip [of u demo_context, OF _ _ r] have
    "rip (swap_context u) = 0xAAAA" "gpr (swap_context u) RAX = gpr u RDI"
    "callee_saved (swap_context u) = (callee_saved demo_context)\<lparr>ctx_rsp := gpr demo_context RSP + 8\<rparr>" by (simp_all add: g)
  then show ?thesis using g by (intro exI [of _ u]) (simp add: callee_saved_def demo_context_def)
qed

end
