(* ===== verification/Snprintf_Spec.thy ===== *)
theory Snprintf_Spec
  imports Snprintf
begin

text \<open>
  Correctness of the formatter: the digits \<open>print_number\<close> produces are the positional notation of
  the number, the in-place reversal is list reversal, the temporary buffer never overflows, and
  \<open>vsnprintf\<close> agrees with a reference rendering \<open>render\<close> that has no buffer at all whenever there
  is room for it, never writes outside the buffer, and always terminates the string.
\<close>

section \<open>Digits\<close>

text \<open>Positional notation, most significant digit first, and its value.\<close>

function ref_digits :: "string \<Rightarrow> nat \<Rightarrow> nat \<Rightarrow> string" where
  "ref_digits ds b n = (if n < b \<or> b < 2 then [ds ! n] else ref_digits ds b (n div b) @ [ds ! (n mod b)])"
  by pat_completeness auto
termination
  by (relation "measure (\<lambda>(ds, b, n). n)") auto

declare ref_digits.simps [simp del]

lemma unat_mod_base: "unat (n mod number_base flags) = unat n mod unat (number_base flags)"
  by (simp add: unat_mod)

lemma unat_div_base: "unat (n div number_base flags) = unat n div unat (number_base flags)"
  by (simp add: unat_div)

lemma unat_number_base: "unat (number_base flags) \<in> {2, 8, 10, 16}"
  using number_base_cases [of flags] by auto

lemma digit_loop_ref:
  "n \<noteq> 0 \<Longrightarrow> rev (digit_loop flags n) = ref_digits (number_digits flags) (unat (number_base flags)) (unat n)"
proof (induction flags n rule: digit_loop.induct)
  case (1 flags n)
  have b: "2 \<le> unat (number_base flags)"
    using unat_number_base [of flags] by auto
  show ?case
  proof (cases "n div number_base flags = 0")
    case True
    then have "unat n < unat (number_base flags)"
      using b by (metis div_eq_0_iff le_zero_eq not_numeral_le_zero unat_div_base unat_0)
    then show ?thesis
      using 1 True
      by (subst digit_loop.simps) (simp add: unat_mod_base ref_digits.simps [of _ _ "unat n"] digit_loop.simps [of _ 0])
  next
    case False
    then have "\<not> unat n < unat (number_base flags)"
      by (metis div_less unat_div_base unat_eq_0)
    then show ?thesis
      using 1 False b
      by (subst digit_loop.simps)
        (simp add: unat_mod_base unat_div_base ref_digits.simps [of _ _ "unat n"])
  qed
qed

lemma number_tmp_ref:
  "rev (number_tmp flags n) = ref_digits (number_digits flags) (unat (number_base flags)) (unat n)"
proof (cases "n = 0")
  case True
  have "0 < unat (number_base flags)"
    using unat_number_base [of flags] by auto
  moreover have "number_digits flags ! 0 = CHR ''0''"
    by (simp add: number_digits_def)
  ultimately show ?thesis
    using True by (simp add: number_tmp_def ref_digits.simps)
qed (simp add: number_tmp_def digit_loop_ref)

lemma length_digit_loop: "unat n < 2 ^ k \<Longrightarrow> length (digit_loop flags n) \<le> k"
proof (induction k arbitrary: n)
  case 0
  then have "n = 0" by (simp add: unat_eq_0)
  then show ?case by (simp add: digit_loop.simps)
next
  case (Suc k)
  have "2 \<le> unat (number_base flags)"
    using unat_number_base [of flags] by auto
  then have "unat n div unat (number_base flags) \<le> unat n div 2"
    by (intro div_le_mono2) simp_all
  then have "unat (n div number_base flags) < 2 ^ k"
    using Suc.prems by (simp add: unat_div_base)
  from Suc.IH [OF this] show ?case
    by (subst digit_loop.simps) simp
qed

lemma length_number_tmp: "length (number_tmp flags n) \<le> 64" "0 < length (number_tmp flags n)"
  using length_digit_loop [of n 64 flags] unsigned_less [where 'a = nat and w = n]
  by (auto simp: number_tmp_def digit_loop.simps [of flags n])

section \<open>Reversal\<close>

lemma rev_loop_nth:
  assumes "t < length xs"
  shows "length (rev_loop h t xs) = length xs \<and>
    (\<forall>i < length xs. rev_loop h t xs ! i = (if h \<le> i \<and> i \<le> t then xs ! (h + t - i) else xs ! i))"
  using assms
proof (induction h t xs rule: rev_loop.induct)
  case (1 h t xs)
  show ?case
  proof (cases "h < t")
    case True
    let ?ys = "xs[h := xs ! t, t := xs ! h]"
    have IH: "length (rev_loop (h + 1) (t - 1) ?ys) = length ?ys \<and>
      (\<forall>i < length ?ys. rev_loop (h + 1) (t - 1) ?ys ! i =
         (if h + 1 \<le> i \<and> i \<le> t - 1 then ?ys ! (h + 1 + (t - 1) - i) else ?ys ! i))"
      using 1 True by simp
    have "rev_loop h t xs ! i = (if h \<le> i \<and> i \<le> t then xs ! (h + t - i) else xs ! i)"
      if "i < length xs" for i
    proof -
      consider "i = h" | "i = t" | "h < i" "i < t" | "i < h \<or> t < i" by linarith
      then show ?thesis
        using IH that True 1 by cases (auto simp: rev_loop.simps [of h t] nth_list_update)
    qed
    then show ?thesis
      using IH True by (simp add: rev_loop.simps [of h t])
  next
    case False
    then have "h + t - i = i" if "h \<le> i" "i \<le> t" for i using that by simp
    with False show ?thesis by (auto simp: rev_loop.simps [of h t])
  qed
qed

lemma rev_loop_rev: "xs \<noteq> [] \<Longrightarrow> rev_loop 0 (length xs - 1) xs = rev xs"
  using rev_loop_nth [of "length xs - 1" xs 0]
  by (intro nth_equalityI) (auto simp: rev_nth)

section \<open>Writing\<close>

lemma put_append: "put (s @ t) p out = put t (p + int (length s)) (put s p out)"
  by (induction s arbitrary: p out) (auto simp: algebra_simps)

lemma put_apply: "put s p out i = (if p \<le> i \<and> i < p + int (length s) then s ! nat (i - p) else out i)"
proof (induction s arbitrary: p out)
  case (Cons c cs)
  have "nat (i - p) = Suc (nat (i - (p + 1)))" if "p < i" using that by simp
  with Cons show ?case by (cases "i = p") auto
qed auto

lemma put_upd_start:
  "(put s p (out(p := x)))(p + int (length s) := y) = (put s p out)(p + int (length s) := y)"
  by (auto simp: put_apply fun_eq_iff)

section \<open>Numbers\<close>

text \<open>
  The text of a number: its digits in the base the flags select, a minus sign, and padding to
  the width: blanks on the right when left-aligned, else zeros after the sign or blanks before it.
\<close>

definition number_field :: "u32 \<Rightarrow> u32 \<Rightarrow> bool \<Rightarrow> string \<Rightarrow> string" where
  "number_field flags width negative digs =
     (let sign = (if negative then ''-'' else []);
          pad = unat width - length (sign @ digs)
      in if flags AND LEFTALIGN \<noteq> 0 then sign @ digs @ replicate pad (CHR '' '')
         else if flags AND ZEROPAD \<noteq> 0 then sign @ replicate pad (CHR ''0'') @ digs
         else replicate pad (CHR '' '') @ sign @ digs)"

definition number_text :: "u64 \<Rightarrow> u64 \<Rightarrow> u32 \<Rightarrow> u32 \<Rightarrow> string" where
  "number_text unumber snumber flags width =
     (let is_signed = (flags AND SIGN \<noteq> 0)
      in number_field flags width (is_signed \<and> sint snumber < 0)
           (ref_digits (number_digits flags) (unat (number_base flags))
              (if is_signed then nat \<bar>sint snumber\<bar> else unat unumber)))"

lemma length_number_field:
  "length (number_field flags width negative digs) = max (unat width) (length digs + (if negative then 1 else 0))"
  by (auto simp: number_field_def Let_def max_def)

lemma unat_of_sint:
  assumes "0 \<le> k" and "k < 2 ^ LENGTH('a)"
  shows "unat (of_int k :: 'a::len word) = nat k"
  using assms by (simp add: unat_eq_nat_uint uint_word_of_int take_bit_int_eq_self)

lemma magnitude:
  "unat (if sint s < 0 then NOT s + 1 else s) = nat \<bar>sint (s :: u64)\<bar>"
proof -
  have b: "- (2 ^ 63) \<le> sint s" "sint s < 2 ^ 63"
    using sint_greater_eq [of s] sint_less [of s] by simp_all
  have neg: "NOT s + 1 = of_int (- sint s)"
    by (simp add: minus_eq_not_plus_1 [symmetric])
  have pos: "s = of_int (sint s)" by simp
  show ?thesis
  proof (cases "sint s < 0")
    case True
    have "unat (of_int (- sint s) :: u64) = nat (- sint s)"
      by (rule unat_of_sint) (use True b in simp_all)
    with True show ?thesis by (simp add: neg)
  next
    case False
    have "unat (of_int (sint s) :: u64) = nat (sint s)"
      by (rule unat_of_sint) (use False b in simp_all)
    with False show ?thesis by simp
  qed
qed

lemma pad_word:
  fixes width total :: u32
  defines "pad \<equiv> if width > total then width - total else 0"
  shows unat_pad: "unat pad = unat width - unat total"
    and unat_pad_total: "unat (pad + total) = max (unat width) (unat total)"
  by (auto simp: pad_def unat_sub word_less_nat_alt max_def not_less word_le_nat_alt)

lemma unat_pad_total_Suc:
  fixes width total :: u32
  assumes "width \<noteq> - 1" and "unat total < 100"
  shows "unat ((if width > total then width - total else 0) + total + 1) = max (unat width) (unat total) + 1"
proof -
  have "unat width \<noteq> unat (- 1 :: u32)"
    using assms(1) by (simp only: word_unat_eq_iff) simp
  moreover have "unat (- 1 :: u32) = 2 ^ 32 - 1"
    by (simp add: unat_eq_nat_uint uint_word_ariths zmod_zminus1_eq_if)
  ultimately have "unat width < 2 ^ 32 - 1"
    using unsigned_less [where 'a = nat and w = width] by simp
  with assms(2) unat_pad_total [of total width] show ?thesis
    by (subst unat_add_nowrap) auto
qed

text \<open>
  \<open>print_number\<close> writes the whole text and a NUL when both fit, and otherwise only advances:
  for every width but the largest, whose bound check wraps to zero.
\<close>

lemma print_number_eq:
  assumes "width \<noteq> - 1"
  shows "print_number u s flags width b limit out =
    (let str = number_text u s flags width; b' = b + int (length str)
     in (b', if b' < limit then (put str b out)(b' := NUL) else out))"
proof -
  define neg where "neg \<longleftrightarrow> flags AND SIGN \<noteq> 0 \<and> sint s < 0"
  define un where "un = (if flags AND SIGN \<noteq> 0 then if sint s < 0 then NOT s + 1 else s else u)"
  define tmp where "tmp = number_tmp flags un"
  define total where "total = (of_nat (length tmp) + (if neg then 1 else 0) :: u32)"
  define pad where "pad = (if width > total then width - total else 0)"
  have un: "unat un = (if flags AND SIGN \<noteq> 0 then nat \<bar>sint s\<bar> else unat u)"
    using magnitude [of s] by (auto simp: un_def)
  have textf: "number_text u s flags width = number_field flags width neg (rev tmp)"
    by (simp add: number_text_def Let_def tmp_def number_tmp_ref un neg_def)
  have len: "length tmp \<le> 64" "0 < length tmp"
    unfolding tmp_def by (rule length_number_tmp)+
  have ulen: "unat (of_nat (length tmp) :: u32) = length tmp"
    using len by (simp add: unat_of_nat)
  have utot: "unat total = length tmp + (if neg then 1 else 0)"
    using len ulen by (auto simp: total_def unat_add_nowrap)
  have upad: "unat pad = unat width - unat total"
    by (simp add: pad_def unat_pad)
  define L where "L = max (unat width) (length tmp + (if neg then 1 else 0))"
  have L: "length (number_field flags width neg (rev tmp)) = L"
    by (simp add: L_def length_number_field)
  have fit: "unat (pad + total + 1) = L + 1"
    using unat_pad_total_Suc [OF assms, of total] utot len by (simp add: L_def pad_def)
  have adv: "unat (pad + of_nat (length tmp) + (if neg then 1 else 0)) = L"
  proof -
    have "pad + of_nat (length tmp) + (if neg then 1 else 0) = pad + total"
      by (simp add: total_def)
    then show ?thesis
      unfolding L_def pad_def utot [symmetric] by (simp only: unat_pad_total)
  qed
  have rv: "rev_loop 0 (length tmp - 1) tmp = rev tmp"
    using len by (intro rev_loop_rev) auto
  have lay: "number_layout flags neg pad (take (unat (of_nat (length tmp) :: u32)) (rev tmp))
      = number_field flags width neg (rev tmp)"
    by (simp add: number_layout_def number_field_def Let_def upad utot ulen)
  have cond: "b < limit \<and> int (unat (pad + total + 1)) \<le> limit - b \<longleftrightarrow> b + int L < limit"
    using fit by auto
  show ?thesis
    unfolding print_number_def neg_def [symmetric] un_def [symmetric] tmp_def [symmetric] Let_def
      total_def [symmetric] pad_def [symmetric] rv textf lay cond adv L
    by simp
qed

section \<open>Reference rendering\<close>

text \<open>
  \<open>render\<close> is the text of a format with its arguments, with no buffer and no bound. It shares
  only the parser of directives with the code.
\<close>

definition numeric_text ::
  "(u64 \<Rightarrow> string) \<Rightarrow> length_mod \<Rightarrow> va list \<Rightarrow> (string \<times> va list) res" where
  "numeric_text f len args = rbind (va_number len args) (\<lambda>(w, args'). Inr (f w, args'))"

definition directive_text ::
  "char \<Rightarrow> length_mod \<Rightarrow> u32 \<Rightarrow> u32 \<Rightarrow> va list \<Rightarrow> (string \<times> va list) res" where
  "directive_text c len flags width args =
     (if c = CHR ''s'' then rbind (va_string args) (\<lambda>(str, args'). Inr (takeWhile (\<lambda>x. x \<noteq> NUL) str, args'))
      else if c = CHR ''c'' then rbind (va_char args) (\<lambda>(ch, args'). Inr ([ch], args'))
      else if c = CHR ''d'' then numeric_text (\<lambda>w. number_text 0 w (flags OR SIGN) width) len args
      else if c = CHR ''u'' then numeric_text (\<lambda>w. number_text w 0 flags width) len args
      else if c = CHR ''x'' then numeric_text (\<lambda>w. number_text w 0 ((flags OR LOWERCASE) OR HEX) width) len args
      else if c = CHR ''X'' then numeric_text (\<lambda>w. number_text w 0 (flags OR HEX) width) len args
      else if c = CHR ''o'' then numeric_text (\<lambda>w. number_text w 0 (flags OR OCTA) width) len args
      else if c = CHR ''b'' then numeric_text (\<lambda>w. number_text w 0 (flags OR BIN) width) len args
      else if c = CHR ''p'' then
        rbind (va_pointer args) (\<lambda>(w, args'). Inr (''0x'' @ number_text w 0 (flags OR HEX) width, args'))
      else if c = CHR ''%'' then Inr (''%'', args)
      else if c = NUL then Inl Fault
      else Inr ([CHR ''%'', c], args))"

function render :: "string \<Rightarrow> va list \<Rightarrow> string res" where
  "render fmt args =
     (if cur fmt = NUL then Inr []
      else if cur fmt = CHR ''%'' then
        (let (flags, width, len, rest) = parse_directive (tl fmt)
         in rbind (directive_text (cur rest) len flags width args) (\<lambda>(str, args').
              rbind (render (tl rest) args') (\<lambda>str'. Inr (str @ str'))))
      else rbind (render (tl fmt) args) (\<lambda>str'. Inr (cur fmt # str')))"
  by pat_completeness auto
termination
proof (relation "measure (\<lambda>(fmt, _). length fmt)", goal_cases)
  case (2 fmt args x flags y width z len rest)
  then show ?case
    using parse_directive_shorter [of "tl fmt" flags width len rest]
    by (cases fmt) (auto simp: cur_def le_imp_less_Suc less_Suc_eq_le)
qed (auto simp: cur_def split: list.splits)

declare render.simps [simp del]

text \<open>The widths the directives of a format carry.\<close>

function directive_widths :: "string \<Rightarrow> u32 list" where
  "directive_widths fmt =
     (if cur fmt = NUL then []
      else if cur fmt = CHR ''%'' then
        (let (flags, width, len, rest) = parse_directive (tl fmt)
         in width # directive_widths (tl rest))
      else directive_widths (tl fmt))"
  by pat_completeness auto
termination
proof (relation "measure length", goal_cases)
  case (2 fmt x flags y width z len rest)
  then show ?case
    using parse_directive_shorter [of "tl fmt" flags width len rest]
    by (cases fmt) (auto simp: cur_def le_imp_less_Suc less_Suc_eq_le)
qed (auto simp: cur_def split: list.splits)

declare directive_widths.simps [simp del]

section \<open>Directives that fit\<close>

lemma print_string_fits:
  "b + int (length (takeWhile (\<lambda>x. x \<noteq> NUL) s)) < limit \<Longrightarrow>
   print_string s b limit out =
     (b + int (length (takeWhile (\<lambda>x. x \<noteq> NUL) s)), put (takeWhile (\<lambda>x. x \<noteq> NUL) s) b out)"
  by (induction s arbitrary: b out) auto

text \<open>\<open>wrote t b out b' out'\<close>: from \<open>b\<close> to \<open>b'\<close> the text \<open>t\<close> was stored, up to the byte at \<open>b'\<close>.\<close>

definition wrote :: "string \<Rightarrow> int \<Rightarrow> out \<Rightarrow> int \<Rightarrow> out \<Rightarrow> bool" where
  "wrote t b out b' out' \<longleftrightarrow> b' = b + int (length t) \<and> out'(b' := NUL) = (put t b out)(b' := NUL)"

lemma wrote_trans:
  assumes "wrote t b out b1 out1" and "wrote t' b1 out1 b2 out2"
  shows "wrote (t @ t') b out b2 out2"
proof -
  have b: "b1 = b + int (length t)" "b2 = b1 + int (length t')"
    and o: "out1(b1 := NUL) = (put t b out)(b1 := NUL)" "out2(b2 := NUL) = (put t' b1 out1)(b2 := NUL)"
    using assms by (auto simp: wrote_def)
  have "(put t' b1 out1)(b2 := NUL) = (put t' b1 (out1(b1 := NUL)))(b2 := NUL)"
    unfolding b(2) by (rule put_upd_start [symmetric])
  also have "\<dots> = (put t' b1 (put t b out))(b2 := NUL)"
    unfolding o(1) b(2) by (rule put_upd_start)
  finally show ?thesis
    using b o by (simp add: wrote_def put_append)
qed

lemma wrote_put: "wrote t b out (b + int (length t)) (put t b out)"
  by (simp add: wrote_def)

lemma wrote_number:
  assumes "width \<noteq> - 1" and "b + int (length (number_text u s flags width)) < limit"
  shows "\<exists>b' out'. print_number u s flags width b limit out = (b', out') \<and>
    wrote (number_text u s flags width) b out b' out'"
  using assms by (simp add: print_number_eq Let_def wrote_def)

lemma print_numeric_fits:
  assumes "numeric_text f len args = Inr (t, args')" and "width \<noteq> - 1" and "b + int (length t) < limit"
    and "f = (\<lambda>w. if sg then number_text 0 w flags width else number_text w 0 flags width)"
  shows "\<exists>b' out'. print_numeric sg len flags width args b limit out = Inr (b', out', args') \<and> wrote t b out b' out'"
proof -
  obtain w where w: "va_number len args = Inr (w, args')" "t = f w"
    using assms(1) by (auto simp: numeric_text_def)
  obtain b' out' where "(if sg then print_number 0 w flags width b limit out
      else print_number w 0 flags width b limit out) = (b', out')" "wrote t b out b' out'"
    using wrote_number [OF assms(2), of b "if sg then 0 else w" "if sg then w else 0" flags limit out] assms w
    by (cases sg) auto
  then show ?thesis
    using w by (auto simp: print_numeric_def)
qed

lemmas convert_defs = convert_def convert_pointer_def convert_literal_def

lemma convert_fits_numeric:
  assumes "directive_text c len flags width args = Inr (t, args')" and "width \<noteq> - 1"
    and "b + int (length t) + 1 < limit" and "c \<in> set ''duxXob''"
  shows "\<exists>b' out'. convert c len flags width args b limit out = Inr (b', out', args') \<and> wrote t b out b' out'"
proof -
  consider "c = CHR ''d''" | "c = CHR ''u''" | "c = CHR ''x''" | "c = CHR ''X''" | "c = CHR ''o''" | "c = CHR ''b''"
    using assms(4) by auto
  then show ?thesis
    using assms(1-3) by cases (auto simp: convert_defs directive_text_def elim!: print_numeric_fits)
qed

lemma convert_fits_pointer:
  assumes "directive_text (CHR ''p'') len flags width args = Inr (t, args')" and "width \<noteq> - 1"
    and "b + int (length t) + 1 < limit"
  shows "\<exists>b' out'. convert (CHR ''p'') len flags width args b limit out = Inr (b', out', args') \<and> wrote t b out b' out'"
proof -
  obtain w where w: "va_pointer args = Inr (w, args')" "t = ''0x'' @ number_text w 0 (flags OR HEX) width"
    using assms(1) by (auto simp: directive_text_def)
  define out1 where "out1 = put ''0x'' b out"
  obtain b' out' where p: "print_number w 0 (flags OR HEX) width (b + 2) limit out1 = (b', out')"
    "wrote (number_text w 0 (flags OR HEX) width) (b + 2) out1 b' out'"
    using wrote_number [OF assms(2), of "b + 2" w 0 "flags OR HEX" limit out1] assms(3) w(2) by auto
  have "wrote ''0x'' b out (b + 2) out1"
    using wrote_put [of "''0x''" b out] by (simp add: out1_def)
  from wrote_trans [OF this p(2)] have "wrote t b out b' out'"
    by (simp add: w(2))
  moreover have "b + 2 < limit" using assms(3) w(2) by simp
  ultimately show ?thesis
    using w p(1) by (simp add: convert_defs out1_def)
qed

lemma convert_fits:
  assumes "directive_text c len flags width args = Inr (t, args')" and "width \<noteq> - 1"
    and "b + int (length t) + 1 < limit"
  shows "\<exists>b' out'. convert c len flags width args b limit out = Inr (b', out', args') \<and> wrote t b out b' out'"
proof -
  consider "c = CHR ''s''" | "c = CHR ''c''" | "c = CHR ''%''" | "c \<in> set ''duxXob''" | "c = CHR ''p''"
    | "c \<notin> set ''scduxXobp%''"
    by auto
  then show ?thesis
  proof cases
    case 1
    then show ?thesis
      using assms by (auto simp: convert_defs directive_text_def print_string_fits wrote_put)
  next
    case 2
    then show ?thesis
      using assms by (auto simp: convert_defs directive_text_def wrote_def)
  next
    case 3
    then show ?thesis
      using assms by (auto simp: convert_defs directive_text_def wrote_def)
  next
    case 4
    with assms show ?thesis by (rule convert_fits_numeric)
  next
    case 5
    with assms show ?thesis using convert_fits_pointer by blast
  next
    case 6
    then show ?thesis
      using assms by (auto simp: convert_defs directive_text_def wrote_def split: if_splits)
  qed
qed

lemma format_loop_fits:
  assumes "render fmt args = Inr t" and "- 1 \<notin> set (directive_widths fmt)"
    and "b + int (length t) + 1 < limit"
  shows "\<exists>b' out'. format_loop fmt args b limit out = Inr (b', out') \<and> wrote t b out b' out'"
  using assms
proof (induction fmt args arbitrary: t b out rule: render.induct)
  case (1 fmt args)
  consider "cur fmt = NUL" | "cur fmt = CHR ''%''" | "cur fmt \<noteq> NUL" "cur fmt \<noteq> CHR ''%''" by blast
  then show ?case
  proof cases
    case 1
    then show ?thesis
      using "1.prems" by (simp add: render.simps [of fmt] format_loop.simps [of fmt] wrote_def)
  next
    case 2
    obtain flags width len rest where d: "parse_directive (tl fmt) = (flags, width, len, rest)"
      by (metis prod_cases4)
    have nn: "CHR ''%'' \<noteq> NUL" by (simp add: NUL_def)
    obtain t1 args1 t2 where t: "directive_text (cur rest) len flags width args = Inr (t1, args1)"
      "render (tl rest) args1 = Inr t2" "t = t1 @ t2"
      using "1.prems"(1) 2 d nn by (auto simp: render.simps [of fmt])
    have w: "width \<noteq> - 1" "- 1 \<notin> set (directive_widths (tl rest))"
      using "1.prems"(2) 2 d nn by (auto simp: directive_widths.simps [of fmt])
    obtain b1 out1 where c: "convert (cur rest) len flags width args b limit out = Inr (b1, out1, args1)"
      "wrote t1 b out b1 out1"
      using convert_fits [OF t(1) w(1), of b limit out] "1.prems"(3) t(3) by auto
    have "b1 + int (length t2) + 1 < limit"
      using c(2) "1.prems"(3) t(3) by (simp add: wrote_def)

    with "1.IH"(1) [OF _ 2 d [symmetric] refl refl refl t(1) refl t(2) w(2), of b1 out1] 2 nn
    obtain b2 out2 where "format_loop (tl rest) args1 b1 limit out1 = Inr (b2, out2)" "wrote t2 b1 out1 b2 out2"
      by auto
    then show ?thesis
      using c t(3) 2 d nn wrote_trans by (auto simp: format_loop.simps [of fmt])
  next
    case 3
    obtain t2 where t: "render (tl fmt) args = Inr t2" "t = cur fmt # t2"
      using "1.prems"(1) 3 by (auto simp: render.simps [of fmt])
    have w: "- 1 \<notin> set (directive_widths (tl fmt))"
      using "1.prems"(2) 3 by (simp add: directive_widths.simps [of fmt])
    have "b + 1 + int (length t2) + 1 < limit"
      using "1.prems"(3) t(2) by simp
    from "1.IH"(2) [OF 3 t(1) w this, of "out(b := cur fmt)"]
    obtain b' out' where "format_loop (tl fmt) args (b + 1) limit (out(b := cur fmt)) = Inr (b', out')"
      "wrote t2 (b + 1) (out(b := cur fmt)) b' out'"
      by blast
    then show ?thesis
      using 3 t "1.prems"(3) by (auto simp: format_loop.simps [of fmt] wrote_def)
  qed
qed

section \<open>Confinement\<close>

text \<open>\<open>confined b limit out b' out'\<close>: the pointer did not move back and only offsets from \<open>b\<close> below
  \<open>limit\<close> were written.\<close>

definition confined :: "int \<Rightarrow> int \<Rightarrow> out \<Rightarrow> int \<Rightarrow> out \<Rightarrow> bool" where
  "confined b limit out b' out' \<longleftrightarrow> b \<le> b' \<and> (\<forall>p. p < b \<or> limit \<le> p \<longrightarrow> out' p = out p)"

lemma confined_refl: "confined b limit out b out"
  by (simp add: confined_def)

lemma confined_trans:
  "confined b limit out b1 out1 \<Longrightarrow> confined b1 limit out1 b2 out2 \<Longrightarrow> confined b limit out b2 out2"
  by (auto simp: confined_def)

lemma print_string_confined:
  "print_string s b limit out = (b', out') \<Longrightarrow> confined b limit out b' out'"
proof (induction s arbitrary: b out)
  case (Cons c cs)
  show ?case
  proof (cases "c = NUL")
    case False
    have "confined (b + 1) limit (if b + 1 < limit then out(b := c) else out) b' out'"
      using Cons False by simp
    then show ?thesis by (auto simp: confined_def split: if_splits)
  next
    case True
    then show ?thesis using Cons.prems by (simp add: confined_def)
  qed
qed (simp add: confined_def)

lemma print_number_confined:
  assumes "width \<noteq> - 1" and "print_number u s flags width b limit out = (b', out')"
  shows "confined b limit out b' out'"
  using assms by (auto simp: print_number_eq Let_def confined_def put_apply)

lemma print_numeric_confined:
  assumes "width \<noteq> - 1" and "print_numeric sg len flags width args b limit out = Inr (b', out', args')"
  shows "confined b limit out b' out'"
  using assms(2) by (auto simp: print_numeric_def split: prod.splits if_splits
      intro: print_number_confined [OF assms(1)])

lemma convert_confined:
  assumes w: "width \<noteq> - 1" and c: "convert c len flags width args b limit out = Inr (b', out', args')"
  shows "confined b limit out b' out'"
proof -
  consider "c = CHR ''s''" | "c = CHR ''c''" | "c \<in> set ''duxXob''" | "c = CHR ''p''" | "c \<notin> set ''scduxXobp''"
    by auto
  then show ?thesis
  proof cases
    case 1
    then show ?thesis
      using c by (auto simp: convert_defs intro: print_string_confined split: prod.splits)
  next
    case 2
    then show ?thesis
      using c by (auto simp: convert_defs confined_def split: if_splits)
  next
    case 3
    then show ?thesis
      using c by (auto simp: convert_defs intro: print_numeric_confined [OF w])
  next
    case 4
    then obtain w' b1 out1 where *: "confined b limit out b1 out1"
      "print_number w' 0 (flags OR HEX) width b1 limit out1 = (b', out')"
    proof -
      obtain w' where "va_pointer args = Inr (w', args')"
        and p: "(let (b1, out1) = (if b + 2 < limit then (b + 2, out(b := CHR ''0'', b + 1 := CHR ''x'')) else (b, out))
           in print_number w' 0 (flags OR HEX) width b1 limit out1) = (b', out')"
        using c 4 by (auto simp: convert_defs split: prod.splits if_splits)
      show ?thesis
        by (rule that [of "if b + 2 < limit then b + 2 else b"
              "if b + 2 < limit then out(b := CHR ''0'', b + 1 := CHR ''x'') else out" w'])
          (use p in \<open>auto simp: confined_def split: if_splits\<close>)
    qed
    then show ?thesis
      using print_number_confined [OF w] confined_trans by blast
  next
    case 5
    then show ?thesis
      using c by (auto simp: convert_defs confined_def split: if_splits)
  qed
qed

lemma format_loop_confined:
  assumes "- 1 \<notin> set (directive_widths fmt)" and "format_loop fmt args b limit out = Inr (b', out')"
  shows "confined b limit out b' out'"
  using assms
proof (induction fmt args b limit out rule: format_loop.induct)
  case (1 fmt args b limit out)
  consider "cur fmt = NUL" | "cur fmt = CHR ''%''" "cur fmt \<noteq> NUL" | "cur fmt \<noteq> NUL" "cur fmt \<noteq> CHR ''%''"
    by blast
  then show ?case
  proof cases
    case 1
    then show ?thesis
      using "1.prems" by (simp add: format_loop.simps [of fmt] confined_def)
  next
    case 2
    obtain flags width len rest where d: "parse_directive (tl fmt) = (flags, width, len, rest)"
      by (metis prod_cases4)
    have w: "width \<noteq> - 1" "- 1 \<notin> set (directive_widths (tl rest))"
      using "1.prems"(1) 2 d by (auto simp: directive_widths.simps [of fmt])
    obtain b1 out1 args1 where c: "convert (cur rest) len flags width args b limit out = Inr (b1, out1, args1)"
      "format_loop (tl rest) args1 b1 limit out1 = Inr (b', out')"
      using "1.prems"(2) 2 d by (auto simp: format_loop.simps [of fmt])
    show ?thesis
      using confined_trans [OF convert_confined [OF w(1) c(1)]]
        "1.IH"(1) [OF 2(2,1) d [symmetric] refl refl refl c(1) refl refl w(2) c(2)] by blast
  next
    case 3
    have w: "- 1 \<notin> set (directive_widths (tl fmt))"
      using "1.prems"(1) 3 by (simp add: directive_widths.simps [of fmt])
    show ?thesis
    proof (cases "b + 1 < limit")
      case True
      have "confined (b + 1) limit (out(b := cur fmt)) b' out'"
        by (rule "1.IH"(2) [OF 3 True w]) (use "1.prems"(2) 3 True in \<open>simp add: format_loop.simps [of fmt] fun_upd_def\<close>)
      then show ?thesis using True by (auto simp: confined_def)
    next
      case False
      then show ?thesis
        using "1.IH"(3) [OF 3 False w] "1.prems"(2) 3 by (simp add: format_loop.simps [of fmt])
    qed
  qed
qed

lemma print_string_truncates:
  "NUL \<notin> set s \<Longrightarrow> print_string s b limit out = (b + int (length s), put (take (nat (limit - 1 - b)) s) b out)"
proof (induction s arbitrary: b out)
  case (Cons c cs)
  show ?case
  proof (cases "b + 1 < limit")
    case True
    then have "nat (limit - 1 - b) = Suc (nat (limit - 1 - (b + 1)))" by simp
    with Cons True show ?thesis by auto
  next
    case False
    with Cons show ?thesis by auto
  qed
qed simp

lemma unat_scast_negative:
  assumes "2 ^ 31 \<le> (w :: u32)"
  shows "unat (scast w :: u64) = unat w + (2 ^ 64 - 2 ^ 32)"
proof -
  have u: "2 ^ 31 \<le> uint w" "uint w < 2 ^ 32"
    using assms uint_bounded [of w] by (simp_all add: word_le_def)
  have Suc_31: "Suc 31 = 32" by simp
  have "sint w = signed_take_bit 31 (uint w)" by (simp add: sint_uint)
  also have "\<dots> = (uint w + 2 ^ 31) mod 2 ^ 32 - 2 ^ 31"
    unfolding signed_take_bit_eq_take_bit_shift take_bit_eq_mod by (simp only: Suc_31)
  also have "(uint w + 2 ^ 31) mod 2 ^ 32 = uint w + 2 ^ 31 - 2 ^ 32"
    using u by (intro int_mod_pos_eq) simp_all
  finally have s: "sint w = uint w - 2 ^ 32" by simp
  have "uint (scast w :: u64) = sint w mod 2 ^ 64"
    unfolding scast_eq uint_word_of_int by simp
  also have "\<dots> = uint w + 2 ^ 64 - 2 ^ 32"
    using u unfolding s by (intro int_mod_pos_eq [where q = "- 1"]) simp_all
  finally have "int (unat (scast w :: u64)) = int (unat w + (2 ^ 64 - 2 ^ 32))" by simp
  then show ?thesis by (simp only: of_nat_eq_iff)
qed

section \<open>Reading back decimal digits\<close>

lemma number_digits_decimal:
  assumes "k < 10"
  shows "is_digit (number_digits flags ! k)" "of_char (number_digits flags ! k) - of_char (CHR ''0'') = k"
proof -
  have "k \<in> {0, 1, 2, 3, 4, 5, 6, 7, 8, 9}" using assms by auto
  then show "is_digit (number_digits flags ! k)" "of_char (number_digits flags ! k) - of_char (CHR ''0'') = k"
    by (auto simp: number_digits_def is_digit_def less_eq_char_def)
qed

lemma parse_width_ref_digits:
  "parse_width (ref_digits (number_digits flags) 10 n @ rest) w =
   parse_width rest (w * 10 ^ length (ref_digits (number_digits flags) 10 n) + of_nat n)"
proof (induction n arbitrary: rest w rule: less_induct)
  case (less n)
  show ?case
  proof (cases "n < 10")
    case True
    then show ?thesis
      using number_digits_decimal [OF True, of flags] by (simp add: ref_digits.simps [of _ _ n])
  next
    case False
    let ?m = "n div 10" and ?d = "n mod 10"
    have "of_nat n = (of_nat (?m * 10 + ?d) :: u32)" by simp
    then have n: "of_nat n = (of_nat ?m * 10 + of_nat ?d :: u32)"
      by (simp only: of_nat_add of_nat_mult of_nat_numeral)
    have "?d < 10" by simp
    from number_digits_decimal [OF this, of flags] False less [of ?m "[number_digits flags ! ?d] @ rest" w]
    show ?thesis
      by (simp add: ref_digits.simps [of _ _ n] n algebra_simps)
  qed
qed

section \<open>Properties\<close>

lemma vsnprintf_fits:
  assumes "render fmt args = Inr t" and "- 1 \<notin> set (directive_widths fmt)"
    and "int (length t) + 2 \<le> uint len"
  shows "vsnprintf out len fmt args =
    Inr (of_nat (length t), (put t 0 out)(int (length t) := NUL))"
proof -
  have "0 + int (length t) + 1 < uint len" using assms(3) by simp
  from format_loop_fits [OF assms(1,2) this, of out]
  obtain b' out' where "format_loop fmt args 0 (uint len) out = Inr (b', out')" "wrote t 0 out b' out'"
    by blast
  then show ?thesis
    using assms(3) by (auto simp: vsnprintf_def wrote_def)
qed

text \<open>C10. For arguments of the types the format fetches (the rendering exists), when the rendered text and two more bytes fit in the buffer, and no directive carries the width
  \<open>0xFFFFFFFF\<close>, \<open>vsnprintf\<close> stores exactly the rendered text followed by a NUL, changes no other
  byte, and returns the length of the text.\<close>

theorem vsnprintf_renders:
  assumes "render fmt args = Inr t" and "- 1 \<notin> set (directive_widths fmt)"
    and "int (length t) + 2 \<le> uint len"
  shows "vsnprintf out len fmt args =
    Inr (of_nat (length t), (put t 0 out)(int (length t) := NUL))"
  by (rule vsnprintf_fits [OF assms])

theorem vsnprintf_renders_witness:
  "vsnprintf (\<lambda>_. CHR ''z'') 32 ''[%05d|%-4x|%s]'' [VInt (- 42), VInt 0xBE, VStr ''ok''] =
   Inr (of_nat 15, (put ''[-0042|be  |ok]'' 0 (\<lambda>_. CHR ''z''))(15 := NUL))"
proof -
  have "render ''[%05d|%-4x|%s]'' [VInt (- 42), VInt 0xBE, VStr ''ok''] = Inr ''[-0042|be  |ok]''"
    by code_simp
  moreover have "- 1 \<notin> set (directive_widths ''[%05d|%-4x|%s]'')"
    by code_simp
  ultimately show ?thesis
    using vsnprintf_renders [of "''[%05d|%-4x|%s]''" _ "''[-0042|be  |ok]''" 32 "\<lambda>_. CHR ''z''"] by simp
qed



text \<open>\<open>print_number\<close>: the digits are the positional notation of the magnitude in the selected base,
  produced in at most 64 characters (\<open>tmp\<close> has 66), signed and padded to the width; the text and
  a NUL are stored when they fit before \<open>limit\<close>, and otherwise nothing is stored; in both cases the
  pointer advances by the length of the text.\<close>

lemma print_number_correct:
  assumes "width \<noteq> - 1"
  shows "length (number_tmp flags u) \<le> 64 \<and>
    print_number u s flags width b limit out =
    (let str = number_text u s flags width; b' = b + int (length str)
     in (b', if b' < limit then (put str b out)(b' := NUL) else out))"
  using print_number_eq [OF assms] length_number_tmp(1) by blast

text \<open>Reading back: the width parser applied to the decimal text of a number gives the number
  (modulo \<open>2 ^ 32\<close>, the width of \<open>unsigned int\<close>) and stops at the first character that is no digit.\<close>

lemma parse_width_number_text:
  assumes "\<not> is_digit (cur rest)"
  shows "parse_width (number_text u 0 0 0 @ rest) 0 = (ucast u, rest)"
proof -
  have "number_text u 0 0 0 = ref_digits (number_digits 0) 10 (unat u)"
    by (simp add: number_text_def number_field_def number_base_def)
  moreover have "parse_width rest w = (w, rest)" for w
    using assms by (cases rest) (auto simp: cur_def)
  ultimately show ?thesis
    by (simp add: parse_width_ref_digits)
qed

lemma parse_directive_s: "parse_directive ''s'' = (0, 0, LEN_DEFAULT, ''s'')"
  by code_simp

lemma parse_directive_u: "parse_directive ''u'' = (0, 0, LEN_DEFAULT, ''u'')"
  by code_simp

text \<open>\<open>%s\<close> truncates like the C library: at most \<open>len - 1\<close> characters are stored, then a NUL, and
  the full length of the argument is returned.\<close>

lemma vsnprintf_string_truncates:
  assumes "NUL \<notin> set str" and "0 < len"
  shows "vsnprintf out len ''%s'' [VStr str] =
    Inr (of_nat (length str),
         (put (take (unat len - 1) str) 0 out)(int (min (length str) (unat len - 1)) := NUL))"
proof -
  have l0: "int (unat len) = uint len" by simp
  have "0 < uint len" using assms(2) by (simp add: word_less_def)
  then have l: "nat (uint len - 1) = unat len - 1" "int (unat len - 1) = uint len - 1"
    using l0 by arith+
  have nul: "CHR ''%'' \<noteq> NUL" by (simp add: NUL_def)
  have f: "format_loop ''%s'' [VStr str] 0 (uint len) out = Inr (int (length str), put (take (unat len - 1) str) 0 out)"
    using print_string_truncates [OF assms(1), of 0 "uint len" out] l(1) nul
    by (simp add: format_loop.simps [of "''%s''"] format_loop.simps [of "[]"] cur_def parse_directive_s convert_defs)
  have "int (min (length str) (unat len - 1)) = (if int (length str) < uint len then int (length str) else uint len - 1)"
    using l(2) by auto
  then show ?thesis
    by (simp add: vsnprintf_def f)
qed

text \<open>\<open>%u\<close> fetches an \<open>int\<close> and sign-extends it: an argument of \<open>2 ^ 31\<close> or more is rendered as a
  64-bit number, \<open>2 ^ 64 - 2 ^ 32\<close> too large.\<close>

lemma render_unsigned_sign_extends:
  assumes "2 ^ 31 \<le> (w :: u32)"
  shows "render ''%u'' [VInt w] = Inr (ref_digits ''0123456789ABCDEF'' 10 (unat w + (2 ^ 64 - 2 ^ 32)))"
proof -
  have nul: "CHR ''%'' \<noteq> NUL" by (simp add: NUL_def)
  have "directive_text (CHR ''u'') LEN_DEFAULT 0 0 [VInt w] =
      Inr (ref_digits ''0123456789ABCDEF'' 10 (unat (scast w :: u64)), [])"
    by (simp add: directive_text_def numeric_text_def number_text_def number_field_def number_base_def
        number_digits_def)
  then show ?thesis
    using nul unfolding unat_scast_negative [OF assms]
    by (simp add: render.simps [of "''%u''"] render.simps [of "[]"] cur_def parse_directive_u)
qed

end
