(* ===== verification/Snprintf_Types.thy ===== *)
theory Snprintf_Types
  imports Snprintf_Spec "HOL-Library.Sublist"
begin

text \<open>
  The types of the variable arguments. \<open>format_types\<close> reads off a format the list of types \<open>va_arg\<close> is called with; a call is well typed when its
  arguments begin with values of these types. Well-typed calls are exactly those that have a rendering, and, for formats without \<open>%c\<close>, exactly those
  \<open>vsnprintf\<close> returns from, whatever the length of the buffer.
\<close>

section \<open>Types\<close>

datatype va_type = TInt | TLong | TStr | TPtr

fun type_of_va :: "va \<Rightarrow> va_type" where
  "type_of_va (VInt w) = TInt"
| "type_of_va (VLong w) = TLong"
| "type_of_va (VStr s) = TStr"
| "type_of_va (VPtr w) = TPtr"

definition number_type :: "length_mod \<Rightarrow> va_type" where
  "number_type len = (if len \<in> {LEN_L, LEN_LL} then TLong else TInt)"

text \<open>What a conversion fetches; \<open>None\<close> at the end of the format.\<close>

definition directive_types :: "char \<Rightarrow> length_mod \<Rightarrow> va_type list option" where
  "directive_types c len =
     (if c = CHR ''s'' then Some [TStr]
      else if c = CHR ''c'' then Some [TInt]
      else if c \<in> set ''duxXob'' then Some [number_type len]
      else if c = CHR ''p'' then Some [TPtr]
      else if c = NUL then None
      else Some [])"

text \<open>A traversal of the directives of a format: plain characters are skipped.\<close>

function directives :: "string \<Rightarrow> (char \<times> length_mod) list" where
  "directives fmt =
     (if cur fmt = NUL then []
      else if cur fmt = CHR ''%'' then
        (let (flags, width, len, rest) = parse_directive (tl fmt)
         in (cur rest, len) # directives (tl rest))
      else directives (tl fmt))"
  by pat_completeness auto
termination
proof (relation "measure length", goal_cases)
  case (2 fmt x flags y width z len rest)
  then show ?case
    using parse_directive_shorter [of "tl fmt" flags width len rest]
    by (cases fmt) (auto simp: cur_def le_imp_less_Suc less_Suc_eq_le)
qed (auto simp: cur_def split: list.splits)

declare directives.simps [simp del]

fun types_of :: "(char \<times> length_mod) list \<Rightarrow> va_type list option" where
  "types_of [] = Some []"
| "types_of ((c, len) # ds) = (case directive_types c len of None \<Rightarrow> None | Some ts \<Rightarrow> map_option ((@) ts) (types_of ds))"

definition format_types :: "string \<Rightarrow> va_type list option" where
  "format_types fmt = types_of (directives fmt)"

definition takes :: "va_type list option \<Rightarrow> va list \<Rightarrow> bool" where
  "takes ts args \<longleftrightarrow> (case ts of None \<Rightarrow> False | Some us \<Rightarrow> prefix us (map type_of_va args))"

definition well_typed :: "string \<Rightarrow> va list \<Rightarrow> bool" where
  "well_typed fmt args \<longleftrightarrow> takes (format_types fmt) args"

section \<open>One directive\<close>

lemma takes_cons:
  "takes (types_of ((c, len) # ds)) args \<longleftrightarrow>
     takes (directive_types c len) args \<and> takes (types_of ds) (drop (length (the (directive_types c len))) args)"
proof -
  have "prefix (ts @ us) (map type_of_va args) \<longleftrightarrow> prefix ts (map type_of_va args) \<and> prefix us (map type_of_va (drop (length ts) args))" for ts us
    by (auto simp: prefix_def append_eq_conv_conj drop_map [symmetric])
  then show ?thesis by (auto simp: takes_def split: option.splits)
qed

lemma takes_one: "takes (Some [t]) args \<longleftrightarrow> (\<exists>x xs. args = x # xs \<and> type_of_va x = t)"
  by (cases args) (auto simp: takes_def)

lemma takes_simps [simp]: "takes None args \<longleftrightarrow> False" "takes (Some []) args \<longleftrightarrow> True"
  by (simp_all add: takes_def)

text \<open>Each accessor fetches exactly a value of its type.\<close>

lemma va_number_typed:
  "if takes (Some [number_type len]) args then \<exists>w. va_number len args = Inr (w, tl args) else va_number len args = Inl Fault"
  by (cases "(len, args)" rule: va_number.cases) (auto simp: takes_one number_type_def)

lemma va_string_typed: "if takes (Some [TStr]) args then \<exists>s. va_string args = Inr (s, tl args) else va_string args = Inl Fault"
  by (cases args rule: va_string.cases) (auto simp: takes_one)

lemma va_char_typed: "if takes (Some [TInt]) args then \<exists>c. va_char args = Inr (c, tl args) else va_char args = Inl Fault"
  by (cases args rule: va_char.cases) (auto simp: takes_one)

lemma va_pointer_typed: "if takes (Some [TPtr]) args then \<exists>w. va_pointer args = Inr (w, tl args) else va_pointer args = Inl Fault"
  by (cases args rule: va_pointer.cases) (auto simp: takes_one)

lemmas va_typed = va_number_typed va_string_typed va_char_typed va_pointer_typed

text \<open>A conversion, and the text of a directive, exist exactly for arguments of its type, and leave the others.\<close>

definition fetches :: "va_type list option \<Rightarrow> va list \<Rightarrow> ('a \<times> va list) res \<Rightarrow> bool" where
  "fetches ts args r \<longleftrightarrow> (if takes ts args then \<exists>x. r = Inr (x, drop (length (the ts)) args) else r = Inl Fault)"

lemma fetches_bind:
  assumes "if takes (Some [t]) args then \<exists>w. r = Inr (w, tl args) else r = Inl Fault"
  shows "fetches (Some [t]) args (rbind r (\<lambda>(w, args'). Inr (f w, args')))"
  using assms by (auto simp: fetches_def drop_Suc split: if_splits)

lemma fetches_others: "fetches (Some []) args (Inr (x, args))" "fetches None args (Inl Fault)"
  by (simp_all add: fetches_def)

lemma conversion_cases:
  obtains "c = CHR ''s''" | "c = CHR ''c''" | "c \<in> set ''duxXob''" | "c = CHR ''p''" | "c \<notin> set ''scduxXobp''"
  by auto

lemma directive_types_eqs [simp]:
  "directive_types (CHR ''s'') len = Some [TStr]" "directive_types (CHR ''c'') len = Some [TInt]" "directive_types (CHR ''p'') len = Some [TPtr]"
  "c \<in> set ''duxXob'' \<Longrightarrow> directive_types c len = Some [number_type len]"
  "c \<notin> set ''scduxXobp'' \<Longrightarrow> directive_types c len = (if c = NUL then None else Some [])"
  unfolding directive_types_def by auto

lemma percent_not_nul [simp]: "CHR ''%'' \<noteq> NUL" "NUL \<noteq> CHR ''%''"
  by (simp_all add: NUL_def)

lemma number_cases:
  assumes "c \<in> set ''duxXob''"
  obtains "c = CHR ''d''" | "c = CHR ''u''" | "c = CHR ''x''" | "c = CHR ''X''" | "c = CHR ''o''" | "c = CHR ''b''"
  using assms by auto

lemma directive_text_number:
  assumes "c \<in> set ''duxXob''"
  shows "\<exists>f. directive_text c len flags width args = numeric_text f len args"
  using assms by (cases rule: number_cases) (simp_all add: directive_text_def, blast+)

lemma directive_text_typed: "fetches (directive_types c len) args (directive_text c len flags width args)"
proof (cases c rule: conversion_cases)
  case 3
  with directive_text_number obtain f where "directive_text c len flags width args = numeric_text f len args" by blast
  then show ?thesis using 3 fetches_bind [OF va_number_typed [of len args], of f] by (simp add: numeric_text_def)
next
  case 5
  then show ?thesis by (simp add: directive_text_def fetches_others)
qed (simp_all add: directive_text_def fetches_bind va_typed)

text \<open>The code returns the pointer and the buffer beside the arguments.\<close>

definition regroup :: "(int \<times> out \<times> va list) res \<Rightarrow> ((int \<times> out) \<times> va list) res" where
  "regroup r = rbind r (\<lambda>(b, out, args). Inr ((b, out), args))"

lemma regroup_bind:
  assumes "\<And>w args'. f (w, args') = (case g w of (b, out) \<Rightarrow> Inr (b, out, args'))"
  shows "regroup (rbind r f) = rbind r (\<lambda>(w, args'). Inr (g w, args'))"
  using assms by (cases r) (auto simp: regroup_def split: prod.splits)

lemma print_numeric_typed: "fetches (Some [number_type len]) args (regroup (print_numeric sg len flags width args b limit out))"
  unfolding print_numeric_def
  by (subst regroup_bind [where g = "\<lambda>w. if sg then print_number 0 w flags width b limit out else print_number w 0 flags width b limit out"])
    (auto intro: fetches_bind va_typed simp: Let_def)

lemma convert_number:
  assumes "c \<in> set ''duxXob''"
  shows "\<exists>sg flags'. convert c len flags width args b limit out = print_numeric sg len flags' width args b limit out"
  using assms by (cases rule: number_cases) (simp_all add: convert_def, blast+)

lemma convert_typed:
  assumes "c \<noteq> CHR ''c''"
  shows "fetches (directive_types c len) args (regroup (convert c len flags width args b limit out))"
proof (cases c rule: conversion_cases)
  case 1
  then show ?thesis
    by (simp add: convert_def)
      (subst regroup_bind [where g = "\<lambda>s. print_string s b limit out"], simp_all add: fetches_bind va_typed Let_def)
next
  case 3
  with convert_number obtain sg flags' where "convert c len flags width args b limit out = print_numeric sg len flags' width args b limit out" by blast
  then show ?thesis using 3 print_numeric_typed by simp
next
  case 4
  define b1 out1 where "b1 = (if b + 2 < limit then b + 2 else b)" and "out1 = (if b + 2 < limit then out(b := CHR ''0'', b + 1 := CHR ''x'') else out)"
  have "convert c len flags width args b limit out = rbind (va_pointer args) (\<lambda>(w, args').
      case print_number w 0 (flags OR HEX) width b1 limit out1 of (b2, out2) \<Rightarrow> Inr (b2, out2, args'))"
    using 4 by (auto simp: convert_def convert_pointer_def b1_def out1_def Let_def)
  then show ?thesis
    by (simp only:) (subst regroup_bind [where g = "\<lambda>w. print_number w 0 (flags OR HEX) width b1 limit out1"], simp_all add: 4 fetches_bind va_typed)
next
  case 5
  then show ?thesis by (simp add: convert_def convert_literal_def regroup_def fetches_others)
qed (use assms in simp)

section \<open>Formats\<close>

lemma format_cases:
  obtains "cur fmt = NUL" | flags width len rest where "cur fmt = CHR ''%''" "parse_directive (tl fmt) = (flags, width, len, rest)"
    | "cur fmt \<noteq> NUL" "cur fmt \<noteq> CHR ''%''"
  by (metis prod_cases4)

lemma well_typed_simps:
  "cur fmt = NUL \<Longrightarrow> well_typed fmt args"
  "cur fmt \<noteq> NUL \<Longrightarrow> cur fmt \<noteq> CHR ''%'' \<Longrightarrow> well_typed fmt args \<longleftrightarrow> well_typed (tl fmt) args"
  "cur fmt = CHR ''%'' \<Longrightarrow> parse_directive (tl fmt) = (flags, width, len, rest) \<Longrightarrow>
     well_typed fmt args \<longleftrightarrow> takes (directive_types (cur rest) len) args \<and>
       well_typed (tl rest) (drop (length (the (directive_types (cur rest) len))) args)"
  by (simp_all add: well_typed_def format_types_def directives.simps [of fmt] takes_cons del: types_of.simps(2))

lemma fetches_cases:
  assumes "fetches ts args r"
  obtains x where "takes ts args" "r = Inr (x, drop (length (the ts)) args)" | "\<not> takes ts args" "r = Inl Fault"
  using assms by (auto simp: fetches_def split: if_splits)

lemma render_typed: "if well_typed fmt args then \<exists>t. render fmt args = Inr t else render fmt args = Inl Fault"
proof (induction fmt args rule: render.induct)
  case (1 fmt args)
  show ?case
  proof (cases fmt rule: format_cases)
    case 1
    then show ?thesis by (simp add: render.simps [of fmt] well_typed_simps)
  next
    case (2 flags width len rest)
    from directive_text_typed [of "cur rest" len args flags width] show ?thesis
    proof (cases rule: fetches_cases)
      case (1 x)
      let ?args = "drop (length (the (directive_types (cur rest) len))) args"
      from "1.IH"(1) [OF _ 2(1) refl, of flags "(width, len, rest)" width "(len, rest)" len rest "(x, ?args)" x ?args] show ?thesis
        by (auto simp: render.simps [of fmt] well_typed_simps(3) [OF 2] 1 2 split: if_splits)
    qed (simp add: render.simps [of fmt] well_typed_simps(3) [OF 2] 2)
  next
    case 3
    then show ?thesis using "1.IH"(2) [OF 3] by (auto simp: render.simps [of fmt] well_typed_simps(2) split: if_splits)
  qed
qed

text \<open>Without \<open>%c\<close> the loop of the code fetches the same arguments, whether the text fits or not.\<close>

definition no_char :: "string \<Rightarrow> bool" where
  "no_char fmt \<longleftrightarrow> CHR ''c'' \<notin> fst ` set (directives fmt)"

lemma no_char_simps:
  "cur fmt \<noteq> NUL \<Longrightarrow> cur fmt \<noteq> CHR ''%'' \<Longrightarrow> no_char fmt \<longleftrightarrow> no_char (tl fmt)"
  "cur fmt = CHR ''%'' \<Longrightarrow> parse_directive (tl fmt) = (flags, width, len, rest) \<Longrightarrow> no_char fmt \<longleftrightarrow> cur rest \<noteq> CHR ''c'' \<and> no_char (tl rest)"
  by (auto simp: no_char_def directives.simps [of fmt])

lemma regroup_simps: "regroup r = Inr ((b, out), args) \<longleftrightarrow> r = Inr (b, out, args)" "regroup r = Inl e \<longleftrightarrow> r = Inl e"
  by (cases r; auto simp: regroup_def)+

lemma format_loop_typed:
  "no_char fmt \<Longrightarrow> if well_typed fmt args then \<exists>b' out'. format_loop fmt args b limit out = Inr (b', out') else format_loop fmt args b limit out = Inl Fault"
proof (induction fmt args b limit out rule: format_loop.induct)
  case (1 fmt args b limit out)
  show ?case
  proof (cases fmt rule: format_cases)
    case 1
    then show ?thesis by (simp add: format_loop.simps [of fmt] well_typed_simps)
  next
    case (2 flags width len rest)
    then have n: "cur rest \<noteq> CHR ''c''" "no_char (tl rest)" using "1.prems" by (simp_all add: no_char_simps)
    from convert_typed [OF n(1), of len args flags width b limit out] show ?thesis
    proof (cases rule: fetches_cases)
      case (1 x)
      let ?args = "drop (length (the (directive_types (cur rest) len))) args"
      obtain b' out' where c: "convert (cur rest) len flags width args b limit out = Inr (b', out', ?args)"
        using 1(2) by (cases x) (auto simp: regroup_simps)
      from "1.IH"(1) [OF _ 2(1) refl, of flags "(width, len, rest)" width "(len, rest)" len rest "(b', out', ?args)" b' "(out', ?args)" out' ?args] n(2)
      show ?thesis
        by (simp add: format_loop.simps [of fmt] well_typed_simps(3) [OF 2] 1(1) 2 c)
    qed (simp add: format_loop.simps [of fmt] well_typed_simps(3) [OF 2] 2 regroup_simps)
  next
    case 3
    then show ?thesis using "1.IH"(2,3) [OF 3] "1.prems" by (simp add: format_loop.simps [of fmt] well_typed_simps(2) no_char_simps(1))
  qed
qed

section \<open>Property\<close>

text \<open>C35. Type soundness of the formatter. A format and its arguments have a rendering exactly when the arguments begin with the types the format
  fetches. When no directive is \<open>%c\<close>, \<open>vsnprintf\<close> returns from exactly these calls, with any buffer length, even when the text is cut; any other call
  fetches a missing argument, one of another type, or reads behind the format.\<close>

theorem vsnprintf_well_typed:
  shows "(well_typed fmt args \<longleftrightarrow> (\<exists>t. render fmt args = Inr t)) \<and>
    (no_char fmt \<longrightarrow>
      (if well_typed fmt args then \<exists>n out'. vsnprintf out len fmt args = Inr (n, out') else vsnprintf out len fmt args = Inl Fault))"
proof (intro conjI impI)
  show "well_typed fmt args \<longleftrightarrow> (\<exists>t. render fmt args = Inr t)"
    using render_typed [of fmt args] by (auto split: if_splits)
  show "if well_typed fmt args then \<exists>n out'. vsnprintf out len fmt args = Inr (n, out') else vsnprintf out len fmt args = Inl Fault" if "no_char fmt"
    using format_loop_typed [OF that, of args 0 "uint len" out] by (auto simp: vsnprintf_def Let_def split: if_splits)
qed

text \<open>A call that is cut after three characters, and one with a \<open>long\<close> where \<open>%d\<close> fetches an \<open>int\<close>.\<close>

theorem vsnprintf_well_typed_witness:
  "(\<exists>n out'. vsnprintf (\<lambda>_. NUL) 4 ''%s=%lx'' [VStr ''word'', VLong 7] = Inr (n, out')) \<and> vsnprintf (\<lambda>_. NUL) 4 ''%s=%d'' [VStr ''word'', VLong 7] = Inl Fault"
proof -
  have "no_char ''%s=%lx''" "no_char ''%s=%d''" "well_typed ''%s=%lx'' [VStr ''word'', VLong 7]" "\<not> well_typed ''%s=%d'' [VStr ''word'', VLong 7]"
    by code_simp+
  with vsnprintf_well_typed show ?thesis by metis
qed

text \<open>With \<open>%c\<close> this fails: behind a cut \<open>%c\<close> the next directive fetches the character's argument.\<close>

lemma vsnprintf_char_not_fetched:
  "well_typed ''%c%s'' [VInt w, VStr str] \<and> vsnprintf out 1 ''%c%s'' [VInt w, VStr str] = Inl Fault"
proof
  have d: "directives ''%c%s'' = [(CHR ''c'', LEN_DEFAULT), (CHR ''s'', LEN_DEFAULT)]" by code_simp
  show "well_typed ''%c%s'' [VInt w, VStr str]" by (simp add: well_typed_def format_types_def d takes_def)
  have p: "parse_directive ''c%s'' = (0, 0, LEN_DEFAULT, ''c%s'')" by code_simp
  show "vsnprintf out 1 ''%c%s'' [VInt w, VStr str] = Inl Fault"
    by (simp add: vsnprintf_def format_loop.simps [of "''%c%s''"] format_loop.simps [of "''%s''"] cur_def p parse_directive_s convert_def)
qed

end
