(* ===== verification/Framebuffer_Spec.thy ===== *)
theory Framebuffer_Spec
  imports Framebuffer
begin

text \<open>
  The framebuffer as a grid of colours. \<open>pixel_grid\<close> is the interface a picture offers: writing one pixel changes that
  pixel only, and reading back gives what was written; loops over pixels are verified once against it. It is interpreted on the
  pixels of the framebuffer.
\<close>

section \<open>Loops over cells\<close>

text \<open>
  A loop that writes a different cell in each round. The value written in a round may depend on the state, but not on
  the cells written before.
\<close>

lemma fold_cells:
  assumes "distinct (map t is)"
    and step: "\<And>i m c. i \<in> set is \<Longrightarrow> c \<in> C \<Longrightarrow> get (st i m) c = (if c = t i then v i m else get m c)"
    and dep: "\<And>pre i post m. is = pre @ i # post \<Longrightarrow> (\<And>c. c \<in> C \<Longrightarrow> c \<notin> t ` set pre \<Longrightarrow> get m c = get m0 c) \<Longrightarrow> v i m = u i"
    and "c \<in> C"
  shows "get (fold st is m0) c = (if c \<in> t ` set is then u (the_inv_into (set is) t c) else get m0 c)"
proof -
  have inj: "inj_on t (set is)" using assms(1) by (simp add: distinct_map)
  have "\<forall>c \<in> C. get (fold st pre m0) c = (if c \<in> t ` set pre then u (the_inv_into (set is) t c) else get m0 c)"
    if "\<exists>post. is = pre @ post" for pre
    using that
  proof (induction pre rule: rev_induct)
    case (snoc i pre)
    then obtain post where "is": "is = pre @ i # post" by auto
    have IH: "\<forall>c \<in> C. get (fold st pre m0) c = (if c \<in> t ` set pre then u (the_inv_into (set is) t c) else get m0 c)"
      using snoc.IH "is" by auto
    have i: "i \<in> set is" "the_inv_into (set is) t (t i) = i" using inj by (simp_all add: "is" the_inv_into_f_f)
    have "v i (fold st pre m0) = u i" by (rule dep [OF "is"]) (use IH in auto)
    then show ?case using IH step [OF i(1)] i(2) by auto
  qed simp
  from this [of "is"] assms(4) show ?thesis by simp
qed

lemma fold_nested: "fold (\<lambda>y. fold (\<lambda>x. f y x) xs) ys m = fold (\<lambda>(y, x). f y x) (List.product ys xs) m"
proof (induction ys arbitrary: m)
  case (Cons y ys)
  have "fold (\<lambda>(y, x). f y x) (map (Pair y) xs) m = fold (\<lambda>x. f y x) xs m" for m
    by (simp add: fold_map comp_def)
  then show ?case by (simp add: Cons.IH)
qed simp

section \<open>The interface\<close>

locale pixel_grid =
  fixes ok :: "'f \<Rightarrow> bool"
    and w :: "'f \<Rightarrow> nat"
    and h :: "'f \<Rightarrow> nat"
    and get :: "'f \<Rightarrow> 'm \<Rightarrow> nat \<times> nat \<Rightarrow> 'v"
    and put :: "'f \<Rightarrow> nat \<Rightarrow> nat \<Rightarrow> 'v \<Rightarrow> 'm \<Rightarrow> 'm"
  assumes get_put: "ok fb \<Longrightarrow> x < w fb \<Longrightarrow> y < h fb \<Longrightarrow> x' < w fb \<Longrightarrow> y' < h fb \<Longrightarrow>
    get fb (put fb x y v m) (x', y') = (if x' = x \<and> y' = y then v else get fb m (x', y'))"
begin

text \<open>The pixels \<open>s\<close> rows below, the colour \<open>e\<close> where there is none.\<close>

definition shifted :: "'f \<Rightarrow> nat \<Rightarrow> 'v \<Rightarrow> 'm \<Rightarrow> nat \<Rightarrow> nat \<Rightarrow> 'v" where
  "shifted fb s e m x y = (if y + s < h fb then get fb m (x, y + s) else e)"

text \<open>Copying row by row from the top moves the picture up.\<close>

lemma scroll_loop:
  assumes ok: "ok fb" and c: "x < w fb" "y < h fb"
    and st: "\<And>x y m. x < w fb \<Longrightarrow> y < h fb \<Longrightarrow> st y x m = put fb x y (shifted fb s e m x y) m"
  shows "get fb (fold (\<lambda>y. fold (st y) [0..<w fb]) [0..<h fb] m) (x, y) = shifted fb s e m x y"
proof -
  let ?is = "List.product [0..<h fb] [0..<w fb]" and ?t = "\<lambda>(y, x). (x, y)" and ?C = "{..<w fb} \<times> {..<h fb}"
  have sorted: "sorted (map fst ?is)"
  proof -
    have "sorted (map fst (List.product ys zs))" if "sorted ys" for ys :: "nat list" and zs :: "nat list"
    proof -
      have const: "sorted (map (\<lambda>_. y) zs)" for y :: nat by (induction zs) auto
      show ?thesis using that by (induction ys) (auto simp: sorted_append comp_def const)
    qed
    then show ?thesis by simp
  qed
  have dist: "distinct ?is" by (simp add: distinct_product)
  have inj: "inj_on ?t A" for A by (auto simp: inj_on_def)
  have "get fb (fold (\<lambda>(y, x). st y x) ?is m) (x, y) =
    (if (x, y) \<in> ?t ` set ?is then (\<lambda>(y, x). shifted fb s e m x y) (the_inv_into (set ?is) ?t (x, y)) else get fb m (x, y))"
  proof (rule fold_cells [where C = ?C and v = "\<lambda>(y, x) m. shifted fb s e m x y"])
    show "distinct (map ?t ?is)" using dist inj by (simp add: distinct_map)
    show "get fb ((case i of (y, x) \<Rightarrow> st y x) m) c = (if c = ?t i then (case i of (y, x) \<Rightarrow> \<lambda>m. shifted fb s e m x y) m else get fb m c)"
      if "i \<in> set ?is" "c \<in> ?C" for i m c
      using that by (auto simp: st get_put ok split: if_splits)
    show "(case i of (y, x) \<Rightarrow> \<lambda>m. shifted fb s e m x y) m' = (case i of (y, x) \<Rightarrow> shifted fb s e m x y)"
      if "?is": "?is = pre @ i # post" and same: "\<And>c. c \<in> ?C \<Longrightarrow> c \<notin> ?t ` set pre \<Longrightarrow> get fb m' c = get fb m c" for pre i post m'
    proof -
      obtain y0 x0 where i: "i = (y0, x0)" by force
      have mem: "i \<in> set ?is" unfolding "?is" by simp
      have "(y0 + s, x0) \<notin> set pre"
        using sorted dist unfolding "?is" i by (fastforce simp: sorted_append)
      then have "(x0, y0 + s) \<notin> ?t ` set pre" by auto
      then show ?thesis
        using mem same [of "(x0, y0 + s)"] by (auto simp: i shifted_def)
    qed
  qed (use c in auto)
  moreover have "the_inv_into (set ?is) ?t (x, y) = (y, x)"
    using the_inv_into_f_f [OF inj, of "(y, x)" "set ?is"] c by simp
  moreover have "(x, y) \<in> ?t ` set ?is" using c by force
  ultimately show ?thesis by (simp add: fold_nested)
qed

text \<open>Drawing an 8 by 8 picture.\<close>

lemma draw_loop:
  assumes ok: "ok fb" and fit: "x0 + 8 \<le> w fb" "y0 + 8 \<le> h fb" and c: "x < w fb" "y < h fb"
    and st: "\<And>row col m x y. row < 8 \<Longrightarrow> col < 8 \<Longrightarrow> x < w fb \<Longrightarrow> y < h fb \<Longrightarrow>
      get fb (st row col m) (x, y) = (if x = x0 + col \<and> y = y0 + row then pic row col else get fb m (x, y))"
  shows "get fb (fold (\<lambda>row. fold (st row) [0..<8]) [0..<8] m) (x, y) =
    (if x0 \<le> x \<and> x < x0 + 8 \<and> y0 \<le> y \<and> y < y0 + 8 then pic (y - y0) (x - x0) else get fb m (x, y))"
proof -
  let ?is = "List.product [0..<8] [0..<8]" and ?t = "\<lambda>(row, col). (x0 + col, y0 + row)" and ?C = "{..<w fb} \<times> {..<h fb}"
  have inj: "inj_on ?t A" for A by (auto simp: inj_on_def)
  have "get fb (fold (\<lambda>(row, col). st row col) ?is m) (x, y) =
    (if (x, y) \<in> ?t ` set ?is then (\<lambda>(row, col). pic row col) (the_inv_into (set ?is) ?t (x, y)) else get fb m (x, y))"
  proof (rule fold_cells [where C = ?C and v = "\<lambda>i m. (case i of (row, col) \<Rightarrow> pic row col)"])
    show "distinct (map ?t ?is)" using inj by (simp add: distinct_map distinct_product)
    show "get fb ((case i of (row, col) \<Rightarrow> st row col) m) c = (if c = ?t i then (case i of (row, col) \<Rightarrow> pic row col) else get fb m c)"
      if "i \<in> set ?is" "c \<in> ?C" for i m c
      using that by (auto simp: st split: if_splits)
  qed (use c in auto)
  moreover have "the_inv_into (set ?is) ?t (x, y) = (y - y0, x - x0)" if "(x, y) \<in> ?t ` set ?is"
    using that the_inv_into_f_f [of ?t "set ?is"] inj by auto
  moreover have "(x, y) \<in> ?t ` set ?is \<longleftrightarrow> x0 \<le> x \<and> x < x0 + 8 \<and> y0 \<le> y \<and> y < y0 + 8"
  proof
    assume "x0 \<le> x \<and> x < x0 + 8 \<and> y0 \<le> y \<and> y < y0 + 8"
    then show "(x, y) \<in> ?t ` set ?is" by (intro image_eqI [of _ _ "(y - y0, x - x0)"]) auto
  qed auto
  ultimately show ?thesis by (simp add: fold_nested)
qed

end

section \<open>Pixels\<close>

text \<open>Rows do not overlap and the whole picture is addressed without wrapping 32 bits.\<close>

definition fb_w :: "multiboot2_tag_framebuffer \<Rightarrow> nat" where "fb_w fb = unat (fb_width fb)"
definition fb_h :: "multiboot2_tag_framebuffer \<Rightarrow> nat" where "fb_h fb = unat (fb_height fb)"

definition fb_ok :: "multiboot2_tag_framebuffer \<Rightarrow> bool" where
  "fb_ok fb \<longleftrightarrow> 4 * fb_w fb \<le> unat (fb_pitch fb) \<and> unat (fb_pitch fb) * fb_h fb < 2 ^ 32"

text \<open>Three byte-wide channels that do not overlap.\<close>

definition color_ok :: "color_type \<Rightarrow> bool" where
  "color_ok c \<longleftrightarrow>
     (let r = unat (red_position c); g = unat (green_position c); b = unat (blue_position c)
      in r \<le> 24 \<and> g \<le> 24 \<and> b \<le> 24 \<and> (r + 8 \<le> g \<or> g + 8 \<le> r) \<and> (r + 8 \<le> b \<or> b + 8 \<le> r) \<and> (g + 8 \<le> b \<or> b + 8 \<le> g))"

definition fb_get :: "multiboot2_tag_framebuffer \<Rightarrow> mem \<Rightarrow> nat \<times> nat \<Rightarrow> u32" where
  "fb_get fb m c = load32 m (pixel fb (of_nat (fst c)) (of_nat (snd c)))"

definition fb_put :: "multiboot2_tag_framebuffer \<Rightarrow> nat \<Rightarrow> nat \<Rightarrow> u32 \<Rightarrow> mem \<Rightarrow> mem" where
  "fb_put fb x y v m = store32 m (pixel fb (of_nat x) (of_nat y)) v"

definition in_fb :: "multiboot2_tag_framebuffer \<Rightarrow> u64 \<Rightarrow> bool" where
  "in_fb fb a \<longleftrightarrow> unat (a - fb_addr fb) < unat (fb_pitch fb) * fb_h fb"

lemma ucast_of_nat_small: "k < 2 ^ 32 \<Longrightarrow> (ucast (of_nat k :: u32) :: u64) = of_nat k"
  by (simp add: unsigned_of_nat take_bit_nat_eq_self)

lemma pixel_bounds:
  assumes "fb_ok fb" and "x < fb_w fb" and "y < fb_h fb"
  shows "y * unat (fb_pitch fb) + 4 * x + 4 \<le> unat (fb_pitch fb) * fb_h fb" and "y * unat (fb_pitch fb) + 4 * x + 4 \<le> 2 ^ 32"
proof -
  have "y * unat (fb_pitch fb) + unat (fb_pitch fb) \<le> unat (fb_pitch fb) * fb_h fb"
    using assms(3) mult_le_mono2 [of "Suc y" "fb_h fb" "unat (fb_pitch fb)"] by (simp add: mult.commute)
  moreover have "4 * x + 4 \<le> unat (fb_pitch fb)" using assms(1,2) by (simp add: fb_ok_def)
  ultimately show "y * unat (fb_pitch fb) + 4 * x + 4 \<le> unat (fb_pitch fb) * fb_h fb" by linarith
  then show "y * unat (fb_pitch fb) + 4 * x + 4 \<le> 2 ^ 32" using assms(1) by (simp add: fb_ok_def)
qed

lemma pixel_offset:
  assumes "fb_ok fb" and "x < fb_w fb" and "y < fb_h fb"
  shows "pixel fb (of_nat x) (of_nat y) = fb_addr fb + of_nat (y * unat (fb_pitch fb) + 4 * x)"
proof -
  note b = pixel_bounds [OF assms]
  have "(of_nat y :: u32) * fb_pitch fb = of_nat (y * unat (fb_pitch fb))" "(of_nat x :: u32) * 4 = of_nat (4 * x)"
    by simp_all
  moreover have "y * unat (fb_pitch fb) < 2 ^ 32" "4 * x < 2 ^ 32" using b(2) by linarith+
  ultimately show ?thesis
    unfolding pixel_def by (simp only: ucast_of_nat_small of_nat_add add.assoc)
qed

lemma pixels_apart:
  assumes "fb_ok fb" and "x < fb_w fb" "y < fb_h fb" "x' < fb_w fb" "y' < fb_h fb" and "x \<noteq> x' \<or> y \<noteq> y'"
  shows "apart 4 (pixel fb (of_nat x) (of_nat y)) (pixel fb (of_nat x') (of_nat y'))"
proof -
  let ?p = "unat (fb_pitch fb)"
  have row: "z * ?p + 4 * a + 4 \<le> z' * ?p + 4 * a'" if "z < z'" "a < fb_w fb" for z z' a a'
  proof -
    have "z * ?p + ?p \<le> z' * ?p" using that(1) mult_le_mono1 [of "Suc z" z' ?p] by simp
    moreover have "4 * a + 4 \<le> ?p" using assms(1) that(2) by (simp add: fb_ok_def)
    ultimately show ?thesis by linarith
  qed
  have "y * ?p + 4 * x + 4 \<le> y' * ?p + 4 * x' \<or> y' * ?p + 4 * x' + 4 \<le> y * ?p + 4 * x"
  proof (cases y y' rule: linorder_cases)
    case less
    then show ?thesis using row [of y y' x x'] assms(2) by blast
  next
    case equal
    then have "x < x' \<or> x' < x" using assms(6) by auto
    with equal show ?thesis by auto
  next
    case greater
    then show ?thesis using row [of y' y x' x] assms(4) by blast
  qed
  then show ?thesis
    using pixel_bounds(2) [OF assms(1-3)] pixel_bounds(2) [OF assms(1,4,5)]
    unfolding pixel_offset [OF assms(1-3)] pixel_offset [OF assms(1,4,5)] by (intro apart_offsets) auto
qed

interpretation fbg: pixel_grid fb_ok fb_w fb_h fb_get fb_put
proof unfold_locales
  fix fb x y x' y' v m
  assume "fb_ok fb" "x < fb_w fb" "y < fb_h fb" "x' < fb_w fb" "y' < fb_h fb"
  then show "fb_get fb (fb_put fb x y v m) (x', y') = (if x' = x \<and> y' = y then v else fb_get fb m (x', y'))"
    using pixels_apart [of fb x y x' y'] by (auto simp: fb_get_def fb_put_def m32.load_store_same m32.load_store_apart)
qed

lemma fb_put_outside:
  assumes "fb_ok fb" and "x < fb_w fb" and "y < fb_h fb" and "\<not> in_fb fb a"
  shows "fb_put fb x y v m a = m a"
proof -
  let ?k = "y * unat (fb_pitch fb) + 4 * x" and ?j = "unat (a - fb_addr fb)"
  have k: "unat (of_nat ?k :: u64) = ?k" using pixel_bounds(2) [OF assms(1-3)] by (intro unat_of_nat_small) simp
  have j: "?k + 4 \<le> ?j" using assms(4) pixel_bounds(1) [OF assms(1-3)] by (simp add: in_fb_def)
  have "unat ((a - fb_addr fb) - of_nat ?k) = ?j - ?k"
    using j k by (subst unat_sub) (simp_all only: word_le_nat_alt)
  then have "4 \<le> unat (a - (fb_addr fb + of_nat ?k))" using j by (simp only: diff_diff_eq)
  then show ?thesis
    unfolding fb_put_def pixel_offset [OF assms(1-3)] by (rule m32.store_byte_other)
qed

section \<open>Colours\<close>

lemma byte_mask: "(0xFF :: u32) = mask 8"
  by (simp add: mask_eq_exp_minus_1)

lemma bit_rgb: "bit (FRAMEBUFFER_RGB r g b) i \<longleftrightarrow>
    (if i < 8 then bit b i else if i < 16 then bit g (i - 8) else i < 24 \<and> bit r (i - 16))"
proof -
  have "\<not> bit (x :: u8) i" if "8 \<le> i" for x i using that bit_imp_le_length [of x i] by auto
  then show ?thesis unfolding FRAMEBUFFER_RGB_def by (cases "i < 24") (auto simp: bit_simps)
qed

lemma channel_read:
  assumes "p \<le> 24" and "\<And>i. i < 8 \<Longrightarrow> bit v (p + i) \<longleftrightarrow> bit (c :: u8) i"
  shows "ucast (drop_bit p (v :: u32) AND 0xFF) = c"
  using assms unfolding byte_mask by (intro bit_word_eqI) (auto simp: bit_simps)

lemma bit_pack_color:
  assumes "i < 32"
  shows "bit (pack_color fb c) i \<longleftrightarrow>
    unat (red_position (fb_color fb)) \<le> i \<and> bit (FRAMEBUFFER_RGB_RED c) (i - unat (red_position (fb_color fb))) \<or>
    unat (green_position (fb_color fb)) \<le> i \<and> bit (FRAMEBUFFER_RGB_GREEN c) (i - unat (green_position (fb_color fb))) \<or>
    unat (blue_position (fb_color fb)) \<le> i \<and> bit (FRAMEBUFFER_RGB_BLUE c) (i - unat (blue_position (fb_color fb)))"
  using assms unfolding pack_color_def by (auto simp: bit_simps)

lemma unpack_pack:
  assumes "color_ok (fb_color fb)"
  shows "ucast (drop_bit (unat (red_position (fb_color fb))) (pack_color fb c) AND 0xFF) = FRAMEBUFFER_RGB_RED c"
    and "ucast (drop_bit (unat (green_position (fb_color fb))) (pack_color fb c) AND 0xFF) = FRAMEBUFFER_RGB_GREEN c"
    and "ucast (drop_bit (unat (blue_position (fb_color fb))) (pack_color fb c) AND 0xFF) = FRAMEBUFFER_RGB_BLUE c"
proof -
  have far: "\<not> bit (x :: u8) i" if "8 \<le> i" for x i using that bit_imp_le_length [of x i] by auto
  show "ucast (drop_bit (unat (red_position (fb_color fb))) (pack_color fb c) AND 0xFF) = FRAMEBUFFER_RGB_RED c"
    using assms by (intro channel_read) (auto simp: bit_pack_color color_ok_def Let_def far)
  show "ucast (drop_bit (unat (green_position (fb_color fb))) (pack_color fb c) AND 0xFF) = FRAMEBUFFER_RGB_GREEN c"
    using assms by (intro channel_read) (auto simp: bit_pack_color color_ok_def Let_def far)
  show "ucast (drop_bit (unat (blue_position (fb_color fb))) (pack_color fb c) AND 0xFF) = FRAMEBUFFER_RGB_BLUE c"
    using assms by (intro channel_read) (auto simp: bit_pack_color color_ok_def Let_def far)
qed

lemma rgb_channels: "FRAMEBUFFER_RGB (FRAMEBUFFER_RGB_RED c) (FRAMEBUFFER_RGB_GREEN c) (FRAMEBUFFER_RGB_BLUE c) = c AND 0xFFFFFF"
proof -
  have m: "(0xFFFFFF :: u32) = mask 24" by (simp add: mask_eq_exp_minus_1)
  show ?thesis
    unfolding m by (rule bit_word_eqI)
      (auto simp: bit_rgb FRAMEBUFFER_RGB_RED_def FRAMEBUFFER_RGB_GREEN_def FRAMEBUFFER_RGB_BLUE_def byte_mask bit_simps)
qed

lemma framebuffer_write_put: "framebuffer_write fb c (of_nat x) (of_nat y) m = fb_put fb x y (pack_color fb c) m"
  by (simp add: framebuffer_write_def fb_put_def)

section \<open>Scrolling\<close>

lemma scroll_pixel_put:
  assumes "y < fb_h fb" and "fb_h fb + unat scale < 2 ^ 32"
  shows "scroll_pixel fb scale e (of_nat y) (of_nat x) m =
    fb_put fb x y (fbg.shifted fb (unat scale) (pack_color fb e) m x y) m"
proof -
  have u: "(of_nat y :: u32) + scale = of_nat (y + unat scale)" by simp
  have "unat (of_nat (y + unat scale) :: u32) = y + unat scale" using assms by (intro unat_of_nat_small) simp
  then have "fb_height fb \<le> of_nat y + scale \<longleftrightarrow> fb_h fb \<le> y + unat scale"
    unfolding u fb_h_def by (simp only: word_le_nat_alt)
  then show ?thesis
    by (auto simp: scroll_pixel_def framebuffer_write_put fbg.shifted_def fb_put_def fb_get_def u [symmetric])
qed

lemma scroll_up_get:
  assumes "fb_ok fb" and "fb_h fb + unat scale < 2 ^ 32" and "x < fb_w fb" and "y < fb_h fb"
  shows "fb_get fb (framebuffer_scroll_up fb scale e m) (x, y) =
    (if y + unat scale < fb_h fb then fb_get fb m (x, y + unat scale) else pack_color fb e)"
  using fbg.scroll_loop [OF assms(1,3,4), of "\<lambda>y x. scroll_pixel fb scale e (of_nat y) (of_nat x)" "unat scale" "pack_color fb e" m]
    scroll_pixel_put [OF _ assms(2)]
  by (simp add: framebuffer_scroll_up_def scroll_row_def [abs_def] fb_w_def [symmetric] fb_h_def [symmetric] fbg.shifted_def)

lemma fold_outside:
  assumes "\<And>i m. i \<in> set is \<Longrightarrow> st i m a = m a"
  shows "fold st is m a = (m :: 'a \<Rightarrow> 'b) a"
  using assms by (induction "is" arbitrary: m) auto

lemma scroll_up_outside:
  assumes "fb_ok fb" and "fb_h fb + unat scale < 2 ^ 32" and "\<not> in_fb fb a"
  shows "framebuffer_scroll_up fb scale e m a = m a"
  unfolding framebuffer_scroll_up_def scroll_row_def
proof (intro fold_outside)
  fix y x m assume "y \<in> set [0..<unat (fb_height fb)]" and "x \<in> set [0..<unat (fb_width fb)]"
  then show "scroll_pixel fb scale e (of_nat y) (of_nat x) m a = m a"
    using assms by (simp add: scroll_pixel_put fb_put_outside fb_w_def fb_h_def)
qed

section \<open>Properties of framebuffer.c\<close>

text \<open>Reading back: on a framebuffer whose rows and colour channels do not overlap, \<open>framebuffer_read\<close> after
  \<open>framebuffer_write\<close> gives the colour written (its 24 colour bits) at that pixel and leaves every other pixel as it was,
  and the write touches no byte outside the framebuffer.\<close>

lemma framebuffer_write_read:
  assumes "fb_ok fb" and "color_ok (fb_color fb)" and "x < fb_w fb" and "y < fb_h fb" and "x' < fb_w fb" and "y' < fb_h fb"
  shows "framebuffer_read fb (of_nat x') (of_nat y') (framebuffer_write fb color (of_nat x) (of_nat y) m) =
      (if x' = x \<and> y' = y then color AND 0xFFFFFF else framebuffer_read fb (of_nat x') (of_nat y') m) \<and>
    (\<forall>a. \<not> in_fb fb a \<longrightarrow> framebuffer_write fb color (of_nat x) (of_nat y) m a = m a)"
proof -
  have "framebuffer_read fb (of_nat x') (of_nat y') mm =
      FRAMEBUFFER_RGB (ucast (drop_bit (unat (red_position (fb_color fb))) (fb_get fb mm (x', y')) AND 0xFF))
        (ucast (drop_bit (unat (green_position (fb_color fb))) (fb_get fb mm (x', y')) AND 0xFF))
        (ucast (drop_bit (unat (blue_position (fb_color fb))) (fb_get fb mm (x', y')) AND 0xFF))" for mm
    by (simp add: framebuffer_read_def fb_get_def Let_def)
  then show ?thesis
    using assms by (simp add: framebuffer_write_put fbg.get_put unpack_pack rgb_channels fb_put_outside)
qed

text \<open>A 16 by 16 picture with the channels of a PC framebuffer.\<close>

definition demo_fb :: multiboot2_tag_framebuffer where
  "demo_fb = \<lparr>fb_header = \<lparr>tag_type = 8, tag_size = 38\<rparr>, fb_addr = 0xFD000000, fb_pitch = 64, fb_width = 16, fb_height = 16,
     fb_bpp = 32, fb_type = 1, fb_reserved = 0,
     fb_color = \<lparr>red_position = 16, red_mask = 8, green_position = 8, green_mask = 8, blue_position = 0, blue_mask = 8\<rparr>\<rparr>"

lemma demo_fb_ok: "fb_ok demo_fb" "color_ok (fb_color demo_fb)" "fb_w demo_fb = 16" "fb_h demo_fb = 16"
  by (simp_all add: fb_ok_def color_ok_def fb_w_def fb_h_def demo_fb_def)

text \<open>C31. On a framebuffer of less than 4 GiB whose rows hold their 4-byte pixels, and with no overflow of height and \<open>scale\<close>, \<open>framebuffer_scroll_up\<close>, which copies in place from the top, moves the whole picture up by \<open>scale\<close> rows: every
  pixel gets the old value of the pixel \<open>scale\<close> rows below, the rows that have none are filled, and no byte outside the
  framebuffer changes.\<close>

theorem framebuffer_scroll_up_correct:
  assumes "fb_ok fb" and "fb_h fb + unat scale < 2 ^ 32" and "x < fb_w fb" and "y < fb_h fb"
  shows "load32 (framebuffer_scroll_up fb scale fill m) (pixel fb (of_nat x) (of_nat y)) =
      (if y + unat scale < fb_h fb then load32 m (pixel fb (of_nat x) (of_nat (y + unat scale))) else pack_color fb fill) \<and>
    (\<forall>a. \<not> in_fb fb a \<longrightarrow> framebuffer_scroll_up fb scale fill m a = m a)"
  using scroll_up_get [OF assms] scroll_up_outside [OF assms(1,2)] by (simp add: fb_get_def)

theorem framebuffer_scroll_up_correct_witness:
  "load32 (framebuffer_scroll_up demo_fb 8 0xFF (\<lambda>a. ucast a)) (pixel demo_fb 1 2) = load32 (\<lambda>a. ucast a) (pixel demo_fb 1 10) \<and>
   load32 (framebuffer_scroll_up demo_fb 8 0xFF (\<lambda>a. ucast a)) (pixel demo_fb 1 12) = 0xFF"
proof -
  have "pack_color demo_fb 0xFF = 0xFF"
    by (simp add: pack_color_def demo_fb_def FRAMEBUFFER_RGB_RED_def FRAMEBUFFER_RGB_GREEN_def FRAMEBUFFER_RGB_BLUE_def)
  then show ?thesis
    using framebuffer_scroll_up_correct [OF demo_fb_ok(1), of 8 1 2 "0xFF" "\<lambda>a. ucast a"]
      framebuffer_scroll_up_correct [OF demo_fb_ok(1), of 8 1 12 "0xFF" "\<lambda>a. ucast a"]
    by (simp add: demo_fb_ok(3,4))
qed

end
