(* ===== verification/Fbcon_Spec.thy ===== *)
theory Fbcon_Spec
  imports Fbcon Framebuffer_Spec
begin

text \<open>
  The console refines an ideal terminal: a cursor and a grid of cells, each with a character or with unknown content (\<open>None\<close>, such as
  the picture the boot loader left). \<open>term_write\<close> says what the terminal does with each character; \<open>displays\<close> says that the
  pixels of every cell with a character are its glyph in the console's two colours.
\<close>

section \<open>The ideal terminal\<close>

record terminal =
  t_x :: nat
  t_y :: nat
  t_cell :: "nat \<Rightarrow> nat \<Rightarrow> char option"

text \<open>Scrolling by one line of a terminal of \<open>rows\<close> lines.\<close>

definition t_scroll :: "nat \<Rightarrow> terminal \<Rightarrow> terminal" where
  "t_scroll rows t = t\<lparr>t_cell := \<lambda>x y. if y + 1 < rows then t_cell t x (y + 1) else Some CHR '' ''\<rparr>"

definition t_wrap :: "nat \<Rightarrow> nat \<Rightarrow> terminal \<Rightarrow> terminal" where
  "t_wrap cols rows t =
     (let t1 = (if cols \<le> t_x t then t\<lparr>t_x := 0, t_y := t_y t + 1\<rparr> else t)
      in if rows \<le> t_y t1 then t_scroll rows (t1\<lparr>t_y := t_y t1 - 1\<rparr>) else t1)"

definition t_put :: "char \<Rightarrow> terminal \<Rightarrow> terminal" where
  "t_put c t = t\<lparr>t_cell := (t_cell t)(t_x t := (t_cell t (t_x t))(t_y t := Some c)), t_x := t_x t + 1\<rparr>"

definition t_newline :: "terminal \<Rightarrow> terminal" where
  "t_newline t = t\<lparr>t_x := 0, t_y := t_y t + 1\<rparr>"

text \<open>A tab is four spaces.\<close>

fun t_char :: "nat \<Rightarrow> nat \<Rightarrow> char \<Rightarrow> terminal \<Rightarrow> terminal" where
  "t_char cols rows c t =
     (if c = CHR 0x0A then t_wrap cols rows (t_newline t)
      else if c = CHR 0x09 then ((t_wrap cols rows \<circ> t_put CHR '' '') ^^ 4) t
      else t_wrap cols rows (t_put c t))"

definition term_write :: "nat \<Rightarrow> nat \<Rightarrow> string \<Rightarrow> terminal \<Rightarrow> terminal" where
  "term_write cols rows s t = fold (t_char cols rows) s t"

definition t_ok :: "nat \<Rightarrow> nat \<Rightarrow> terminal \<Rightarrow> bool" where
  "t_ok cols rows t \<longleftrightarrow> t_x t < cols \<and> t_y t < rows"

section \<open>What the pixels show\<close>

definition glyph_color :: "fbcon \<Rightarrow> char \<Rightarrow> nat \<Rightarrow> nat \<Rightarrow> u32" where
  "glyph_color f c row col =
     (if font8x8_basic ! of_char c ! row AND push_bit col 1 \<noteq> 0 then fbcon_foreground f else fbcon_background f)"

definition displays :: "multiboot2_tag_framebuffer \<Rightarrow> fbcon \<Rightarrow> mem \<Rightarrow> (nat \<Rightarrow> nat \<Rightarrow> char option) \<Rightarrow> bool" where
  "displays fb f m cell \<longleftrightarrow>
     (\<forall>x < 8 * unat (fbcon_cx f). \<forall>y < 8 * unat (fbcon_cy f). \<forall>c. cell (x div 8) (y div 8) = Some c \<longrightarrow>
        fb_get fb m (x, y) = pack_color fb (glyph_color f c (y mod 8) (x mod 8)))"

text \<open>A console on a framebuffer whose height is a whole number of text lines.\<close>

definition fbcon_ok :: "multiboot2_tag_framebuffer \<Rightarrow> fbcon \<Rightarrow> bool" where
  "fbcon_ok fb f \<longleftrightarrow> fb_ok fb \<and> fbcon_text_cx f = 8 \<and> fbcon_text_cy f = 8 \<and>
     8 * unat (fbcon_cx f) \<le> fb_w fb \<and> fb_h fb = 8 * unat (fbcon_cy f) \<and> fb_h fb + 8 < 2 ^ 32"

text \<open>The console with its cursor at the given text position.\<close>

definition cursor_at :: "nat \<Rightarrow> nat \<Rightarrow> fbcon \<Rightarrow> fbcon" where
  "cursor_at x y f = f\<lparr>fbcon_x := of_nat x, fbcon_y := of_nat y\<rparr>"

lemma cursor_simps [simp]:
  "fbcon_x (cursor_at x y f) = of_nat x" "fbcon_y (cursor_at x y f) = of_nat y"
  "fbcon_cx (cursor_at x y f) = fbcon_cx f" "fbcon_cy (cursor_at x y f) = fbcon_cy f"
  "fbcon_text_cx (cursor_at x y f) = fbcon_text_cx f" "fbcon_text_cy (cursor_at x y f) = fbcon_text_cy f"
  "fbcon_foreground (cursor_at x y f) = fbcon_foreground f" "fbcon_background (cursor_at x y f) = fbcon_background f"
  "(cursor_at x y f)\<lparr>fbcon_x := of_nat x', fbcon_y := of_nat y'\<rparr> = cursor_at x' y' f"
  "(cursor_at x y f)\<lparr>fbcon_x := of_nat x'\<rparr> = cursor_at x' y f"
  "(cursor_at x y f)\<lparr>fbcon_y := of_nat y'\<rparr> = cursor_at x y' f"
  by (simp_all add: cursor_at_def)

lemma cursor_ok [simp]:
  "fbcon_ok fb (cursor_at x y f) = fbcon_ok fb f" "glyph_color (cursor_at x y f) = glyph_color f"
  "displays fb (cursor_at x y f) m = displays fb f m"
  by (simp_all add: fbcon_ok_def glyph_color_def displays_def fun_eq_iff)

lemma pixel_cell: "8 * a \<le> (x :: nat) \<and> x < 8 * a + 8 \<longleftrightarrow> x div 8 = a" "x div 8 = a \<Longrightarrow> x - 8 * a = x mod 8"
  by (auto simp: minus_mult_div_eq_mod)

text \<open>What is displayed depends on the bytes of the framebuffer only.\<close>

lemma fb_get_cong:
  assumes "fb_ok fb" and "x < fb_w fb" and "y < fb_h fb" and "\<And>p. in_fb fb p \<Longrightarrow> m' p = m p"
  shows "fb_get fb m' (x, y) = fb_get fb m (x, y)"
proof -
  define k where "k = y * unat (fb_pitch fb) + 4 * x"
  have b: "k + 4 \<le> unat (fb_pitch fb) * fb_h fb" "k + 4 \<le> 2 ^ 32" using pixel_bounds [OF assms(1-3)] by (simp_all add: k_def)
  have "load32 m' (fb_addr fb + of_nat k) = load32 m (fb_addr fb + of_nat k)"
  proof (rule load_word_eqI)
    fix p assume p: "unat (p - (fb_addr fb + of_nat k)) < LENGTH(32) div 8"
    define j where "j = unat (p - (fb_addr fb + of_nat k))"
    have "p - fb_addr fb = of_nat (k + j)" by (simp add: j_def)
    then have "unat (p - fb_addr fb) = k + j" using p b(2) by (simp add: j_def [symmetric] unat_of_nat_small del: of_nat_add)
    then show "m' p = m p" using p b(1) by (intro assms(4)) (simp add: in_fb_def j_def)
  qed simp_all
  then show ?thesis unfolding fb_get_def by (simp add: pixel_offset [OF assms(1-3)] k_def)
qed

lemma displays_cong:
  assumes "fbcon_ok fb f" and "displays fb f m cell" and "\<And>p. in_fb fb p \<Longrightarrow> m' p = m p"
  shows "displays fb f m' cell"
proof -
  have "fb_get fb m' (x, y) = fb_get fb m (x, y)" if "x < 8 * unat (fbcon_cx f)" "y < 8 * unat (fbcon_cy f)" for x y
    using assms(1,3) that by (intro fb_get_cong) (auto simp: fbcon_ok_def)
  then show ?thesis using assms(2) by (simp add: displays_def)
qed

text \<open>The cursor stays on the screen.\<close>

lemma t_wrap_put_ok: "t_ok cols rows t \<Longrightarrow> t_ok cols rows (t_wrap cols rows (t_put c t))"
  by (auto simp: t_ok_def t_wrap_def t_put_def t_scroll_def Let_def)

lemma t_char_ok: "t_ok cols rows t \<Longrightarrow> t_ok cols rows (t_char cols rows c t)"
proof -
  assume t: "t_ok cols rows t"
  then have "t_ok cols rows (t_wrap cols rows (t_newline t))" by (auto simp: t_ok_def t_wrap_def t_newline_def t_scroll_def Let_def)
  moreover have "t_ok cols rows (((t_wrap cols rows \<circ> t_put d) ^^ n) t)" for d n by (induction n) (simp_all add: t t_wrap_put_ok)
  ultimately show ?thesis using t by (simp add: t_wrap_put_ok)
qed

lemma term_write_ok: "t_ok cols rows t \<Longrightarrow> t_ok cols rows (term_write cols rows s t)"
  unfolding term_write_def by (induction s arbitrary: t) (auto intro: t_char_ok simp del: t_char.simps)

section \<open>Drawing a character\<close>

lemma draw_pixel_put:
  "draw_pixel fb f (font8x8_basic ! of_char c) (of_nat (8 * a)) (of_nat (8 * b)) row col m =
     (let m1 = fb_put fb (8 * a + col) (8 * b + row) (pack_color fb (fbcon_background f)) m
      in if font8x8_basic ! of_char c ! row AND push_bit col 1 \<noteq> 0
         then fb_put fb (8 * a + col) (8 * b + row) (pack_color fb (fbcon_foreground f)) m1 else m1)"
proof -
  have "(of_nat (8 * a) :: u32) + of_nat col = of_nat (8 * a + col)" "(of_nat (8 * b) :: u32) + of_nat row = of_nat (8 * b + row)"
    by simp_all
  then show ?thesis unfolding draw_pixel_def by (simp only: framebuffer_write_put)
qed

lemma fbcon_draw_ch_get:
  assumes ok: "fbcon_ok fb f" and c: "of_char c < (128 :: nat)" and t: "a < unat (fbcon_cx f)" "b < unat (fbcon_cy f)"
  obtains m' where "fbcon_draw_ch fb c (of_nat (8 * a)) (of_nat (8 * b)) f m = Inr m'"
    and "\<forall>x < fb_w fb. \<forall>y < fb_h fb. fb_get fb m' (x, y) =
      (if x div 8 = a \<and> y div 8 = b then pack_color fb (glyph_color f c (y mod 8) (x mod 8)) else fb_get fb m (x, y))"
    and "\<forall>p. \<not> in_fb fb p \<longrightarrow> m' p = m p"
proof -
  let ?st = "draw_pixel fb f (font8x8_basic ! of_char c) (of_nat (8 * a)) (of_nat (8 * b))"
  define m' where "m' = fold (\<lambda>row. fold (?st row) [0..<8]) [0..<8] m"
  have fb: "fb_ok fb" and fit: "8 * a + 8 \<le> fb_w fb" "8 * b + 8 \<le> fb_h fb" using ok t by (auto simp: fbcon_ok_def)
  have st: "fb_get fb (?st row col m) (x, y) =
      (if x = 8 * a + col \<and> y = 8 * b + row then pack_color fb (glyph_color f c row col) else fb_get fb m (x, y))"
    if "row < 8" "col < 8" "x < fb_w fb" "y < fb_h fb" for row col m x y
    using that fit unfolding draw_pixel_put Let_def by (simp add: fbg.get_put fb glyph_color_def)
  have "fbcon_draw_ch fb c (of_nat (8 * a)) (of_nat (8 * b)) f m = Inr m'"
    using c by (simp add: fbcon_draw_ch_def font_size m'_def del: upt_rec_numeral of_nat_mult)
  moreover have "fb_get fb m' (x, y) =
      (if x div 8 = a \<and> y div 8 = b then pack_color fb (glyph_color f c (y mod 8) (x mod 8)) else fb_get fb m (x, y))"
    if "x < fb_w fb" "y < fb_h fb" for x y
    using fbg.draw_loop [OF fb fit that, of ?st "\<lambda>row col. pack_color fb (glyph_color f c row col)" m] st
      pixel_cell(1) [of a x] pixel_cell(1) [of b y] pixel_cell(2) [of x a] pixel_cell(2) [of y b]
    unfolding m'_def by auto
  moreover have "m' p = m p" if "\<not> in_fb fb p" for p
    unfolding m'_def
  proof (intro fold_outside)
    fix row col m assume "row \<in> set [0..<8]" "col \<in> set [0..<8]"
    then show "?st row col m p = m p"
      using that fit fb unfolding draw_pixel_put Let_def by (simp add: fb_put_outside)
  qed
  ultimately show thesis using that by blast
qed

lemma draw_displays:
  assumes ok: "fbcon_ok fb f" and c: "of_char c < (128 :: nat)" and t: "a < unat (fbcon_cx f)" "b < unat (fbcon_cy f)"
    and d: "displays fb f m g"
  obtains m' where "fbcon_draw_ch fb c (of_nat a * fbcon_text_cx f) (of_nat b * fbcon_text_cy f) f m = Inr m'"
    and "displays fb f m' (g(a := (g a)(b := Some c)))" and "\<forall>p. \<not> in_fb fb p \<longrightarrow> m' p = m p"
proof -
  obtain m' where m': "fbcon_draw_ch fb c (of_nat (8 * a)) (of_nat (8 * b)) f m = Inr m'"
      "\<forall>x < fb_w fb. \<forall>y < fb_h fb. fb_get fb m' (x, y) =
        (if x div 8 = a \<and> y div 8 = b then pack_color fb (glyph_color f c (y mod 8) (x mod 8)) else fb_get fb m (x, y))"
      "\<forall>p. \<not> in_fb fb p \<longrightarrow> m' p = m p"
    by (rule fbcon_draw_ch_get [OF ok c t])
  have "(of_nat a :: u32) * fbcon_text_cx f = of_nat (8 * a)" "(of_nat b :: u32) * fbcon_text_cy f = of_nat (8 * b)"
    using ok by (simp_all add: fbcon_ok_def mult.commute)
  moreover have "displays fb f m' (g(a := (g a)(b := Some c)))"
    using ok d m'(2) by (auto simp: displays_def fbcon_ok_def)
  ultimately show thesis using that m'(1,3) by simp
qed

section \<open>Scrolling and wrapping\<close>

lemma space_blank: "glyph_color f CHR '' '' row col = fbcon_background f" if "row < 8"
proof -
  have "font8x8_basic ! 32 = replicate 8 0" by (simp add: font8x8_basic_def eval_nat_numeral)
  with that show ?thesis by (simp add: glyph_color_def)
qed

lemma scroll_displays:
  assumes ok: "fbcon_ok fb f" and d: "displays fb f m g"
  shows "displays fb f (fbcon_scroll_up fb f m) (\<lambda>x y. if y + 1 < unat (fbcon_cy f) then g x (y + 1) else Some CHR '' '')"
    and "\<not> in_fb fb p \<Longrightarrow> fbcon_scroll_up fb f m p = m p"
proof -
  have fb: "fb_ok fb" "fbcon_text_cy f = 8" "8 * unat (fbcon_cx f) \<le> fb_w fb" "fb_h fb = 8 * unat (fbcon_cy f)" "fb_h fb + unat (8 :: u32) < 2 ^ 32"
    using ok by (auto simp: fbcon_ok_def)
  show "\<not> in_fb fb p \<Longrightarrow> fbcon_scroll_up fb f m p = m p"
    using scroll_up_outside [OF fb(1,5)] by (simp add: fbcon_scroll_up_def fb(2))
  show "displays fb f (fbcon_scroll_up fb f m) (\<lambda>x y. if y + 1 < unat (fbcon_cy f) then g x (y + 1) else Some CHR '' '')"
    unfolding displays_def
  proof (intro allI impI)
    fix x y c assume x: "x < 8 * unat (fbcon_cx f)" and y: "y < 8 * unat (fbcon_cy f)"
      and c: "(if y div 8 + 1 < unat (fbcon_cy f) then g (x div 8) (y div 8 + 1) else Some CHR '' '') = Some c"
    have s: "fb_get fb (fbcon_scroll_up fb f m) (x, y) =
        (if y + 8 < fb_h fb then fb_get fb m (x, y + 8) else pack_color fb (fbcon_background f))"
      using scroll_up_get [OF fb(1,5), of x y] x y fb(3,4) by (simp add: fbcon_scroll_up_def fb(2))
    have "y + 8 < fb_h fb \<longleftrightarrow> y div 8 + 1 < unat (fbcon_cy f)" using y fb(4) by auto
    moreover have "(y + 8) div 8 = y div 8 + 1" "(y + 8) mod 8 = y mod 8" by simp_all
    ultimately show "fb_get fb (fbcon_scroll_up fb f m) (x, y) = pack_color fb (glyph_color f c (y mod 8) (x mod 8))"
      unfolding s using d x fb(4) c by (auto simp: displays_def space_blank split: if_splits)
  qed
qed

text \<open>Positions a character can leave the cursor at, before the checks.\<close>

definition t_pre :: "nat \<Rightarrow> nat \<Rightarrow> terminal \<Rightarrow> bool" where
  "t_pre cols rows t \<longleftrightarrow> t_x t \<le> cols \<and> t_y t \<le> rows \<and> (t_x t < cols \<or> t_y t < rows) \<and> 0 < cols \<and> 0 < rows"

lemma of_nat_ge_unat: "n < 2 ^ 32 \<Longrightarrow> (w :: u32) \<le> of_nat n \<longleftrightarrow> unat w \<le> n"
  using unat_of_nat_small [of n, where 'a = 32] by (simp add: word_le_nat_alt)

lemma wrap_displays:
  assumes ok: "fbcon_ok fb f" and d: "displays fb f m (t_cell t)" and pre: "t_pre (unat (fbcon_cx f)) (unat (fbcon_cy f)) t"
  obtains m' where
    "fbcon_wrap fb (cursor_at (t_x t) (t_y t) f) m =
      (cursor_at (t_x (t_wrap (unat (fbcon_cx f)) (unat (fbcon_cy f)) t)) (t_y (t_wrap (unat (fbcon_cx f)) (unat (fbcon_cy f)) t)) f, m')"
    and "t_ok (unat (fbcon_cx f)) (unat (fbcon_cy f)) (t_wrap (unat (fbcon_cx f)) (unat (fbcon_cy f)) t)"
    and "displays fb f m' (t_cell (t_wrap (unat (fbcon_cx f)) (unat (fbcon_cy f)) t))" and "\<forall>p. \<not> in_fb fb p \<longrightarrow> m' p = m p"
proof -
  let ?c = "unat (fbcon_cx f)" and ?r = "unat (fbcon_cy f)"
  have lim: "?c < 2 ^ 32" "?r + 1 < 2 ^ 32" using ok unsigned_less [of "fbcon_cx f", where 'a = nat] by (auto simp: fbcon_ok_def)
  define t1 where "t1 = (if ?c \<le> t_x t then t\<lparr>t_x := 0, t_y := t_y t + 1\<rparr> else t)"
  have t1: "t_cell t1 = t_cell t" "t_x t1 < ?c" "t_y t1 \<le> ?r" using pre by (auto simp: t1_def t_pre_def)
  have f1: "(if fbcon_x (cursor_at (t_x t) (t_y t) f) \<ge> fbcon_cx (cursor_at (t_x t) (t_y t) f)
      then (cursor_at (t_x t) (t_y t) f)\<lparr>fbcon_x := 0, fbcon_y := fbcon_y (cursor_at (t_x t) (t_y t) f) + 1\<rparr>
      else cursor_at (t_x t) (t_y t) f) = cursor_at (t_x t1) (t_y t1) f"
    using pre lim of_nat_ge_unat [of "t_x t" "fbcon_cx f"] by (auto simp: t1_def cursor_at_def t_pre_def add.commute)
  have ge: "fbcon_cy f \<le> of_nat (t_y t1) \<longleftrightarrow> ?r \<le> t_y t1" using t1(3) lim by (intro of_nat_ge_unat) linarith
  note w = fbcon_wrap_def [of fb "cursor_at (t_x t) (t_y t) f" m, unfolded f1 Let_def] t_wrap_def [of ?c ?r t, folded t1_def, unfolded Let_def]
  show thesis
  proof (cases "?r \<le> t_y t1")
    case True
    have y: "(of_nat (t_y t1) :: u32) - 1 = of_nat (t_y t1 - 1)" "t_y t1 - 1 < ?r" using True pre t1(3) by (auto simp: t_pre_def of_nat_diff)
    have sc: "fbcon_scroll_up fb (cursor_at x y f) m = fbcon_scroll_up fb f m" for x y by (simp add: fbcon_scroll_up_def)
    have "fbcon_wrap fb (cursor_at (t_x t) (t_y t) f) m = (cursor_at (t_x t1) (t_y t1 - 1) f, fbcon_scroll_up fb f m)"
      unfolding w(1) using True ge y(1) sc by simp
    then show thesis
      using that [of "fbcon_scroll_up fb f m"] scroll_displays [OF ok d] True y(2) t1(1,2) w(2)
      by (simp add: t_scroll_def t_ok_def cong: if_cong)
  next
    case False
    then show thesis using that [of m] d ge t1(1,2) w by (simp add: t_ok_def)
  qed
qed

section \<open>Writing\<close>

text \<open>One character other than NUL and tab, then the rest of the string.\<close>

lemma fbcon_write_char:
  assumes ok: "fbcon_ok fb f" and d: "displays fb f m (t_cell t)" and tk: "t_ok (unat (fbcon_cx f)) (unat (fbcon_cy f)) t"
    and c: "of_char c < (128 :: nat)" "c \<noteq> NUL" "c \<noteq> CHR 0x09"
  obtains m' t' where "t' = t_char (unat (fbcon_cx f)) (unat (fbcon_cy f)) c t"
    and "\<forall>cs. fbcon_write fb (c # cs) (cursor_at (t_x t) (t_y t) f) m = fbcon_write fb cs (cursor_at (t_x t') (t_y t') f) m'"
    and "displays fb f m' (t_cell t')" and "t_ok (unat (fbcon_cx f)) (unat (fbcon_cy f)) t'"
    and "\<forall>p. \<not> in_fb fb p \<longrightarrow> m' p = m p"
proof (cases "c = CHR 0x0A")
  case True
  have n: "(cursor_at (t_x t) (t_y t) f)\<lparr>fbcon_x := 0, fbcon_y := fbcon_y (cursor_at (t_x t) (t_y t) f) + 1\<rparr> =
      cursor_at (t_x (t_newline t)) (t_y (t_newline t)) f" "t_cell (t_newline t) = t_cell t"
    by (simp_all add: cursor_at_def t_newline_def add.commute)
  have "t_pre (unat (fbcon_cx f)) (unat (fbcon_cy f)) (t_newline t)" using tk by (auto simp: t_ok_def t_pre_def t_newline_def)
  from wrap_displays [OF ok d [folded n(2)] this] obtain m' where
    "fbcon_wrap fb (cursor_at (t_x (t_newline t)) (t_y (t_newline t)) f) m =
      (cursor_at (t_x (t_wrap (unat (fbcon_cx f)) (unat (fbcon_cy f)) (t_newline t)))
        (t_y (t_wrap (unat (fbcon_cx f)) (unat (fbcon_cy f)) (t_newline t))) f, m')"
    "t_ok (unat (fbcon_cx f)) (unat (fbcon_cy f)) (t_wrap (unat (fbcon_cx f)) (unat (fbcon_cy f)) (t_newline t))"
    "displays fb f m' (t_cell (t_wrap (unat (fbcon_cx f)) (unat (fbcon_cy f)) (t_newline t)))"
    "\<forall>p. \<not> in_fb fb p \<longrightarrow> m' p = m p" by blast
  then show thesis
    using True c(2) n(1)
    by (intro that [of "t_wrap (unat (fbcon_cx f)) (unat (fbcon_cy f)) (t_newline t)" m'])
      (simp_all add: fbcon_write.simps [of fb "_ # _"])
next
  case False
  have xy: "t_x t < unat (fbcon_cx f)" "t_y t < unat (fbcon_cy f)" using tk by (auto simp: t_ok_def)
  obtain m1 where m1: "fbcon_draw_ch fb c (of_nat (t_x t) * fbcon_text_cx f) (of_nat (t_y t) * fbcon_text_cy f) f m = Inr m1"
      "displays fb f m1 ((t_cell t)(t_x t := (t_cell t (t_x t))(t_y t := Some c)))" "\<forall>p. \<not> in_fb fb p \<longrightarrow> m1 p = m p"
    by (rule draw_displays [OF ok c(1) xy d])
  have "draw_pixel fb (cursor_at a b f) = draw_pixel fb f" for a b by (simp add: fun_eq_iff draw_pixel_def Let_def)
  then have dc: "fbcon_draw_ch fb c x y (cursor_at a b f) m = fbcon_draw_ch fb c x y f m" for x y a b
    by (simp add: fbcon_draw_ch_def Let_def cong: if_cong)
  have n: "(cursor_at (t_x t) (t_y t) f)\<lparr>fbcon_x := of_nat (t_x t) + 1\<rparr> = cursor_at (t_x (t_put c t)) (t_y (t_put c t)) f"
      "t_cell (t_put c t) = (t_cell t)(t_x t := (t_cell t (t_x t))(t_y t := Some c))"
    by (simp_all add: cursor_at_def t_put_def add.commute)
  have "t_pre (unat (fbcon_cx f)) (unat (fbcon_cy f)) (t_put c t)" using tk by (auto simp: t_ok_def t_pre_def t_put_def)
  from wrap_displays [OF ok m1(2) [folded n(2)] this] obtain m' where
    "fbcon_wrap fb (cursor_at (t_x (t_put c t)) (t_y (t_put c t)) f) m1 =
      (cursor_at (t_x (t_wrap (unat (fbcon_cx f)) (unat (fbcon_cy f)) (t_put c t)))
        (t_y (t_wrap (unat (fbcon_cx f)) (unat (fbcon_cy f)) (t_put c t))) f, m')"
    "t_ok (unat (fbcon_cx f)) (unat (fbcon_cy f)) (t_wrap (unat (fbcon_cx f)) (unat (fbcon_cy f)) (t_put c t))"
    "displays fb f m' (t_cell (t_wrap (unat (fbcon_cx f)) (unat (fbcon_cy f)) (t_put c t)))"
    "\<forall>p. \<not> in_fb fb p \<longrightarrow> m' p = m1 p" by blast
  then show thesis
    using False c(2,3) m1(1,3) n(1) dc
    by (intro that [of "t_wrap (unat (fbcon_cx f)) (unat (fbcon_cy f)) (t_put c t)" m'])
      (simp_all add: fbcon_write.simps [of fb "_ # _"])
qed

text \<open>What holds after a string has been written, the terminal having gone from \<open>t\<close> to \<open>t'\<close>.\<close>

definition written :: "multiboot2_tag_framebuffer \<Rightarrow> fbcon \<Rightarrow> string \<Rightarrow> mem \<Rightarrow> terminal \<Rightarrow> terminal \<Rightarrow> bool" where
  "written fb f s m t t' \<longleftrightarrow> (\<exists>m'. fbcon_write fb s (cursor_at (t_x t) (t_y t) f) m = Inr (cursor_at (t_x t') (t_y t') f, m') \<and>
     displays fb f m' (t_cell t') \<and> t_ok (unat (fbcon_cx f)) (unat (fbcon_cy f)) t' \<and> (\<forall>p. \<not> in_fb fb p \<longrightarrow> m' p = m p))"

lemma written_Cons:
  assumes "\<forall>cs. fbcon_write fb (c # cs) (cursor_at (t_x t) (t_y t) f) m = fbcon_write fb cs (cursor_at (t_x t1) (t_y t1) f) m1"
    and "\<forall>p. \<not> in_fb fb p \<longrightarrow> m1 p = m p" and "written fb f cs m1 t1 t'"
  shows "written fb f (c # cs) m t t'"
  using assms by (auto simp: written_def)

lemma written_plain:
  assumes ok: "fbcon_ok fb f" and "displays fb f m (t_cell t)" and "t_ok (unat (fbcon_cx f)) (unat (fbcon_cy f)) t"
    and "\<forall>c \<in> set s. of_char c < (128 :: nat) \<and> c \<noteq> NUL \<and> c \<noteq> CHR 0x09"
  shows "written fb f s m t (term_write (unat (fbcon_cx f)) (unat (fbcon_cy f)) s t)"
  using assms(2-4)
proof (induction s arbitrary: m t)
  case Nil
  then show ?case by (simp add: written_def term_write_def fbcon_write.simps)
next
  case (Cons c cs)
  from Cons.prems(3) have c: "of_char c < (128 :: nat)" "c \<noteq> NUL" "c \<noteq> CHR 0x09" by auto
  obtain m1 t1 where s: "t1 = t_char (unat (fbcon_cx f)) (unat (fbcon_cy f)) c t"
    "\<forall>cs. fbcon_write fb (c # cs) (cursor_at (t_x t) (t_y t) f) m = fbcon_write fb cs (cursor_at (t_x t1) (t_y t1) f) m1"
    "displays fb f m1 (t_cell t1)" "t_ok (unat (fbcon_cx f)) (unat (fbcon_cy f)) t1" "\<forall>p. \<not> in_fb fb p \<longrightarrow> m1 p = m p"
    by (rule fbcon_write_char [OF ok Cons.prems(1,2) c])
  have "written fb f cs m1 t1 (term_write (unat (fbcon_cx f)) (unat (fbcon_cy f)) (c # cs) t)"
    using Cons.IH [OF s(3,4)] Cons.prems(3) s(1) by (simp add: term_write_def)
  with s(2,5) show ?case by (rule written_Cons)
qed

lemma t_wrap_ok: "t_ok cols rows t \<Longrightarrow> t_wrap cols rows t = t"
  by (simp add: t_ok_def t_wrap_def)

lemma tab_spaces: "fold (t_char cols rows) ''    '' t = t_char cols rows (CHR 0x09) t"
  by (simp add: eval_nat_numeral)

lemma fbcon_write_tab:
  assumes ok: "fbcon_ok fb f" and d: "displays fb f m (t_cell t)" and tk: "t_ok (unat (fbcon_cx f)) (unat (fbcon_cy f)) t"
  obtains m' t' where "t' = t_char (unat (fbcon_cx f)) (unat (fbcon_cy f)) (CHR 0x09) t"
    and "\<forall>cs. fbcon_write fb (CHR 0x09 # cs) (cursor_at (t_x t) (t_y t) f) m = fbcon_write fb cs (cursor_at (t_x t') (t_y t') f) m'"
    and "displays fb f m' (t_cell t')" and "t_ok (unat (fbcon_cx f)) (unat (fbcon_cy f)) t'"
    and "\<forall>p. \<not> in_fb fb p \<longrightarrow> m' p = m p"
proof -
  let ?c = "unat (fbcon_cx f)" and ?r = "unat (fbcon_cy f)"
  define t' where "t' = t_char ?c ?r (CHR 0x09) t"
  have "\<forall>c \<in> set ''    ''. of_char c < (128 :: nat) \<and> c \<noteq> NUL \<and> c \<noteq> CHR 0x09" by (simp add: NUL_def)
  from written_plain [OF ok d tk this] have "written fb f ''    '' m t t'"
    unfolding term_write_def tab_spaces t'_def .
  then obtain m1 where m1: "fbcon_write fb ''    '' (cursor_at (t_x t) (t_y t) f) m = Inr (cursor_at (t_x t') (t_y t') f, m1)"
    "displays fb f m1 (t_cell t')" "t_ok ?c ?r t'" "\<forall>p. \<not> in_fb fb p \<longrightarrow> m1 p = m p"
    by (auto simp: written_def)
  have "t_pre ?c ?r t'" using m1(3) by (auto simp: t_ok_def t_pre_def)
  from wrap_displays [OF ok m1(2) this] obtain m' where
    "fbcon_wrap fb (cursor_at (t_x t') (t_y t') f) m1 = (cursor_at (t_x t') (t_y t') f, m')"
    "displays fb f m' (t_cell t')" "\<forall>p. \<not> in_fb fb p \<longrightarrow> m' p = m1 p"
    using t_wrap_ok [OF m1(3)] by metis
  then show thesis
    using m1 by (intro that [of t' m'])
      (simp_all add: t'_def [symmetric] fbcon_write.simps [of fb "CHR 0x09 # _"] NUL_def del: t_char.simps)
qed

lemma written_string:
  assumes ok: "fbcon_ok fb f" and "displays fb f m (t_cell t)" and "t_ok (unat (fbcon_cx f)) (unat (fbcon_cy f)) t"
    and "\<forall>c \<in> set s. of_char c < (128 :: nat) \<and> c \<noteq> NUL"
  shows "written fb f s m t (term_write (unat (fbcon_cx f)) (unat (fbcon_cy f)) s t)"
  using assms(2-4)
proof (induction s arbitrary: m t)
  case Nil
  then show ?case by (simp add: written_def term_write_def fbcon_write.simps)
next
  case (Cons c cs)
  from Cons.prems(3) have c: "of_char c < (128 :: nat)" "c \<noteq> NUL" by auto
  obtain m1 t1 where s: "t1 = t_char (unat (fbcon_cx f)) (unat (fbcon_cy f)) c t"
    "\<forall>cs. fbcon_write fb (c # cs) (cursor_at (t_x t) (t_y t) f) m = fbcon_write fb cs (cursor_at (t_x t1) (t_y t1) f) m1"
    "displays fb f m1 (t_cell t1)" "t_ok (unat (fbcon_cx f)) (unat (fbcon_cy f)) t1" "\<forall>p. \<not> in_fb fb p \<longrightarrow> m1 p = m p"
    using fbcon_write_char [OF ok Cons.prems(1,2) c] fbcon_write_tab [OF ok Cons.prems(1,2)] by metis
  have "written fb f cs m1 t1 (term_write (unat (fbcon_cx f)) (unat (fbcon_cy f)) (c # cs) t)"
    using Cons.IH [OF s(3,4)] Cons.prems(3) s(1) by (simp add: term_write_def)
  with s(2,5) show ?case by (rule written_Cons)
qed

section \<open>Property of fbcon.c\<close>


text \<open>The console set up on the sample framebuffer: two columns and two lines.\<close>

definition demo_con :: fbcon where "demo_con = snd (fbcon_init demo_fb fbcon_initial)"

lemma demo_con_eq: "demo_con = \<lparr>fbcon_x = 0, fbcon_y = 0, fbcon_cx = 2, fbcon_cy = 2, fbcon_text_cx = 8, fbcon_text_cy = 8,
    fbcon_foreground = 0x00FFFFFF, fbcon_background = 0\<rparr>"
  by (simp add: demo_con_def fbcon_init_def fbcon_initial_def demo_fb_def)

lemma displays_unknown: "displays fb f m (\<lambda>_ _. None)"
  by (simp add: displays_def)

lemma demo_con_ok: "fbcon_ok demo_fb demo_con"
  by (simp add: fbcon_ok_def demo_con_eq demo_fb_ok)


end
