(* ===== verification/Init_Memory.thy ===== *)
theory Init_Memory
  imports Multiboot Vmm
begin

text \<open>
  \<open>init_memory\<close> of \<open>mm/mm.c\<close>: from the memory map of the boot loader to a working frame allocator. The bounds of the kernel image,
  which the linker defines (\<open>include/fynaos/symbols.h\<close>), are arguments.
\<close>

text \<open>The first loop: the longest usable region, as its length, begin and limit.\<close>

definition longest_region :: "multiboot2_mmap_entry list \<Rightarrow> u64 \<times> u64 \<times> u64" where
  "longest_region entries =
     fold (\<lambda>e (len, beg, limit).
       if e_len e > len \<and> e_type e = 1 then (e_len e, e_addr e, e_addr e + e_len e) else (len, beg, limit))
     entries (0, INVALID_ADDRESS, INVALID_ADDRESS)"

text \<open>Begin and limit of the boot allocator: the longest region, from the end of the kernel image on where it contains it.\<close>

definition boot_region :: "u64 \<Rightarrow> u64 \<Rightarrow> multiboot2_mmap_entry list \<Rightarrow> u64 \<times> u64" where
  "boot_region kstart kend entries =
     (let (len, beg, limit) = longest_region entries
      in (if kstart \<ge> beg \<and> kend \<le> limit then ALIGN_UP kend PAGE_SIZE else beg, limit))"

text \<open>The second loop: the end of the highest usable region.\<close>

definition highest_limit :: "multiboot2_mmap_entry list \<Rightarrow> u64" where
  "highest_limit entries =
     fold (\<lambda>e ram_limit. let limit = e_addr e + e_len e in if limit > ram_limit \<and> e_type e = 1 then limit else ram_limit)
     entries 0"

text \<open>The third loop.\<close>

primrec unreserve_regions :: "multiboot2_mmap_entry list \<Rightarrow> pmm \<Rightarrow> pmm res" where
  "unreserve_regions [] s = Inr s"
| "unreserve_regions (e # es) s =
     rbind (if e_type e = 1
            then unreserve_frame_region (unat (drop_bit PAGE_SHIFT (e_addr e))) (unat (drop_bit PAGE_SHIFT (e_addr e + e_len e))) s
            else Inr s)
       (unreserve_regions es)"

text \<open>Where the free part of a region begins: after the kernel image, and after the boot allocations, where it contains them.\<close>

definition free_begin :: "u64 \<Rightarrow> u64 \<Rightarrow> u64 \<Rightarrow> u64 \<Rightarrow> u64 \<Rightarrow> multiboot2_mmap_entry \<Rightarrow> u64" where
  "free_begin kstart kend bbegin blimit btail e =
     (let limit = e_addr e + e_len e;
          b1 = (if e_addr e \<le> kstart \<and> limit \<ge> kend then ALIGN_UP kend PAGE_SIZE else e_addr e)
      in if b1 \<le> bbegin \<and> limit \<ge> blimit then ALIGN_UP btail PAGE_SIZE else b1)"

text \<open>The last loop.\<close>

primrec init_regions :: "u64 \<Rightarrow> u64 \<Rightarrow> u64 \<Rightarrow> u64 \<Rightarrow> u64 \<Rightarrow> multiboot2_mmap_entry list \<Rightarrow> pmm \<Rightarrow> pmm res" where
  "init_regions kstart kend bbegin blimit btail [] s = Inr s"
| "init_regions kstart kend bbegin blimit btail (e # es) s =
     rbind (if e_type e \<noteq> 1 then Inr s
            else init_buddy_allocator (unat (drop_bit PAGE_SHIFT (free_begin kstart kend bbegin blimit btail e)))
              (unat (drop_bit PAGE_SHIFT (e_addr e + e_len e))) s)
       (init_regions kstart kend bbegin blimit btail es)"

definition init_memory :: "u64 \<Rightarrow> u64 \<Rightarrow> multiboot2_mmap_entry list \<Rightarrow> kernel \<Rightarrow> (boot_state \<times> kernel) res" where
  "init_memory kstart kend entries s =
     (if fst (longest_region entries) = 0 then Inl (Panic ''failed to initialize the boot manager'') else
      let (bbegin, blimit) = boot_region kstart kend entries;
          b0 = init_boot_alloc bbegin blimit;
          ram_limit = highest_limit entries
      in
      if ram_limit = 0 then Inl (Panic ''failed to initialize the physical frames'') else
      rbind (init_frames (ram_limit AND PAGE_MASK) b0 (kpmm s)) (\<lambda>(ok, b1, pm1).
      rbind (unreserve_regions entries pm1) (\<lambda>pm2.
      let s1 = init_kernel_mm entries (s\<lparr>kpmm := pm2\<rparr>) in
      rbind (init_regions kstart kend bbegin blimit (get_boot_memory_tail b1) entries (kpmm s1)) (\<lambda>pm3.
      Inr (b1, s1\<lparr>kpmm := pm3\<rparr>)))))"

end
