(* ===== verification/Init_Memory_Spec.thy ===== *)
theory Init_Memory_Spec
  imports Init_Memory Demo
begin

text \<open>
  \<open>init_memory\<close> turns a well-formed memory map into a frame allocator that satisfies its invariant, in which no free frame overlaps the
  kernel image or the frame array.
\<close>

section \<open>Handing over several regions\<close>

fun add_regions :: "(nat \<times> nat) list \<Rightarrow> pmm \<Rightarrow> pmm res" where
  "add_regions [] s = Inr s"
| "add_regions (r # rs) s = rbind (init_buddy_allocator (fst r) (snd r) s) (add_regions rs)"

lemma cover_Un: "cover (A \<union> B) = cover A \<union> cover B"
  by (auto simp: cover_def)

lemma add_regions_ok:
  assumes "pmm_inv s" and "\<forall>r \<in> set rs. snd r \<le> mm_frames_count s"
    and "\<forall>r \<in> set rs. \<forall>i \<in> {fst r..<snd r}. ord s i = - 1 \<and> \<not> is_resv s i"
    and "\<forall>r \<in> set rs. cover (free_blocks s \<union> alloc_blocks s) \<inter> {fst r..<snd r} = {}"
    and "sorted_wrt (\<lambda>r r'. {fst r..<snd r} \<inter> {fst r'..<snd r'} = {}) rs"
  shows "\<exists>s'. add_regions rs s = Inr s' \<and> pmm_inv s' \<and>
    cover (free_blocks s') = cover (free_blocks s) \<union> (\<Union>r \<in> set rs. {fst r..<snd r}) \<and>
    alloc_blocks s' = alloc_blocks s \<and> mm_frames_count s' = mm_frames_count s"
  using assms
proof (induction rs arbitrary: s)
  case (Cons r rs)
  have "\<forall>i. fst r \<le> i \<and> i < snd r \<longrightarrow> ord s i = - 1 \<and> \<not> is_resv s i" using Cons.prems(3) by simp
  from init_buddy_region [OF Cons.prems(1) _ this] Cons.prems(2,4) obtain s1 where
    s1: "init_buddy_allocator (fst r) (snd r) s = Inr s1" "pmm_inv s1"
      "cover (free_blocks s1) = cover (free_blocks s) \<union> {fst r..<snd r}" "alloc_blocks s1 = alloc_blocks s"
      "mm_frames_count s1 = mm_frames_count s" "fl s1 = fl s" "\<forall>i. i \<notin> {fst r..<snd r} \<longrightarrow> ord s1 i = ord s i"
    by auto
  have apart: "i \<notin> {fst r..<snd r}" if "r' \<in> set rs" "i \<in> {fst r'..<snd r'}" for r' i
    using Cons.prems(5) that by fastforce
  have "\<exists>s'. add_regions rs s1 = Inr s' \<and> pmm_inv s' \<and>
    cover (free_blocks s') = cover (free_blocks s1) \<union> (\<Union>r \<in> set rs. {fst r..<snd r}) \<and>
    alloc_blocks s' = alloc_blocks s1 \<and> mm_frames_count s' = mm_frames_count s1"
  proof (rule Cons.IH [OF s1(2)])
    show "\<forall>r \<in> set rs. snd r \<le> mm_frames_count s1" using Cons.prems(2) s1(5) by simp
    show "\<forall>r \<in> set rs. \<forall>i \<in> {fst r..<snd r}. ord s1 i = - 1 \<and> \<not> is_resv s1 i"
      using Cons.prems(3) s1(6,7) apart by (auto simp: is_resv_def)
    show "\<forall>r \<in> set rs. cover (free_blocks s1 \<union> alloc_blocks s1) \<inter> {fst r..<snd r} = {}"
      using Cons.prems(4) s1(3,4) apart unfolding cover_Un by fastforce
    show "sorted_wrt (\<lambda>r r'. {fst r..<snd r} \<inter> {fst r'..<snd r'} = {}) rs" using Cons.prems(5) by simp
  qed
  then show ?case using s1 by auto
qed simp

section \<open>The memory map\<close>

definition usable :: "multiboot2_mmap_entry \<Rightarrow> bool" where "usable e \<longleftrightarrow> e_type e = 1"
definition e_begin :: "multiboot2_mmap_entry \<Rightarrow> nat" where "e_begin e = unat (e_addr e)"
definition e_limit :: "multiboot2_mmap_entry \<Rightarrow> nat" where "e_limit e = unat (e_addr e) + unat (e_len e)"

text \<open>Usable regions start on a page, end below \<open>2 ^ 47\<close> and do not overlap.\<close>

definition map_ok :: "multiboot2_mmap_entry list \<Rightarrow> bool" where
  "map_ok es \<longleftrightarrow> (\<forall>e \<in> set es. usable e \<longrightarrow> 4096 dvd e_begin e \<and> e_limit e \<le> 2 ^ 47) \<and>
     sorted_wrt (\<lambda>e e'. usable e \<longrightarrow> usable e' \<longrightarrow> e_limit e \<le> e_begin e' \<or> e_limit e' \<le> e_begin e) es"

lemma map_ok_limit:
  assumes "map_ok es" and "e \<in> set es" and "usable e"
  shows "unat (e_addr e + e_len e) = e_limit e" and "e_limit e \<le> 2 ^ 47" and "4096 dvd e_begin e" and "e_begin e \<le> e_limit e"
proof -
  show "e_limit e \<le> 2 ^ 47" "4096 dvd e_begin e" using assms by (auto simp: map_ok_def)
  then show "unat (e_addr e + e_len e) = e_limit e" unfolding e_limit_def by (intro unat_add_nowrap) simp
  show "e_begin e \<le> e_limit e" by (simp add: e_begin_def e_limit_def)
qed

lemma map_ok_apart:
  assumes "map_ok es" and "e \<in> set es" and "usable e" and "e' \<in> set es" and "usable e'"
  shows "e = e' \<or> e_limit e \<le> e_begin e' \<or> e_limit e' \<le> e_begin e"
proof -
  obtain i j where ij: "i < length es" "es ! i = e" "j < length es" "es ! j = e'" using assms(2,4) by (auto simp: in_set_conv_nth)
  have w: "usable (es ! i) \<longrightarrow> usable (es ! j) \<longrightarrow> e_limit (es ! i) \<le> e_begin (es ! j) \<or> e_limit (es ! j) \<le> e_begin (es ! i)"
    if "i < j" "j < length es" for i j
    using assms(1) that sorted_wrt_nth_less [of _ es i j] by (auto simp: map_ok_def)
  show ?thesis using w [of i j] w [of j i] ij assms(3,5) by (cases i j rule: linorder_cases) auto
qed

text \<open>A loop that keeps its state or replaces it by a value of the current element.\<close>

lemma fold_select:
  assumes "\<And>e z. g e z = z \<or> P e \<and> g e z = v e"
  shows "fold g xs z = z \<or> (\<exists>e \<in> set xs. P e \<and> fold g xs z = v e)"
proof (induction xs arbitrary: z)
  case (Cons e xs)
  show ?case using assms [of e z] Cons.IH [of "g e z"] by auto
qed simp

lemma longest_region_member:
  assumes "longest_region es = (len, b, l)" and "len \<noteq> 0"
  shows "\<exists>e \<in> set es. usable e \<and> e_len e = len \<and> e_addr e = b \<and> e_addr e + e_len e = l"
proof -
  have "longest_region es = (0, INVALID_ADDRESS, INVALID_ADDRESS) \<or>
      (\<exists>e \<in> set es. usable e \<and> longest_region es = (e_len e, e_addr e, e_addr e + e_len e))"
    unfolding longest_region_def by (rule fold_select) (auto simp: usable_def split: if_splits)
  with assms show ?thesis by auto
qed

lemma highest_limit_bounds:
  assumes "map_ok es"
  shows "\<forall>e \<in> set es. usable e \<longrightarrow> e_limit e \<le> unat (highest_limit es)" and "unat (highest_limit es) \<le> 2 ^ 47"
proof -
  let ?g = "\<lambda>e ram_limit. let limit = e_addr e + e_len e in if limit > ram_limit \<and> e_type e = 1 then limit else ram_limit"
  have "unat z \<le> unat (fold ?g xs z) \<and> (\<forall>e \<in> set xs. usable e \<longrightarrow> unat (e_addr e + e_len e) \<le> unat (fold ?g xs z)) \<and>
      (unat z \<le> 2 ^ 47 \<longrightarrow> (\<forall>e \<in> set xs. usable e \<longrightarrow> unat (e_addr e + e_len e) \<le> 2 ^ 47) \<longrightarrow> unat (fold ?g xs z) \<le> 2 ^ 47)" for xs z
  proof (induction xs arbitrary: z)
    case (Cons e xs)
    have "unat z \<le> unat (?g e z)" "usable e \<longrightarrow> unat (e_addr e + e_len e) \<le> unat (?g e z)"
      "unat z \<le> 2 ^ 47 \<longrightarrow> (usable e \<longrightarrow> unat (e_addr e + e_len e) \<le> 2 ^ 47) \<longrightarrow> unat (?g e z) \<le> 2 ^ 47"
      by (auto simp: usable_def Let_def word_less_nat_alt)
    with Cons.IH [of "?g e z"] show ?case by (auto intro: le_trans)
  qed simp
  from this [of 0 es] map_ok_limit [OF assms] show "\<forall>e \<in> set es. usable e \<longrightarrow> e_limit e \<le> unat (highest_limit es)"
    "unat (highest_limit es) \<le> 2 ^ 47" by (auto simp: highest_limit_def)
qed

section \<open>The boot allocator and the frame array\<close>

definition page_up :: "nat \<Rightarrow> nat" where "page_up n = (n + 4095) div 4096 * 4096"

lemma page_up_ge: "n \<le> page_up n" and page_up_dvd: "4096 dvd page_up n" and page_up_mono: "n \<le> k \<Longrightarrow> page_up n \<le> page_up k"
  using nat_round_up_ge [of n 12] by (simp_all add: page_up_def div_le_mono)

lemma unat_page_up: "unat a < 2 ^ 62 \<Longrightarrow> unat (ALIGN_UP a PAGE_SIZE) = page_up (unat a)"
proof -
  assume a: "unat a < 2 ^ 62"
  have m: "PAGE_SIZE - 1 = mask 12" by (simp add: PAGE_SIZE_def mask_eq_exp_minus_1)
  show ?thesis unfolding ALIGN_UP_def m using a by (subst unat_align_up_mask) (simp_all add: page_up_def)
qed

lemma init_frames_run:
  assumes lim: "unat lim \<le> 2 ^ 47" and fits: "unat bb + 15 + 16 * (unat lim div 4096) < unat bl" and bl: "unat bl \<le> 2 ^ 47"
  obtains r b1 pm1 where "init_frames (lim AND PAGE_MASK) (init_boot_alloc bb bl) pm = Inr (r, b1, pm1)"
    and "mm_frames_count pm1 = unat lim div 4096" and "unat bb \<le> unat (mm_frames_ptr pm1 - KERNEL_DIRECT_BASE)"
    and "unat (boot_tail b1) = unat (mm_frames_ptr pm1 - KERNEL_DIRECT_BASE) + 16 * (unat lim div 4096)"
    and "unat (boot_tail b1) < unat bl" and "unat (boot_tail b1) \<le> unat bb + 15 + 16 * (unat lim div 4096)"
proof -
  let ?count = "drop_bit PAGE_SHIFT (lim AND PAGE_MASK)" and ?b = "init_boot_alloc bb bl"
  have pm: "PAGE_MASK = NOT (mask 12)" by (simp add: PAGE_MASK_def PAGE_SIZE_def mask_eq_exp_minus_1)
  have cnt: "unat ?count = unat lim div 4096" unfolding PAGE_SHIFT_def pm unat_drop_bit_div unat_and_not_mask by simp
  have len: "unat (?count * 16) = 16 * (unat lim div 4096)" using cnt lim by (simp add: unat_word_ariths)
  have m: "(ucast ((16 :: u32) - 1) :: u64) = mask 4" by (simp add: mask_eq_exp_minus_1)
  let ?t = "align_up_mask bb (mask 4)"
  have t: "unat ?t \<le> unat bb + 15" using fits bl nat_round_up_le [of "unat bb" 4] by (subst unat_align_up_mask) simp_all
  have sum: "unat (?t + ?count * 16) = unat ?t + unat (?count * 16)" using t len fits bl by (intro unat_add_nowrap) simp
  have lt: "\<not> bl \<le> ?t + ?count * 16" using sum t len fits by (simp add: word_le_nat_alt)
  define b1 where "b1 = ?b\<lparr>boot_tail := ?t + ?count * 16\<rparr>"
  have al: "alloc_boot_memory (?count * 16) 16 ?b = Inr (?t + KERNEL_DIRECT_BASE, b1)"
    using lt by (simp only: alloc_boot_memory_def m) (simp add: init_boot_alloc_def b1_def Let_def)
  obtain r pm1 where run: "init_frames (lim AND PAGE_MASK) ?b pm = Inr (r, b1, pm1)" and ptr: "mm_frames_ptr pm1 = ?t + KERNEL_DIRECT_BASE"
    using al by (simp add: init_frames_def Let_def)
  have ge: "unat bb \<le> unat ?t" using fits bl nat_round_up_ge [of "unat bb" 4] by (subst unat_align_up_mask) simp_all
  have "mm_frames_count pm1 = unat (lim AND PAGE_MASK) div 2 ^ 12" by (rule init_frames_state(1) [OF run])
  also have "\<dots> = unat lim div 4096" unfolding pm unat_and_not_mask by simp
  finally show thesis
    using that [OF run] ge sum len t fits ptr by (simp add: b1_def)
qed

lemma unreserve_regions_ok:
  assumes "\<forall>e \<in> set es. usable e \<longrightarrow> unat (e_addr e + e_len e) div 4096 \<le> mm_frames_count s"
  shows "\<exists>s'. unreserve_regions es s = Inr s' \<and> nx s' = nx s \<and> ord s' = ord s \<and> mm_free_region s' = mm_free_region s \<and>
    mm_frames_count s' = mm_frames_count s \<and> is_alloc s' = is_alloc s \<and>
    (\<forall>i. is_resv s' i \<longrightarrow> is_resv s i) \<and>
    (\<forall>e \<in> set es. usable e \<longrightarrow> (\<forall>i. unat (e_addr e) div 4096 \<le> i \<and> i < unat (e_addr e + e_len e) div 4096 \<longrightarrow> \<not> is_resv s' i))"
  using assms
proof (induction es arbitrary: s)
  case (Cons e es)
  show ?case
  proof (cases "usable e")
    case True
    have l: "unat (drop_bit PAGE_SHIFT (e_addr e + e_len e)) = unat (e_addr e + e_len e) div 4096"
      "unat (drop_bit PAGE_SHIFT (e_addr e)) = unat (e_addr e) div 4096"
      unfolding PAGE_SHIFT_def unat_drop_bit_div by simp_all
    have "unat (e_addr e + e_len e) div 4096 \<le> mm_frames_count s" using Cons.prems True by simp
    from unreserve_ok [OF this, of "unat (e_addr e) div 4096"] obtain s1 where
      s1: "unreserve_frame_region (unat (e_addr e) div 4096) (unat (e_addr e + e_len e) div 4096) s = Inr s1" "nx s1 = nx s" "ord s1 = ord s"
        "mm_free_region s1 = mm_free_region s" "mm_frames_count s1 = mm_frames_count s" "is_alloc s1 = is_alloc s"
        "is_resv s1 = (\<lambda>i. is_resv s i \<and> \<not> (unat (e_addr e) div 4096 \<le> i \<and> i < unat (e_addr e + e_len e) div 4096))"
      by auto
    have "\<forall>e \<in> set es. usable e \<longrightarrow> unat (e_addr e + e_len e) div 4096 \<le> mm_frames_count s1" using Cons.prems s1(5) by simp
    from Cons.IH [OF this] s1 True show ?thesis by (auto simp: l usable_def)
  next
    case False
    then show ?thesis using Cons.IH [of s] Cons.prems by (auto simp: usable_def)
  qed
qed simp

section \<open>The regions handed to the frame allocator\<close>

definition has_image :: "nat \<Rightarrow> nat \<Rightarrow> multiboot2_mmap_entry \<Rightarrow> bool" where
  "has_image ks ke e \<longleftrightarrow> e_begin e \<le> ks \<and> ke \<le> e_limit e"

text \<open>The frames of a region that are handed over.\<close>

definition free_region :: "u64 \<Rightarrow> u64 \<Rightarrow> u64 \<Rightarrow> u64 \<Rightarrow> u64 \<Rightarrow> multiboot2_mmap_entry \<Rightarrow> nat \<times> nat" where
  "free_region ks ke bb bl tail e = (unat (free_begin ks ke bb bl tail e) div 4096, unat (e_addr e + e_len e) div 4096)"

lemma init_regions_add:
  "init_regions ks ke bb bl tail es s = add_regions (map (free_region ks ke bb bl tail) (filter usable es)) s"
proof (induction es arbitrary: s)
  case (Cons e es)
  have l: "unat (drop_bit PAGE_SHIFT a) = unat a div 4096" for a :: u64 unfolding PAGE_SHIFT_def unat_drop_bit_div by simp
  show ?case
    by (cases "init_buddy_allocator (fst (free_region ks ke bb bl tail e)) (snd (free_region ks ke bb bl tail e)) s")
      (simp_all add: Cons.IH usable_def l free_region_def)
qed simp

text \<open>The boot allocator works in a usable region, above the kernel image if that region contains it.\<close>

lemma boot_region_entry:
  assumes mo: "map_ok es" and ne: "fst (longest_region es) \<noteq> 0" and br: "boot_region ks ke es = (bb, bl)" and ke: "unat ke \<le> 2 ^ 47"
  obtains e where "e \<in> set es" and "usable e" and "unat bl = e_limit e"
    and "unat bb = (if has_image (unat ks) (unat ke) e then page_up (unat ke) else e_begin e)"
proof -
  obtain len b0 l0 where lr: "longest_region es = (len, b0, l0)" by (metis surj_pair)
  with ne longest_region_member [OF lr] obtain e where e: "e \<in> set es" "usable e" "e_addr e = b0" "e_addr e + e_len e = l0" by auto
  have l: "unat l0 = e_limit e" using map_ok_limit(1) [OF mo e(1,2)] e(4) by simp
  have "unat bl = e_limit e" "unat bb = (if has_image (unat ks) (unat ke) e then page_up (unat ke) else e_begin e)"
    using br lr l e(3) ke by (auto simp: boot_region_def has_image_def e_begin_def word_le_nat_alt unat_page_up)
  with e(1,2) show thesis by (rule that)
qed

lemma free_begin_bounds:
  assumes mo: "map_ok es" and e: "e \<in> set es" "usable e" and ke: "unat ks \<le> unat ke" "unat ke \<le> 2 ^ 47"
    and tail: "unat bb \<le> unat tail" "unat tail \<le> 2 ^ 47"
    and B_def: "B = unat (free_begin ks ke bb bl tail e)"
  shows "e_begin e \<le> B" and "4096 dvd B" and "has_image (unat ks) (unat ke) e \<Longrightarrow> unat ke \<le> B"
    and "unat bl = e_limit e \<Longrightarrow> unat bb = (if has_image (unat ks) (unat ke) e then page_up (unat ke) else e_begin e) \<Longrightarrow> unat tail \<le> B"
    and "\<not> has_image (unat ks) (unat ke) e \<Longrightarrow> \<not> (e_begin e \<le> unat bb \<and> unat bl \<le> e_limit e) \<Longrightarrow> B = e_begin e"
    and "unat bl = e_limit e \<Longrightarrow> unat bb = (if has_image (unat ks) (unat ke) e then page_up (unat ke) else e_begin e) \<Longrightarrow> B = page_up (unat tail)"
proof -
  note l = map_ok_limit [OF mo e]
  let ?b1 = "if has_image (unat ks) (unat ke) e then page_up (unat ke) else e_begin e"
  have B: "B = (if ?b1 \<le> unat bb \<and> unat bl \<le> e_limit e then page_up (unat tail) else ?b1)"
    using ke(2) tail(2) l(1) unfolding B_def free_begin_def Let_def
    by (auto simp: has_image_def e_begin_def word_le_nat_alt unat_page_up)
  have b1: "e_begin e \<le> ?b1" "4096 dvd ?b1" "has_image (unat ks) (unat ke) e \<Longrightarrow> unat ke \<le> ?b1"
    using l(3) ke(1) page_up_ge [of "unat ke"] page_up_dvd by (auto simp: has_image_def intro: le_trans)
  have up: "unat bb \<le> page_up (unat tail)" "unat tail \<le> page_up (unat tail)" using page_up_ge [of "unat tail"] tail(1) by simp_all
  show "e_begin e \<le> B" "4096 dvd B" "has_image (unat ks) (unat ke) e \<Longrightarrow> unat ke \<le> B"
    unfolding B using b1 up page_up_dvd by (simp_all split del: if_split) (auto intro: le_trans)
  show "unat tail \<le> B" if "unat bl = e_limit e" "unat bb = ?b1" using that up(2) unfolding B by simp
  show "B = page_up (unat tail)" if "unat bl = e_limit e" "unat bb = ?b1" using that unfolding B by simp
  show "B = e_begin e" if "\<not> has_image (unat ks) (unat ke) e" "\<not> (e_begin e \<le> unat bb \<and> unat bl \<le> e_limit e)"
    using that unfolding B by auto
qed

text \<open>They lie within the pages of the region, so they are disjoint.\<close>

abbreviation free_frames_of :: "u64 \<Rightarrow> u64 \<Rightarrow> u64 \<Rightarrow> u64 \<Rightarrow> u64 \<Rightarrow> multiboot2_mmap_entry \<Rightarrow> nat set" where
  "free_frames_of ks ke bb bl tail e \<equiv> {fst (free_region ks ke bb bl tail e)..<snd (free_region ks ke bb bl tail e)}"

text \<open>With a page to spare behind the boot allocations, their region has a free frame.\<close>

lemma spare_frame:
  assumes mo: "map_ok es" and e: "e \<in> set es" "usable e" "unat bl = e_limit e"
      "unat bb = (if has_image (unat ks) (unat ke) e then page_up (unat ke) else e_begin e)"
    and ke: "unat ks \<le> unat ke" "unat ke \<le> 2 ^ 47" and tail: "unat bb \<le> unat tail" "unat tail \<le> 2 ^ 47" and spare: "unat tail + 8191 \<le> unat bl"
  shows "free_frames_of ks ke bb bl tail e \<noteq> {}"
proof -
  have "unat (free_begin ks ke bb bl tail e) = page_up (unat tail)"
    by (rule free_begin_bounds(6) [OF mo e(1,2) ke tail refl e(3,4)])
  moreover have "page_up (unat tail) div 4096 < e_limit e div 4096" using spare unfolding page_up_def e(3) [symmetric] by simp
  ultimately show ?thesis using map_ok_limit(1) [OF mo e(1,2)] by (simp add: free_region_def)
qed

lemma free_frames_within:
  assumes mo: "map_ok es" and e: "e \<in> set es" "usable e" and ke: "unat ks \<le> unat ke" "unat ke \<le> 2 ^ 47"
    and tail: "unat bb \<le> unat tail" "unat tail \<le> 2 ^ 47"
  shows "free_frames_of ks ke bb bl tail e \<subseteq> {e_begin e div 4096..<e_limit e div 4096}"
proof -
  have "e_begin e \<le> unat (free_begin ks ke bb bl tail e)" by (rule free_begin_bounds(1) [OF assms refl])
  then have "e_begin e div 4096 \<le> unat (free_begin ks ke bb bl tail e) div 4096" by (rule div_le_mono)
  then show ?thesis using map_ok_limit(1) [OF mo e] by (auto simp: free_region_def)
qed

lemma free_regions_disjoint:
  assumes mo: "map_ok es" and ke: "unat ks \<le> unat ke" "unat ke \<le> 2 ^ 47" and tail: "unat bb \<le> unat tail" "unat tail \<le> 2 ^ 47"
  shows "sorted_wrt (\<lambda>r r'. {fst r..<snd r} \<inter> {fst r'..<snd r'} = {}) (map (free_region ks ke bb bl tail) (filter usable es))"
proof -
  have "sorted_wrt (\<lambda>e e'. free_frames_of ks ke bb bl tail e \<inter> free_frames_of ks ke bb bl tail e' = {}) (filter usable es)"
  proof (rule sorted_wrt_mono_rel)
    show "sorted_wrt (\<lambda>e e'. usable e \<longrightarrow> usable e' \<longrightarrow> e_limit e \<le> e_begin e' \<or> e_limit e' \<le> e_begin e) (filter usable es)"
      using mo by (simp add: map_ok_def sorted_wrt_filter)
    fix e e' assume e: "e \<in> set (filter usable es)" "e' \<in> set (filter usable es)"
      and "usable e \<longrightarrow> usable e' \<longrightarrow> e_limit e \<le> e_begin e' \<or> e_limit e' \<le> e_begin e"
    then have "e_limit e div 4096 \<le> e_begin e' div 4096 \<or> e_limit e' div 4096 \<le> e_begin e div 4096" by (auto simp: div_le_mono)
    then have "{e_begin e div 4096..<e_limit e div 4096} \<inter> {e_begin e' div 4096..<e_limit e' div 4096} = {}" by auto
    moreover have "free_frames_of ks ke bb bl tail e \<subseteq> {e_begin e div 4096..<e_limit e div 4096}"
      "free_frames_of ks ke bb bl tail e' \<subseteq> {e_begin e' div 4096..<e_limit e' div 4096}"
      using e free_frames_within [OF mo _ _ ke tail] by auto
    ultimately show "free_frames_of ks ke bb bl tail e \<inter> free_frames_of ks ke bb bl tail e' = {}" by blast
  qed
  then show ?thesis by (simp add: sorted_wrt_map)
qed

lemma page_in:
  assumes "i \<in> {b div 4096..<l div 4096}" and "4096 dvd (b :: nat)"
  shows "b \<le> 4096 * i" and "4096 * i + 4096 \<le> l"
proof -
  from assms(2) obtain k where k: "b = 4096 * k" by (elim dvdE)
  show "b \<le> 4096 * i" using assms(1) by (simp add: k)
  have "(i + 1) * 4096 \<le> l div 4096 * 4096" using assms(1) by (intro mult_le_mono1) auto
  also have "\<dots> \<le> l" by (rule div_times_less_eq_dividend)
  finally show "4096 * i + 4096 \<le> l" by simp
qed

section \<open>init_memory\<close>

lemma init_memory_ok:
  assumes mo: "map_ok es" and ks: "unat ks \<le> unat ke" and im: "e0 \<in> set es" "usable e0" "has_image (unat ks) (unat ke) e0"
    and ne: "fst (longest_region es) \<noteq> 0" and br: "boot_region ks ke es = (bb, bl)"
    and fits: "unat bb + 15 + 16 * (unat (highest_limit es) div 4096) < unat bl"
    and empty: "\<forall>k. 0 \<le> k \<longrightarrow> mm_free_region (kpmm s) k = None"
  obtains b1 pm A where "init_memory ks ke es s = Inr (b1, s\<lparr>kpmm := pm\<rparr>)" and "pmm_inv pm" and "alloc_blocks pm = {}"
    and "mm_frames_count pm = unat (highest_limit es) div 4096"
    and "cover (free_blocks pm) = (\<Union>e \<in> {e \<in> set es. usable e}. free_frames_of ks ke bb bl (boot_tail b1) e)"
    and "unat bb \<le> A" and "unat (boot_tail b1) = A + 16 * mm_frames_count pm" and "unat (boot_tail b1) < unat bl"
    and "unat bb + 8206 + 16 * (unat (highest_limit es) div 4096) \<le> unat bl \<Longrightarrow> cover (free_blocks pm) \<noteq> {}"
proof -
  let ?lim = "highest_limit es"
  note hl = highest_limit_bounds [OF mo]
  have ke: "unat ke \<le> 2 ^ 47" using im(3) map_ok_limit(2) [OF mo im(1,2)] by (simp add: has_image_def)
  obtain eb where eb: "eb \<in> set es" "usable eb" "unat bl = e_limit eb"
      "unat bb = (if has_image (unat ks) (unat ke) eb then page_up (unat ke) else e_begin eb)" by (rule boot_region_entry [OF mo ne br ke])
  have bl: "unat bl \<le> 2 ^ 47" using eb(3) map_ok_limit(2) [OF mo eb(1,2)] by simp
  have nz: "?lim \<noteq> 0" using hl(1) eb fits by fastforce
  obtain r b1 pm1 where f: "init_frames (?lim AND PAGE_MASK) (init_boot_alloc bb bl) (kpmm s) = Inr (r, b1, pm1)"
      "mm_frames_count pm1 = unat ?lim div 4096" "unat bb \<le> unat (mm_frames_ptr pm1 - KERNEL_DIRECT_BASE)"
      "unat (boot_tail b1) = unat (mm_frames_ptr pm1 - KERNEL_DIRECT_BASE) + 16 * (unat ?lim div 4096)" "unat (boot_tail b1) < unat bl"
      "unat (boot_tail b1) \<le> unat bb + 15 + 16 * (unat ?lim div 4096)"
    by (rule init_frames_run [OF hl(2) fits bl])
  note st = init_frames_state(2,3) [OF f(1)]
  have le: "\<forall>e \<in> set es. usable e \<longrightarrow> unat (e_addr e + e_len e) div 4096 \<le> mm_frames_count pm1"
    using hl(1) map_ok_limit(1) [OF mo] f(2) by (auto simp: div_le_mono)
  from unreserve_regions_ok [OF le] obtain pm2 where u: "unreserve_regions es pm1 = Inr pm2" "ord pm2 = ord pm1"
      "mm_free_region pm2 = mm_free_region pm1" "mm_frames_count pm2 = mm_frames_count pm1" "is_alloc pm2 = is_alloc pm1"
      "\<forall>e \<in> set es. usable e \<longrightarrow> (\<forall>i. unat (e_addr e) div 4096 \<le> i \<and> i < unat (e_addr e + e_len e) div 4096 \<longrightarrow> \<not> is_resv pm2 i)"
    by auto
  have "mm_frames_count pm2 \<le> 2 ^ 52" using u(4) f(2) hl(2) by (auto intro: le_trans [OF div_le_dividend])
  then have blank: "pmm_inv pm2" "free_blocks pm2 = {}" "alloc_blocks pm2 = {}"
    using blank_pinv [of pm2] u st empty by (auto simp: pmm_inv_def)
  let ?rs = "map (free_region ks ke bb bl (boot_tail b1)) (filter usable es)"
  have tail: "unat bb \<le> unat (boot_tail b1)" "unat (boot_tail b1) \<le> 2 ^ 47" using f(3-5) bl by simp_all
  have "\<exists>s'. add_regions ?rs pm2 = Inr s' \<and> pmm_inv s' \<and>
    cover (free_blocks s') = cover (free_blocks pm2) \<union> (\<Union>r \<in> set ?rs. {fst r..<snd r}) \<and>
    alloc_blocks s' = alloc_blocks pm2 \<and> mm_frames_count s' = mm_frames_count pm2"
  proof (rule add_regions_ok [OF blank(1)])
    show "\<forall>r \<in> set ?rs. snd r \<le> mm_frames_count pm2" using le u(4) by (auto simp: free_region_def)
    show "\<forall>r \<in> set ?rs. \<forall>i \<in> {fst r..<snd r}. ord pm2 i = - 1 \<and> \<not> is_resv pm2 i"
    proof (intro ballI)
      fix r i assume "r \<in> set ?rs" and i: "i \<in> {fst r..<snd r}"
      then obtain e where e: "e \<in> set es" "usable e" "r = free_region ks ke bb bl (boot_tail b1) e" by auto
      with i have "i \<in> {e_begin e div 4096..<e_limit e div 4096}"
        using free_frames_within [OF mo e(1,2) ks ke tail] by blast
      then show "ord pm2 i = - 1 \<and> \<not> is_resv pm2 i"
        using u(2,6) e(1,2) le st(2) map_ok_limit(1) [OF mo e(1,2)] by (fastforce simp: e_begin_def)
    qed
    show "\<forall>r \<in> set ?rs. cover (free_blocks pm2 \<union> alloc_blocks pm2) \<inter> {fst r..<snd r} = {}" using blank by (simp add: cover_def)
    show "sorted_wrt (\<lambda>r r'. {fst r..<snd r} \<inter> {fst r'..<snd r'} = {}) ?rs"
      by (rule free_regions_disjoint [OF mo ks ke tail])
  qed
  then obtain pm where pm: "add_regions ?rs pm2 = Inr pm" "pmm_inv pm" "cover (free_blocks pm) = (\<Union>r \<in> set ?rs. {fst r..<snd r})"
    "alloc_blocks pm = {}" "mm_frames_count pm = mm_frames_count pm2"
    using blank by (auto simp: cover_def)
  have "init_memory ks ke es s = Inr (b1, s\<lparr>kpmm := pm\<rparr>)"
    using ne br nz f(1) u(1) pm(1) by (simp add: init_memory_def init_regions_add get_boot_memory_tail_def init_kernel_mm_def)
  moreover have "cover (free_blocks pm) \<noteq> {}" if "unat bb + 8206 + 16 * (unat ?lim div 4096) \<le> unat bl"
  proof -
    have "free_frames_of ks ke bb bl (boot_tail b1) eb \<noteq> {}" using that f(6) by (intro spare_frame [OF mo eb ks ke tail]) simp
    moreover have "free_region ks ke bb bl (boot_tail b1) eb \<in> set ?rs" using eb(1,2) by simp
    ultimately show ?thesis unfolding pm(3) by blast
  qed
  ultimately show thesis
    using pm(2-5) u(4) f(2-5) by (intro that) auto
qed

lemma free_frame_safe:
  assumes mo: "map_ok es" and ks: "unat ks \<le> unat ke" and im: "e0 \<in> set es" "usable e0" "has_image (unat ks) (unat ke) e0"
    and ne: "fst (longest_region es) \<noteq> 0" and br: "boot_region ks ke es = (bb, bl)"
    and tail: "unat bb \<le> A" "A \<le> unat tail" "unat tail < unat bl"
    and e: "e \<in> set es" "usable e" and i: "i \<in> free_frames_of ks ke bb bl tail e"
  shows "e_begin e \<le> 4096 * i" and "4096 * i + 4096 \<le> e_limit e" and "unat ke \<le> 4096 * i \<or> 4096 * i + 4096 \<le> unat ks"
    and "unat tail \<le> 4096 * i \<or> 4096 * i + 4096 \<le> A"
proof -
  have ke: "unat ke \<le> 2 ^ 47" using im(3) map_ok_limit(2) [OF mo im(1,2)] by (simp add: has_image_def)
  obtain eb where eb: "eb \<in> set es" "usable eb" "unat bl = e_limit eb"
    "unat bb = (if has_image (unat ks) (unat ke) eb then page_up (unat ke) else e_begin eb)"
    by (rule boot_region_entry [OF mo ne br ke])
  have bbeg: "e_begin eb \<le> unat bb" using eb(4) ks page_up_ge [of "unat ke"] by (auto simp: has_image_def)
  have t: "unat bb \<le> unat tail" "unat tail \<le> 2 ^ 47" using tail eb(3) map_ok_limit(2) [OF mo eb(1,2)] by simp_all
  note B = free_begin_bounds [OF mo e ks ke t refl, of bl]
  have lim: "unat (e_addr e + e_len e) = e_limit e" by (rule map_ok_limit(1) [OF mo e])
  note P = page_in [OF i [unfolded free_region_def fst_conv snd_conv lim] B(2)]
  from P(1) B(1) show be: "e_begin e \<le> 4096 * i" by simp
  from P(2) show le: "4096 * i + 4096 \<le> e_limit e" .
  show "unat ke \<le> 4096 * i \<or> 4096 * i + 4096 \<le> unat ks"
  proof (cases "has_image (unat ks) (unat ke) e")
    case True
    then show ?thesis using B(3) P(1) by simp
  next
    case False
    then have "e \<noteq> e0" using im(3) by auto
    then show ?thesis using map_ok_apart [OF mo e im(1,2)] im(3) be le by (auto simp: has_image_def)
  qed
  show "unat tail \<le> 4096 * i \<or> 4096 * i + 4096 \<le> A"
  proof (cases "e = eb")
    case True
    have "unat tail \<le> unat (free_begin ks ke bb bl tail e)" using eb(3,4) by (intro B(4)) (simp_all only: True)
    then show ?thesis using P(1) by simp
  next
    case False
    then show ?thesis using map_ok_apart [OF mo e eb(1,2)] eb(3) bbeg tail be le by auto
  qed
qed

section \<open>Property of mm.c\<close>

text \<open>C9. Start-up of memory management: given a memory map whose usable regions start on a page and do not overlap, the kernel image inside
  one of them, a longest region that does not start at address 0, room for the frame array, and the free lists empty as they are linked, \<open>init_memory\<close> returns with a frame allocator that satisfies its invariant
  and has nothing allocated. Every free frame lies in a usable region and overlaps neither the kernel image nor
  the frame array (the 16 bytes per frame below the tail of the boot allocator); and all frames of a usable region that holds
  neither of the two are free.\<close>

theorem init_memory_correct:
  assumes "map_ok es" and "unat ks \<le> unat ke" and "e0 \<in> set es" and "usable e0" and "has_image (unat ks) (unat ke) e0"
    and "fst (longest_region es) \<noteq> 0" and "boot_region ks ke es = (bb, bl)"
    and "unat bb + 15 + 16 * (unat (highest_limit es) div 4096) < unat bl"
    and "\<forall>k. 0 \<le> k \<longrightarrow> mm_free_region (kpmm s) k = None"
  shows "\<exists>b s'. init_memory ks ke es s = Inr (b, s') \<and> pmm_inv (kpmm s') \<and> alloc_blocks (kpmm s') = {} \<and>
    mm_frames_count (kpmm s') = unat (highest_limit es) div 4096 \<and>
    (\<forall>i \<in> cover (free_blocks (kpmm s')).
      (\<exists>e \<in> set es. usable e \<and> e_begin e \<le> 4096 * i \<and> 4096 * i + 4096 \<le> e_limit e) \<and>
      (unat ke \<le> 4096 * i \<or> 4096 * i + 4096 \<le> unat ks) \<and>
      (unat (boot_tail b) \<le> 4096 * i \<or> 4096 * i + 4096 \<le> unat (boot_tail b) - 16 * mm_frames_count (kpmm s'))) \<and>
    (\<forall>e \<in> set es. usable e \<and> \<not> has_image (unat ks) (unat ke) e \<and> \<not> (e_begin e \<le> unat bb \<and> unat bl \<le> e_limit e) \<longrightarrow>
      {e_begin e div 4096..<e_limit e div 4096} \<subseteq> cover (free_blocks (kpmm s')))"
proof -
  obtain b pm A where r: "init_memory ks ke es s = Inr (b, s\<lparr>kpmm := pm\<rparr>)" "pmm_inv pm" "alloc_blocks pm = {}"
      "mm_frames_count pm = unat (highest_limit es) div 4096"
      "cover (free_blocks pm) = (\<Union>e \<in> {e \<in> set es. usable e}. free_frames_of ks ke bb bl (boot_tail b) e)"
      "unat bb \<le> A" "unat (boot_tail b) = A + 16 * mm_frames_count pm" "unat (boot_tail b) < unat bl"
    by (rule init_memory_ok [OF assms]) blast
  have ke: "unat ke \<le> 2 ^ 47" using assms(5) map_ok_limit(2) [OF assms(1,3,4)] by (simp add: has_image_def)
  obtain eb where "eb \<in> set es" "usable eb" "unat bl = e_limit eb" by (rule boot_region_entry [OF assms(1,6,7) ke])
  then have t: "unat bb \<le> unat (boot_tail b)" "unat (boot_tail b) \<le> 2 ^ 47" using r(6-8) map_ok_limit(2) [OF assms(1)] by fastforce+
  have "{e_begin e div 4096..<e_limit e div 4096} = free_frames_of ks ke bb bl (boot_tail b) e"
    if "e \<in> set es" "usable e" "\<not> has_image (unat ks) (unat ke) e" "\<not> (e_begin e \<le> unat bb \<and> unat bl \<le> e_limit e)" for e
    using free_begin_bounds(5) [OF assms(1) that(1,2) assms(2) ke t refl that(3,4)] map_ok_limit(1) [OF assms(1) that(1,2)]
    by (simp add: free_region_def)
  then have all: "\<forall>e \<in> set es. usable e \<and> \<not> has_image (unat ks) (unat ke) e \<and> \<not> (e_begin e \<le> unat bb \<and> unat bl \<le> e_limit e) \<longrightarrow>
      {e_begin e div 4096..<e_limit e div 4096} \<subseteq> cover (free_blocks pm)"
    unfolding r(5) by blast
  have "A \<le> unat (boot_tail b)" using r(7) by simp
  note safe = free_frame_safe [OF assms(1-7) r(6) this r(8)]
  have "(\<exists>e \<in> set es. usable e \<and> e_begin e \<le> 4096 * i \<and> 4096 * i + 4096 \<le> e_limit e) \<and>
      (unat ke \<le> 4096 * i \<or> 4096 * i + 4096 \<le> unat ks) \<and> (unat (boot_tail b) \<le> 4096 * i \<or> 4096 * i + 4096 \<le> A)"
    if "i \<in> cover (free_blocks pm)" for i
    using that safe unfolding r(5) by blast
  then show ?thesis
    using r(1-4,7) all by (intro exI [of _ b] exI [of _ "s\<lparr>kpmm := pm\<rparr>"]) simp
qed

text \<open>A PC with 4 MiB of memory and a kernel image of 64 KiB at 1 MiB.\<close>

definition demo_map :: "multiboot2_mmap_entry list" where
  "demo_map = [\<lparr>e_addr = 0, e_len = 0x9F000, e_type = 1, e_reserved = 0\<rparr>,
     \<lparr>e_addr = 0x9F000, e_len = 0x61000, e_type = 2, e_reserved = 0\<rparr>,
     \<lparr>e_addr = 0x100000, e_len = 0x300000, e_type = 1, e_reserved = 0\<rparr>]"

lemma demo_map_ok:
  "map_ok demo_map" "longest_region demo_map = (0x300000, 0x100000, 0x400000)" "highest_limit demo_map = 0x400000"
  "boot_region 0x100000 0x110000 demo_map = (0x110000, 0x400000)"
proof -
  show "map_ok demo_map" by (simp add: map_ok_def demo_map_def usable_def e_begin_def e_limit_def)
  show l: "longest_region demo_map = (0x300000, 0x100000, 0x400000)" by (simp add: longest_region_def demo_map_def)
  show "highest_limit demo_map = 0x400000" by (simp add: highest_limit_def demo_map_def)
  show "boot_region 0x100000 0x110000 demo_map = (0x110000, 0x400000)"
    by (simp add: boot_region_def l ALIGN_UP_def align_up_mask_def PAGE_SIZE_def)
qed

theorem init_memory_correct_witness:
  "\<exists>b s'. init_memory 0x100000 0x110000 demo_map (demo_kernel\<lparr>kpmm := blank_pmm 0\<rparr>) = Inr (b, s') \<and> pmm_inv (kpmm s') \<and>
    mm_frames_count (kpmm s') = 1024 \<and> {0..<0x9F} \<subseteq> cover (free_blocks (kpmm s'))"
proof -
  let ?s = "demo_kernel\<lparr>kpmm := blank_pmm 0\<rparr>"
  define e0 :: multiboot2_mmap_entry where "e0 = \<lparr>e_addr = 0x100000, e_len = 0x300000, e_type = 1, e_reserved = 0\<rparr>"
  define lo :: multiboot2_mmap_entry where "lo = \<lparr>e_addr = 0, e_len = 0x9F000, e_type = 1, e_reserved = 0\<rparr>"
  have e0: "e0 \<in> set demo_map" "usable e0" "has_image (unat (0x100000 :: u64)) (unat (0x110000 :: u64)) e0"
    by (simp_all add: demo_map_def usable_def has_image_def e_begin_def e_limit_def e0_def)
  have lo: "lo \<in> set demo_map" "usable lo" "\<not> has_image (unat (0x100000 :: u64)) (unat (0x110000 :: u64)) lo"
      "e_begin lo div 4096 = 0" "e_limit lo div 4096 = 0x9F" "\<not> unat (0x400000 :: u64) \<le> e_limit lo"
    by (simp_all add: demo_map_def usable_def has_image_def e_begin_def e_limit_def lo_def)
  have f: "\<forall>k. 0 \<le> k \<longrightarrow> mm_free_region (kpmm ?s) k = None" by (simp add: blank_pmm_def)
  have "fst (longest_region demo_map) \<noteq> 0"
    "unat (0x110000 :: u64) + 15 + 16 * (unat (highest_limit demo_map) div 4096) < unat (0x400000 :: u64)"
    "unat (0x100000 :: u64) \<le> unat (0x110000 :: u64)"
    by (simp_all add: demo_map_ok(2,3))
  from init_memory_correct [OF demo_map_ok(1) this(3) e0 this(1) demo_map_ok(4) this(2) f] lo show ?thesis
    by (fastforce simp: demo_map_ok(3))
qed

end
