(* ===== verification/Multiboot_Spec.thy ===== *)
theory Multiboot_Spec
  imports Multiboot
begin

text \<open>
  What the boot information readers promise: for a list of tags laid out in memory, the copy into the kernel's buffer holds the same
  tags and the walk over it ends and finds the last memory map and the last framebuffer tag.
\<close>

section \<open>Tags in memory\<close>

definition round8 :: "nat \<Rightarrow> nat" where "round8 n = (n + 7) div 8 * 8"

fun tags_at :: "mem \<Rightarrow> u64 \<Rightarrow> nat \<Rightarrow> (u32 \<times> u32) list \<Rightarrow> bool" where
  "tags_at m B off [] \<longleftrightarrow> load32 m (B + of_nat off) = MULTIBOOT2_TAG_END"
| "tags_at m B off ((ty, sz) # ts) \<longleftrightarrow> ty \<noteq> MULTIBOOT2_TAG_END \<and> 8 \<le> unat sz \<and>
     load32 m (B + of_nat off) = ty \<and> load32 m (B + of_nat (off + 4)) = sz \<and> tags_at m B (off + round8 (unat sz)) ts"

definition tags_span :: "(u32 \<times> u32) list \<Rightarrow> nat" where
  "tags_span ts = sum_list (map (\<lambda>t. round8 (unat (snd t))) ts)"

text \<open>The offset of the last tag of a type, the first tag being at \<open>off\<close>.\<close>

fun last_tag :: "u32 \<Rightarrow> nat \<Rightarrow> (u32 \<times> u32) list \<Rightarrow> nat option \<Rightarrow> nat option" where
  "last_tag ty off [] found = found"
| "last_tag ty off ((t, sz) # ts) found = last_tag ty (off + round8 (unat sz)) ts (if t = ty then Some off else found)"

definition tag_pointer :: "u64 \<Rightarrow> nat option \<Rightarrow> u64" where
  "tag_pointer B r = (case r of None \<Rightarrow> 0 | Some off \<Rightarrow> B + of_nat off)"

lemma round8_facts: "n \<le> round8 n" "8 dvd round8 n" "8 dvd k \<Longrightarrow> round8 (k + n) = k + round8 n"
proof -
  show "n \<le> round8 n" "8 dvd round8 n" using nat_round_up_ge [of n 3] by (simp_all add: round8_def)
  assume "8 dvd k"
  then obtain j where k: "k = 8 * j" by (elim dvdE)
  have "(8 * j + (n + 7)) div 8 = j + (n + 7) div 8" by simp
  then show "round8 (k + n) = k + round8 n" by (simp only: round8_def k add.assoc) simp
qed

lemma tags_length: "tags_at m B off ts \<Longrightarrow> 8 * length ts \<le> tags_span ts"
proof (induction m B off ts rule: tags_at.induct)
  case (2 m B off ty sz ts)
  then show ?case using round8_facts(1) [of "unat sz"] by (auto simp: tags_span_def)
qed (simp add: tags_span_def)

lemma next_tag:
  assumes "8 dvd unat B" and "8 dvd off" and "unat B + off + unat sz + 8 \<le> 2 ^ 64" and "load32 m (B + of_nat (off + 4)) = sz"
  shows "MULTIBOOT2_NEXT_TAG m (B + of_nat off) = B + of_nat (off + round8 (unat sz))"
proof -
  have m7: "(7 :: u64) = mask 3" by (simp add: mask_eq_exp_minus_1)
  have sz: "tag_size (read_tag m (B + of_nat off)) = sz" using assms(4) by (simp add: read_tag_def add.assoc)
  have u: "unat (B + of_nat off) = unat B + off" using assms(3) by (subst unat_add_nowrap) (simp_all add: unat_of_nat_small)
  have us: "unat (ucast sz :: u64) = unat sz" by (simp add: unsigned_ucast_eq take_bit_nat_eq_self less_trans [OF unsigned_less])
  have "unat (B + of_nat off + ucast sz) = unat B + off + unat sz"
    using assms(3) u us by (subst unat_add_nowrap) simp_all
  then have "unat (MULTIBOOT2_NEXT_TAG m (B + of_nat off)) = (unat B + off + unat sz + 7) div 8 * 8"
    unfolding MULTIBOOT2_NEXT_TAG_def sz m7 using assms(3) by (subst unat_align_up_mask) simp_all
  also have "\<dots> = unat B + off + round8 (unat sz)"
    using round8_facts(3) [of "unat B + off" "unat sz"] assms(1,2) by (simp add: round8_def)
  also have "\<dots> = unat (B + of_nat (off + round8 (unat sz)))"
  proof -
    have "round8 (unat sz) < unat sz + 8" by (simp add: round8_def)
    then show ?thesis using assms(3) by (subst unat_add_nowrap) (simp_all add: unat_of_nat_small del: of_nat_add)
  qed
  finally show ?thesis by (rule unsigned_word_eqI)
qed

lemma parse_tags_ok:
  assumes "tags_at m B off ts" and "8 dvd unat B" and "8 dvd off" and "unat B + off + tags_span ts + 8 \<le> 2 ^ 64" and "length ts \<le> fuel"
  shows "parse_tags fuel m (B + of_nat off) (tag_pointer B x, tag_pointer B y) =
    Inr (tag_pointer B (last_tag MULTIBOOT2_TAG_MEMORY_MAP off ts x), tag_pointer B (last_tag MULTIBOOT2_TAG_FRAMEBUFFER_INFORMATION off ts y))"
  using assms
proof (induction m B off ts arbitrary: fuel x y rule: tags_at.induct)
  case (1 m B off)
  then show ?case by (subst parse_tags.simps) (simp add: read_tag_def)
next
  case (2 m B off ty sz ts)
  have span: "tags_span ((ty, sz) # ts) = round8 (unat sz) + tags_span ts" by (simp add: tags_span_def)
  have t: "load32 m (B + of_nat off) = ty" "load32 m (B + of_nat (off + 4)) = sz" "ty \<noteq> MULTIBOOT2_TAG_END" "tags_at m B (off + round8 (unat sz)) ts"
    using "2.prems"(1) by (simp_all del: of_nat_add)
  have nxt: "MULTIBOOT2_NEXT_TAG m (B + of_nat off) = B + of_nat (off + round8 (unat sz))"
    using "2.prems"(2-4) t(2) round8_facts(1) [of "unat sz"] by (intro next_tag) (simp_all add: span)
  have IH: "parse_tags (fuel - 1) m (B + of_nat (off + round8 (unat sz))) (tag_pointer B x', tag_pointer B y') =
    Inr (tag_pointer B (last_tag MULTIBOOT2_TAG_MEMORY_MAP (off + round8 (unat sz)) ts x'),
      tag_pointer B (last_tag MULTIBOOT2_TAG_FRAMEBUFFER_INFORMATION (off + round8 (unat sz)) ts y'))" for x' y'
    using "2.prems"(2-5) t(4) round8_facts(2) by (intro "2.IH") (simp_all add: span)
  have "fuel \<noteq> 0" "tag_type (read_tag m (B + of_nat off)) = ty" using "2.prems"(5) t(1) by (simp_all add: read_tag_def)
  moreover have "(if ty = MULTIBOOT2_TAG_MEMORY_MAP then (B + of_nat off, snd (tag_pointer B x, tag_pointer B y))
      else if ty = MULTIBOOT2_TAG_FRAMEBUFFER_INFORMATION then (fst (tag_pointer B x, tag_pointer B y), B + of_nat off)
      else (tag_pointer B x, tag_pointer B y)) =
    (tag_pointer B (if ty = MULTIBOOT2_TAG_MEMORY_MAP then Some off else x),
      tag_pointer B (if ty = MULTIBOOT2_TAG_FRAMEBUFFER_INFORMATION then Some off else y))"
    by (simp add: tag_pointer_def MULTIBOOT2_TAG_MEMORY_MAP_def MULTIBOOT2_TAG_FRAMEBUFFER_INFORMATION_def)
  ultimately show ?case
    using t(3) IH by (subst parse_tags.simps) (simp only: Let_def nxt if_False last_tag.simps)
qed

section \<open>The copy\<close>

text \<open>The first \<open>n\<close> bytes at \<open>B'\<close> are those at \<open>B\<close>.\<close>

definition same_bytes :: "nat \<Rightarrow> mem \<Rightarrow> u64 \<Rightarrow> mem \<Rightarrow> u64 \<Rightarrow> bool" where
  "same_bytes n m' B' m B \<longleftrightarrow> (\<forall>i < n. m' (B' + of_nat i) = m (B + of_nat i))"

lemma same_bytes_load:
  assumes "same_bytes n m' B' m B" and "8 dvd LENGTH('a)" and "o1 + LENGTH('a) div 8 \<le> n"
  shows "(load_word m' (B' + of_nat o1) :: 'a::len word) = load_word m (B + of_nat o1)"
proof (rule bit_word_eqI)
  fix k assume k: "k < LENGTH('a)"
  have "k div 8 < LENGTH('a) div 8" using k assms(2) by (auto elim!: dvdE)
  then have "o1 + k div 8 < n" using assms(3) by linarith
  from assms(1) [unfolded same_bytes_def, rule_format, OF this]
  have "m' (B' + of_nat (o1 + k div 8)) = m (B + of_nat (o1 + k div 8))" .
  then show "bit (load_word m' (B' + of_nat o1) :: 'a word) k = bit (load_word m (B + of_nat o1) :: 'a word) k"
    using k assms(2) by (simp add: bit_load_word add.assoc)
qed

lemma tags_at_copy:
  assumes "tags_at m B off ts" and "same_bytes n m' B' m B" and "off + tags_span ts + 8 \<le> n"
  shows "tags_at m' B' off ts"
  using assms
proof (induction m B off ts rule: tags_at.induct)
  case (1 m B off)
  then show ?case using same_bytes_load [OF 1(2), of off, where 'a = 32] by simp
next
  case (2 m B off ty sz ts)
  have r: "8 \<le> round8 (unat sz)" using "2.prems"(1) round8_facts(1) [of "unat sz"] by simp
  have "tags_at m' B' (off + round8 (unat sz)) ts"
    using "2.prems" by (intro "2.IH") (simp_all add: tags_span_def del: of_nat_add)
  moreover have "load32 m' (B' + of_nat off) = load32 m (B + of_nat off)" "load32 m' (B' + of_nat (off + 4)) = load32 m (B + of_nat (off + 4))"
    using "2.prems"(2,3) r by (auto intro!: same_bytes_load simp: tags_span_def simp del: of_nat_add)
  ultimately show ?case using "2.prems"(1) by (simp del: of_nat_add)
qed

lemma memcpy_same_bytes:
  assumes "unat n \<le> 2 ^ 32" and "unat n \<le> unat (dst - src)"
  shows "same_bytes (unat n) (snd (memcpy m dst src n)) dst m src"
  unfolding same_bytes_def
proof (intro allI impI)
  fix i assume i: "i < unat n"
  then have "unat (of_nat i :: u64) = i" using assms(1) by (intro unat_of_nat_small) simp
  then show "snd (memcpy m dst src n) (dst + of_nat i) = m (src + of_nat i)"
    using assms i unfolding memcpy_def snd_conv by (subst memcpy_loop_eq) simp_all
qed

abbreviation info_size :: "mem \<Rightarrow> u64 \<Rightarrow> nat" where
  "info_size m info \<equiv> unat (total_size (read_info m info))"

lemma info_too_big: "INFO_BUFFER_SIZE \<le> ucast (total_size (read_info m info)) \<longleftrightarrow> 16384 \<le> info_size m info"
  by (simp add: INFO_BUFFER_SIZE_def word_le_nat_alt unsigned_ucast_eq take_bit_nat_eq_self less_trans [OF unsigned_less])

lemma copy_info:
  assumes "info_size m info < 16384" and "info_size m info \<le> unat (buffer - info)"
  obtains m' where "copy_multiboot_info buffer info m = Inr m'" and "same_bytes (info_size m info) m' buffer m info"
    and "\<And>x. 16384 \<le> unat (x - buffer) \<Longrightarrow> m' x = m x"
proof -
  let ?n = "ucast (total_size (read_info m info)) :: u64"
  have un: "unat ?n = info_size m info" by (simp add: unsigned_ucast_eq take_bit_nat_eq_self less_trans [OF unsigned_less])
  show thesis
  proof (rule that [of "snd (memcpy m buffer info ?n)"])
    show "copy_multiboot_info buffer info m = Inr (snd (memcpy m buffer info ?n))"
      using assms(1) by (simp add: copy_multiboot_info_def info_too_big)
    show "same_bytes (info_size m info) (snd (memcpy m buffer info ?n)) buffer m info"
      using memcpy_same_bytes [of ?n buffer info m] assms unfolding un by simp
    show "snd (memcpy m buffer info ?n) x = m x" if "16384 \<le> unat (x - buffer)" for x
      unfolding memcpy_def snd_conv using that assms un by (subst memcpy_loop_eq) simp_all
  qed
qed

lemma parse_copied:
  assumes "tags_at m info 8 ts" and "same_bytes n m' buffer m info" and "16 + tags_span ts \<le> n" and "n < 16384"
    and "8 dvd unat buffer" and "unat buffer + 16384 \<le> 2 ^ 64"
  shows "parse_multiboot_info buffer m' (0, 0) =
    Inr (tag_pointer buffer (last_tag MULTIBOOT2_TAG_MEMORY_MAP 8 ts None),
      tag_pointer buffer (last_tag MULTIBOOT2_TAG_FRAMEBUFFER_INFORMATION 8 ts None))"
proof -
  have "8 + tags_span ts + 8 \<le> n" using assms(3) by simp
  then have "tags_at m' buffer 8 ts" by (rule tags_at_copy [OF assms(1,2)])
  moreover have "length ts < 16384" using tags_length [OF assms(1)] assms(3,4) by linarith
  then have "length ts \<le> 2 ^ 64" by simp
  ultimately have "parse_tags (2 ^ 64) m' (buffer + of_nat 8) (tag_pointer buffer None, tag_pointer buffer None) =
      Inr (tag_pointer buffer (last_tag MULTIBOOT2_TAG_MEMORY_MAP 8 ts None),
        tag_pointer buffer (last_tag MULTIBOOT2_TAG_FRAMEBUFFER_INFORMATION 8 ts None))"
    using assms(3-6) by (intro parse_tags_ok) simp_all
  then show ?thesis by (simp add: parse_multiboot_info_def MULTIBOOT2_FIRST_TAG_def tag_pointer_def)
qed

section \<open>Property of the boot information readers\<close>

text \<open>C30. Boot information: when the loader's structure, shorter than the buffer and apart from it, holds a list of tags of at least 8 bytes closed by an end tag,
  and the buffer is aligned to 8 bytes,
  \<open>copy_multiboot_info\<close> succeeds and \<open>parse_multiboot_info\<close> on the copy terminates, with pointers into the buffer to the last memory
  map tag and the last framebuffer tag, null where there is none. A structure of 16384 bytes or more is refused with a panic.\<close>

theorem parse_multiboot_info_correct:
  "(tags_at m info 8 ts \<and> 16 + tags_span ts \<le> info_size m info \<and> info_size m info < 16384 \<and>
    8 dvd unat buffer \<and> unat buffer + 16384 \<le> 2 ^ 64 \<and> info_size m info \<le> unat (buffer - info) \<longrightarrow>
    (\<exists>m'. copy_multiboot_info buffer info m = Inr m' \<and>
      parse_multiboot_info buffer m' (0, 0) =
        Inr (tag_pointer buffer (last_tag MULTIBOOT2_TAG_MEMORY_MAP 8 ts None),
          tag_pointer buffer (last_tag MULTIBOOT2_TAG_FRAMEBUFFER_INFORMATION 8 ts None)) \<and>
      (\<forall>x. 16384 \<le> unat (x - buffer) \<longrightarrow> m' x = m x))) \<and>
   (16384 \<le> info_size m info \<longrightarrow> copy_multiboot_info buffer info m = Inl (Panic ''Bootloader information is too big.''))"
proof (intro conjI impI, goal_cases)
  case 1
  then obtain m' where "copy_multiboot_info buffer info m = Inr m'" "same_bytes (info_size m info) m' buffer m info"
    "\<And>x. 16384 \<le> unat (x - buffer) \<Longrightarrow> m' x = m x" using copy_info by blast
  with 1 parse_copied show ?case by blast
qed (simp add: copy_multiboot_info_def info_too_big)

text \<open>A structure of 40 bytes at \<open>0x9000\<close>: a memory map tag of 16 bytes, then the end tag.\<close>

definition demo_info :: mem where
  "demo_info = store32 (store32 (store32 (store32 (\<lambda>_. 0) 0x9000 40) 0x9008 6) 0x900C 16) 0x9018 0"

lemma demo_info_loads: "load32 demo_info 0x9000 = 40" "load32 demo_info 0x9008 = 6" "load32 demo_info 0x900C = 16" "load32 demo_info 0x9018 = 0"
  unfolding demo_info_def by (simp_all add: m32.load_after_store apart_def)

theorem parse_multiboot_info_correct_witness:
  "\<exists>m'. copy_multiboot_info 0xFFFFFFFF80100000 0x9000 demo_info = Inr m' \<and>
    parse_multiboot_info 0xFFFFFFFF80100000 m' (0, 0) = Inr (0xFFFFFFFF80100008, 0)"
proof -
  have "tags_at demo_info 0x9000 8 [(6, 16)]" by (simp add: demo_info_loads round8_def MULTIBOOT2_TAG_END_def)
  moreover have "tags_span [(6, 16)] = 16" by (simp add: tags_span_def round8_def)
  moreover have "8 dvd unat (0xFFFFFFFF80100000 :: u64)" by simp
  ultimately show ?thesis
    using parse_multiboot_info_correct [of demo_info "0x9000" "[(6, 16)]" "0xFFFFFFFF80100000"]
    by (auto simp: read_info_def demo_info_loads tag_pointer_def MULTIBOOT2_TAG_MEMORY_MAP_def MULTIBOOT2_TAG_FRAMEBUFFER_INFORMATION_def)
qed

end
