(* ===== verification/Console_Spec.thy ===== *)
theory Console_Spec
  imports Console Fbcon_Spec Snprintf_Spec Demo
begin

text \<open>
  Kernel messages: what \<open>kprintf\<close> formats reaches the serial port and the screen, and a panic reports its message and stops the
  processor with interrupts disabled.
\<close>

lemma c_string_put:
  assumes "NUL \<notin> set t" and "length t < n"
  shows "c_string n ((put t 0 out)(int (length t) := NUL)) = Inr t"
proof -
  let ?b = "(put t 0 out)(int (length t) := NUL)"
  have "[0..<n] = [0..<length t] @ length t # [Suc (length t)..<n]"
    using assms(2) by (metis le0 less_imp_le_nat upt_add_eq_append upt_conv_Cons le_add_diff_inverse)
  moreover have "map (\<lambda>i. ?b (int i)) [0..<length t] = t"
    by (intro nth_equalityI) (simp_all add: put_apply)
  ultimately have "map (\<lambda>i. ?b (int i)) [0..<n] = t @ NUL # map (\<lambda>i. ?b (int i)) [Suc (length t)..<n]" by simp
  moreover have "\<forall>c \<in> set t. c \<noteq> NUL" using assms(1) by auto
  ultimately show ?thesis unfolding c_string_def by (simp add: takeWhile_append)
qed

lemma serial_live:
  assumes "uart_live (kcpu (kern s))" and "NUL \<notin> set str"
  obtains c where "serial str s = Inr (set_cpu c s)" and "port_out c = port_out (kcpu (kern s)) @ map (\<lambda>ch. (COM, of_char ch)) str"
    and "rflags c = rflags (kcpu (kern s))" and "uart_live c" and "c = (kcpu (kern s))\<lparr>port_reads := port_reads c, port_out := port_out c\<rparr>"
proof -
  have tw: "takeWhile (\<lambda>ch. ch \<noteq> NUL) str = str" using assms(2) by (simp add: takeWhile_eq_all_conv) metis
  obtain r where "uart_write_str str (kcpu (kern s)) = Some ((kcpu (kern s))\<lparr>port_reads := r,
      port_out := port_out (kcpu (kern s)) @ map (\<lambda>ch. (COM, of_char ch)) str\<rparr>)" (is "_ = Some ?c")
    using uart_write_str_ready [OF assms(1), of str] unfolding tw by blast
  moreover have "uart_live ?c" using assms(1) by (simp add: uart_live_def tx_ready_def)
  ultimately show thesis by (intro that [of ?c]) (simp_all add: serial_def or_spin_def)
qed

lemma set_cpu_simps [simp]:
  "kcpu (kern (set_cpu c s)) = c" "kmem (kern (set_cpu c s)) = kmem (kern s)" "kpmm (kern (set_cpu c s)) = kpmm (kern s)"
  "framebuffer_info (set_cpu c s) = framebuffer_info s" "con (set_cpu c s) = con s" "in_panic (set_cpu c s) = in_panic s"
  "panic_use_fbcon (set_cpu c s) = panic_use_fbcon s" "set_cpu c (set_cpu c' s) = set_cpu c s"
  "kcpu (kern (set_mem m s)) = kcpu (kern s)" "kmem (kern (set_mem m s)) = m" "kpmm (kern (set_mem m s)) = kpmm (kern s)"
  "framebuffer_info (set_mem m s) = framebuffer_info s" "con (set_mem m s) = con s" "in_panic (set_mem m s) = in_panic s"
  "interrupt_handlers (set_cpu c s) = interrupt_handlers s" "interrupt_handlers (set_mem m s) = interrupt_handlers s"
  by (simp_all add: set_cpu_def set_mem_def)

lemma uart_live_flags [simp]: "uart_live (disable_interrupts c) = uart_live c" "port_out (disable_interrupts c) = port_out c"
  by (simp_all add: uart_live_def tx_ready_def disable_interrupts_def)

lemma vsnprintf_text:
  assumes "render fmt args = Inr t" and "- 1 \<notin> set (directive_widths fmt)" and "length t \<le> 1022" and "NUL \<notin> set t"
  obtains n buffer where "vsnprintf out 1024 fmt args = Inr (n, buffer)" and "c_string 1024 buffer = Inr t"
proof -
  have "int (length t) + 2 \<le> uint (1024 :: u64)" using assms(3) by simp
  from vsnprintf_fits [OF assms(1,2) this, of out] c_string_put [OF assms(4), of 1024 out] assms(3) show thesis
    by (intro that) simp_all
qed

lemma vpanic_double:
  assumes "uart_live (kcpu (kern s))" and "in_panic s"
  shows "\<exists>s'. vpanic msg args s = Inr s' \<and> \<not> interrupts_enabled (kcpu (kern s')) \<and> kmem (kern s') = kmem (kern s) \<and>
    port_out (kcpu (kern s')) = port_out (kcpu (kern s)) @ map (\<lambda>ch. (COM, of_char ch)) (''*** Double panic detected'' @ [CHR 0x0A])"
proof -
  let ?s0 = "set_cpu (disable_interrupts (kcpu (kern s))) s"
  have "uart_live (kcpu (kern ?s0))" "NUL \<notin> set (''*** Double panic detected'' @ [CHR 0x0A])" using assms(1) by (simp_all add: NUL_def)
  from serial_live [OF this] obtain c where "serial (''*** Double panic detected'' @ [CHR 0x0A]) ?s0 = Inr (set_cpu c ?s0)"
    "port_out c = port_out (kcpu (kern ?s0)) @ map (\<lambda>ch. (COM, of_char ch)) (''*** Double panic detected'' @ [CHR 0x0A])" by blast
  with assms(2) show ?thesis by (simp add: vpanic_def halt_cpu_forever_def)
qed

lemma vpanic_first:
  assumes live: "uart_live (kcpu (kern s))" and "\<not> in_panic s" and "\<not> panic_use_fbcon s"
    and "render msg args = Inr t" and "- 1 \<notin> set (directive_widths msg)" and "length t \<le> 1022" and "NUL \<notin> set t"
  shows "\<exists>s'. vpanic msg args s = Inr s' \<and> in_panic s' \<and> \<not> interrupts_enabled (kcpu (kern s')) \<and> kmem (kern s') = kmem (kern s) \<and>
    port_out (kcpu (kern s')) = port_out (kcpu (kern s)) @ map (\<lambda>ch. (COM, of_char ch)) (''kernel panic: '' @ t @ [CHR 0x0A])"
proof -
  let ?s1 = "set_cpu (disable_interrupts (kcpu (kern s))) s\<lparr>in_panic := True\<rparr>"
  obtain n buffer where v: "vsnprintf (\<lambda>_. NUL) 1024 msg args = Inr (n, buffer)" "c_string 1024 buffer = Inr t"
    by (rule vsnprintf_text [OF assms(4-7)])
  have "uart_live (kcpu (kern ?s1))" "NUL \<notin> set ''kernel panic: ''" using live by (simp_all add: NUL_def)
  from serial_live [OF this] obtain c2 where c2: "serial ''kernel panic: '' ?s1 = Inr (set_cpu c2 ?s1)"
    "port_out c2 = port_out (kcpu (kern ?s1)) @ map (\<lambda>ch. (COM, of_char ch)) ''kernel panic: ''" "uart_live c2" by blast
  have "uart_live (kcpu (kern (set_cpu c2 ?s1)))" using c2(3) by simp
  from serial_live [OF this assms(7)] obtain c3 where c3: "serial t (set_cpu c2 ?s1) = Inr (set_cpu c3 (set_cpu c2 ?s1))"
    "port_out c3 = port_out (kcpu (kern (set_cpu c2 ?s1))) @ map (\<lambda>ch. (COM, of_char ch)) t" "uart_live c3" by blast
  obtain r where "uart_write (CHR 0x0A) c3 = Some (c3\<lparr>port_reads := r, port_out := port_out c3 @ [(COM, of_char (CHR 0x0A))]\<rparr>)"
    using uart_write_ready [OF c3(3)] by blast
  with assms(2,3) v c2(1,2) c3(1,2) show ?thesis by (simp add: vpanic_def halt_cpu_forever_def or_spin_def)
qed

lemma kprintf_shown:
  assumes "render fmt args = Inr t" and "- 1 \<notin> set (directive_widths fmt)" and "length t \<le> 1022"
    and "\<forall>c \<in> set t. of_char c < (128 :: nat) \<and> c \<noteq> NUL" and "uart_live (kcpu (kern s))"
    and "fbcon_ok (framebuffer_info s) (con s)" and "displays (framebuffer_info s) (con s) (kmem (kern s)) (t_cell tm)"
    and "fbcon_x (con s) = of_nat (t_x tm)" and "fbcon_y (con s) = of_nat (t_y tm)"
    and "t_ok (unat (fbcon_cx (con s))) (unat (fbcon_cy (con s))) tm"
    and "tm' = term_write (unat (fbcon_cx (con s))) (unat (fbcon_cy (con s))) t tm"
  obtains c m' where "kprintf stack fmt args s = Inr (set_mem m' (set_cpu c s\<lparr>con := cursor_at (t_x tm') (t_y tm') (con s)\<rparr>))"
    and "port_out c = port_out (kcpu (kern s)) @ map (\<lambda>ch. (COM, of_char ch)) t"
    and "c = (kcpu (kern s))\<lparr>port_reads := port_reads c, port_out := port_out c\<rparr>"
    and "displays (framebuffer_info s) (con s) m' (t_cell tm')"
    and "\<forall>p. \<not> in_fb (framebuffer_info s) p \<longrightarrow> m' p = kmem (kern s) p"
proof -
  have nn: "NUL \<notin> set t" using assms(4) by auto
  obtain n buffer where v: "vsnprintf stack 1024 fmt args = Inr (n, buffer)" "c_string 1024 buffer = Inr t"
    by (rule vsnprintf_text [OF assms(1-3) nn])
  obtain c where c: "serial t s = Inr (set_cpu c s)" "port_out c = port_out (kcpu (kern s)) @ map (\<lambda>ch. (COM, of_char ch)) t"
      "c = (kcpu (kern s))\<lparr>port_reads := port_reads c, port_out := port_out c\<rparr>"
    by (rule serial_live [OF assms(5) nn])
  have cur: "cursor_at (t_x tm) (t_y tm) (con s) = con s" using assms(8,9) by (simp add: cursor_at_def)
  obtain m' where m': "fbcon_write (framebuffer_info s) t (con s) (kmem (kern s)) = Inr (cursor_at (t_x tm') (t_y tm') (con s), m')"
      "displays (framebuffer_info s) (con s) m' (t_cell tm')" "\<forall>p. \<not> in_fb (framebuffer_info s) p \<longrightarrow> m' p = kmem (kern s) p"
    using written_string [OF assms(6,7,10,4)] unfolding written_def cur assms(11) by blast
  have "kprintf stack fmt args s = Inr (set_mem m' (set_cpu c s\<lparr>con := cursor_at (t_x tm') (t_y tm') (con s)\<rparr>))"
    using v c(1) m'(1) by (simp add: kprintf_def vkprintf_def screen_def)
  then show thesis using c(2,3) m'(2,3) by (rule that)
qed

section \<open>A sample machine\<close>

definition demo_machine :: machine where
  "demo_machine = \<lparr>kern = demo_kernel, boot = \<lparr>boot_begin = 0, boot_tail = 0, boot_limit = 0\<rparr>,
     gdts = \<lparr>gdt = gdt_initial, tss_seg = zero_tss\<rparr>,
     idt = replicate 256 \<lparr>offset_low = 0, selector = 0, ist = 0, attributes = 0, offset_mid = 0, offset_high = 0, reserved = 0\<rparr>,
     framebuffer_info = demo_fb, con = demo_con, panic_use_fbcon = False, in_panic = False,
     interrupt_handlers = replicate 256 0, multiboot_mmap_info = 0, multiboot_framebuffer_info = 0\<rparr>"

lemma demo_machine_live: "uart_live (kcpu (kern demo_machine))"
  by (auto simp: uart_live_def tx_ready_def demo_machine_def demo_kernel_def demo_cpu_def)

lemma demo_machine_simps [simp]:
  "framebuffer_info demo_machine = demo_fb" "con demo_machine = demo_con" "port_out (kcpu (kern demo_machine)) = []"
  "\<not> in_panic demo_machine" "\<not> panic_use_fbcon demo_machine" "kern demo_machine = demo_kernel"
  by (simp_all add: demo_machine_def demo_kernel_def demo_cpu_def)

section \<open>Properties of kprintf.c and panic.c\<close>

text \<open>C27. A kernel message reaches both outputs: with a live serial port and a console in order, \<open>kprintf\<close> of a format (without the width \<open>0xFFFFFFFF\<close>) whose text has
  at most 1022 characters, all below 128 and none NUL, returns; the serial port has received exactly the text, the screen shows what an ideal terminal
  shows after it, and no byte outside the framebuffer has changed.\<close>

theorem kprintf_correct:
  assumes "render fmt args = Inr t" and "- 1 \<notin> set (directive_widths fmt)" and "length t \<le> 1022"
    and "\<forall>c \<in> set t. of_char c < (128 :: nat) \<and> c \<noteq> NUL" and "uart_live (kcpu (kern s))"
    and "fbcon_ok (framebuffer_info s) (con s)" and "displays (framebuffer_info s) (con s) (kmem (kern s)) (t_cell tm)"
    and "fbcon_x (con s) = of_nat (t_x tm)" and "fbcon_y (con s) = of_nat (t_y tm)"
    and "t_ok (unat (fbcon_cx (con s))) (unat (fbcon_cy (con s))) tm"
    and "tm' = term_write (unat (fbcon_cx (con s))) (unat (fbcon_cy (con s))) t tm"
  shows "\<exists>s'. kprintf stack fmt args s = Inr s' \<and>
    port_out (kcpu (kern s')) = port_out (kcpu (kern s)) @ map (\<lambda>ch. (COM, of_char ch)) t \<and>
    displays (framebuffer_info s) (con s') (kmem (kern s')) (t_cell tm') \<and>
    con s' = cursor_at (t_x tm') (t_y tm') (con s) \<and> rflags (kcpu (kern s')) = rflags (kcpu (kern s)) \<and>
    (\<forall>p. \<not> in_fb (framebuffer_info s) p \<longrightarrow> kmem (kern s') p = kmem (kern s) p)"
proof -
  obtain c m' where r: "kprintf stack fmt args s = Inr (set_mem m' (set_cpu c s\<lparr>con := cursor_at (t_x tm') (t_y tm') (con s)\<rparr>))" (is "_ = Inr ?s")
    "port_out c = port_out (kcpu (kern s)) @ map (\<lambda>ch. (COM, of_char ch)) t"
    "c = (kcpu (kern s))\<lparr>port_reads := port_reads c, port_out := port_out c\<rparr>"
    "displays (framebuffer_info s) (con s) m' (t_cell tm')" "\<forall>p. \<not> in_fb (framebuffer_info s) p \<longrightarrow> m' p = kmem (kern s) p"
    by (rule kprintf_shown [OF assms])
  have "con ?s = cursor_at (t_x tm') (t_y tm') (con s)" "kmem (kern ?s) = m'" "kcpu (kern ?s) = c" "rflags c = rflags (kcpu (kern s))"
    using arg_cong [OF r(3), of rflags] by (simp_all add: set_mem_def set_cpu_def)
  then show ?thesis using r by (intro exI [of _ ?s]) simp
qed

theorem kprintf_correct_witness:
  "\<exists>s'. kprintf (\<lambda>_. CHR ''z'') ''A%u'' [VInt 7] demo_machine = Inr s' \<and> port_out (kcpu (kern s')) = [(0x3E8, 0x41), (0x3E8, 0x37)]"
proof -
  let ?t = "\<lparr>t_x = 0, t_y = 0, t_cell = \<lambda>_ _. None\<rparr>"
  have r: "render ''A%u'' [VInt 7] = Inr ''A7''" "- 1 \<notin> set (directive_widths ''A%u'')" by code_simp+
  have "\<forall>c \<in> set ''A7''. of_char c < (128 :: nat) \<and> c \<noteq> NUL" by (simp add: NUL_def)
  moreover have "t_ok (unat (fbcon_cx (con demo_machine))) (unat (fbcon_cy (con demo_machine))) ?t" by (simp add: t_ok_def demo_con_eq)
  moreover have "fbcon_ok (framebuffer_info demo_machine) (con demo_machine)" using demo_con_ok by simp
  moreover have "fbcon_x (con demo_machine) = of_nat (t_x ?t)" "fbcon_y (con demo_machine) = of_nat (t_y ?t)" by (simp_all add: demo_con_eq)
  ultimately obtain s' where "kprintf (\<lambda>_. CHR ''z'') ''A%u'' [VInt 7] demo_machine = Inr s'"
      "port_out (kcpu (kern s')) = port_out (kcpu (kern demo_machine)) @ map (\<lambda>ch. (COM, of_char ch)) ''A7''"
    using kprintf_correct [OF r _ _ demo_machine_live, of ?t _ "\<lambda>_. CHR ''z''"] displays_unknown by fastforce
  then show ?thesis by (simp add: COM_def COM3_def del: demo_machine_simps(6))
qed

text \<open>C28. A panic stops the machine: with a live serial port, the first panic, of a message that renders to at most 1022 characters without NUL (and has no width
  \<open>0xFFFFFFFF\<close>), sends \<open>kernel panic: \<close>, the message and a newline, and
  ends with the processor halted, interrupts disabled and memory unchanged (the console not being selected); a
  panic within a panic only sends a fixed line and halts in the same way.\<close>

theorem vpanic_correct:
  assumes "uart_live (kcpu (kern s))"
  shows "(in_panic s \<longrightarrow> (\<exists>s'. vpanic msg args s = Inr s' \<and> \<not> interrupts_enabled (kcpu (kern s')) \<and> kmem (kern s') = kmem (kern s) \<and>
      port_out (kcpu (kern s')) = port_out (kcpu (kern s)) @ map (\<lambda>ch. (COM, of_char ch)) (''*** Double panic detected'' @ [CHR 0x0A]))) \<and>
    (\<not> in_panic s \<and> \<not> panic_use_fbcon s \<and> render msg args = Inr t \<and> - 1 \<notin> set (directive_widths msg) \<and> length t \<le> 1022 \<and> NUL \<notin> set t \<longrightarrow>
      (\<exists>s'. vpanic msg args s = Inr s' \<and> in_panic s' \<and> \<not> interrupts_enabled (kcpu (kern s')) \<and> kmem (kern s') = kmem (kern s) \<and>
        port_out (kcpu (kern s')) = port_out (kcpu (kern s)) @ map (\<lambda>ch. (COM, of_char ch)) (''kernel panic: '' @ t @ [CHR 0x0A])))"
  using vpanic_double [OF assms] vpanic_first [OF assms] by blast

theorem vpanic_correct_witness:
  "\<exists>s'. vpanic ''n=%d'' [VInt 5] demo_machine = Inr s' \<and> in_panic s' \<and> \<not> interrupts_enabled (kcpu (kern s')) \<and>
    port_out (kcpu (kern s')) = map (\<lambda>ch. (0x3E8, of_char ch)) (''kernel panic: n=5'' @ [CHR 0x0A])"
proof -
  have r: "render ''n=%d'' [VInt 5] = Inr ''n=5''" "- 1 \<notin> set (directive_widths ''n=%d'')" by code_simp+
  have "NUL \<notin> set ''n=5''" by (simp add: NUL_def)
  with r vpanic_correct [OF demo_machine_live, of "''n=%d''" "[VInt 5]" "''n=5''"] show ?thesis
    by (auto simp: COM_def COM3_def simp del: demo_machine_simps(6))
qed

end
