(* ===== verification/Interrupt_Spec.thy ===== *)
theory Interrupt_Spec
  imports Interrupt Console_Spec Pool_Heap
begin

text \<open>
  The handler lists: connecting a handler puts it in front of its vector's list and keeps all lists and the pools intact; the service
  routine asks the handlers in that order until one accepts.
\<close>

section \<open>Handler lists\<close>

fun hlist :: "mem \<Rightarrow> u64 \<Rightarrow> (u64 \<times> u64) list \<Rightarrow> bool" where
  "hlist m p [] \<longleftrightarrow> p = 0"
| "hlist m p ((a, h) # ns) \<longleftrightarrow> p = a \<and> a \<noteq> 0 \<and> h_handler m a = h \<and> hlist m (h_next m a) ns"

text \<open>The bytes of a node.\<close>

definition node_byte :: "u64 \<Rightarrow> u64 \<Rightarrow> bool" where "node_byte a x \<longleftrightarrow> unat (x - a) < 16"

lemma node_fields:
  assumes "\<And>x. node_byte a x \<Longrightarrow> m' x = m x"
  shows "h_handler m' a = h_handler m a" and "h_next m' a = h_next m a"
proof -
  show "h_handler m' a = h_handler m a"
    unfolding h_handler_def using assms by (intro load_word_eqI) (simp_all add: node_byte_def)
  show "h_next m' a = h_next m a"
    unfolding h_next_def
  proof (rule load_word_eqI)
    fix x assume x: "unat (x - (a + 8)) < LENGTH(64) div 8"
    have "unat (x - a) = unat ((x - (a + 8)) + 8)" by simp
    also have "\<dots> = unat (x - (a + 8)) + 8" using x by (subst unat_add_nowrap) auto
    finally show "m' x = m x" using x by (intro assms) (simp add: node_byte_def)
  qed simp_all
qed

lemma hlist_cong:
  assumes "\<And>a h x. (a, h) \<in> set ns \<Longrightarrow> node_byte a x \<Longrightarrow> m' x = m x"
  shows "hlist m' p ns = hlist m p ns"
  using assms
proof (induction m p ns rule: hlist.induct)
  case (2 m p a h ns)
  have "h_handler m' a = h_handler m a" "h_next m' a = h_next m a" by (rule node_fields, rule "2.prems" [of a h], simp_all)+
  with "2.IH" [of] "2.prems" show ?case by (metis hlist.simps(2) list.set_intros(2))
qed simp

lemma hlist_unique: "hlist m p ns \<Longrightarrow> hlist m p ms \<Longrightarrow> ns = ms"
proof (induction m p ns arbitrary: ms rule: hlist.induct)
  case (1 m p)
  then show ?case by (cases ms) (simp, metis hlist.simps surj_pair)
next
  case (2 m p a h ns)
  obtain b g ks where ms: "ms = (b, g) # ks" using "2.prems" by (cases ms) auto
  have "hlist m (h_next m a) ns" "hlist m (h_next m a) ks" "b = a" "g = h" using "2.prems" by (simp_all add: ms)
  with "2.IH" [of ks] show ?case by (simp add: ms)
qed

section \<open>Dispatch\<close>

fun first_accept :: "handler_call \<Rightarrow> u64 \<Rightarrow> u64 list \<Rightarrow> machine \<Rightarrow> bool \<times> machine" where
  "first_accept call frame [] s = (False, s)"
| "first_accept call frame (h # hs) s =
     (let (r, s1) = call h frame s in if r = 0 then (True, s1) else first_accept call frame hs s1)"

lemma handler_loop_first_accept:
  assumes "hlist (kmem (kern s)) p ns"
    and keep: "\<And>h s a h' x. (a, h') \<in> set ns \<Longrightarrow> node_byte a x \<Longrightarrow> kmem (kern (snd (call h frame s))) x = kmem (kern s) x"
  shows "handler_loop call frame p s = Some (first_accept call frame (map snd ns) s)"
  using assms
proof (induction ns arbitrary: p s)
  case Nil
  then show ?case by (subst handler_loop.simps) simp
next
  case (Cons n ns)
  obtain a h where n: "n = (a, h)" by force
  have p: "p = a" "a \<noteq> 0" "h_handler (kmem (kern s)) a = h" "hlist (kmem (kern s)) (h_next (kmem (kern s)) a) ns"
    using Cons.prems(1) by (simp_all add: n)
  obtain r s1 where c: "call h frame s = (r, s1)" by force
  have same: "kmem (kern s1) x = kmem (kern s) x" if "(a', h') \<in> set (n # ns)" "node_byte a' x" for a' h' x
    using Cons.prems(2) [OF that, of h s] c by simp
  have "h_next (kmem (kern s1)) a = h_next (kmem (kern s)) a"
    by (rule node_fields(2), rule same [of a h]) (simp_all add: n)
  moreover have "hlist (kmem (kern s1)) (h_next (kmem (kern s)) a) ns"
    using p(4) same by (subst hlist_cong [where m = "kmem (kern s)"]) auto
  ultimately have "handler_loop call frame (h_next (kmem (kern s1)) a) s1 = Some (first_accept call frame (map snd ns) s1)"
    using Cons.IH [of s1] Cons.prems(2) by (metis list.set_intros(2))
  then show ?case
    using p c by (subst handler_loop.simps) (simp add: n)
qed

text \<open>The service routine on a list of handlers that keep its nodes.\<close>

lemma service_dispatch:
  assumes "length (interrupt_handlers s) = 256" and "frame_vector (kmem (kern s)) frame = v" and "v < 256" and "32 \<le> v"
    and "hlist (kmem (kern s)) (interrupt_handlers s ! unat v) ns"
    and keep: "\<And>h s a h' x. (a, h') \<in> set ns \<Longrightarrow> node_byte a x \<Longrightarrow> kmem (kern (snd (call h frame s))) x = kmem (kern s) x"
  shows "interrupt_service call frame s = (case first_accept call frame (map snd ns) s of
           (True, s1) \<Rightarrow> Inr (Some frame, s1)
         | (False, s1) \<Rightarrow> rbind (panic ''Unhandled interrupt: vector=%llu'' [VLong (frame_vector (kmem (kern s1)) frame)] s1) (\<lambda>s2. Inr (None, s2)))"
proof -
  have "handler_loop call frame (interrupt_handlers s ! unat v) s = Some (first_accept call frame (map snd ns) s)"
    using assms(5) keep by (rule handler_loop_first_accept)
  moreover have "\<not> v < 32" using assms(4) by (simp add: not_less)
  moreover have "unat v < 256" using assms(3) by (simp add: word_less_nat_alt)
  ultimately show ?thesis
    using assms(1,2) by (simp add: interrupt_service_def or_spin_def split: prod.splits bool.splits)
qed

lemma first_accept_accepts:
  assumes "h \<in> set hs" and "\<And>s. fst (call h frame s) = 0"
  shows "fst (first_accept call frame hs s)"
  using assms(1)
proof (induction hs arbitrary: s)
  case (Cons g hs)
  obtain r s1 where c: "call g frame s = (r, s1)" by force
  have "r = 0" if "h = g" using assms(2) [of s] c that by simp
  then show ?case using Cons c by auto
qed simp

lemma first_accept_keeps:
  assumes "\<And>h s. kmem (kern (snd (call h frame s))) x = kmem (kern s) x"
  shows "kmem (kern (snd (first_accept call frame hs s))) x = kmem (kern s) x"
proof (induction hs arbitrary: s)
  case (Cons g hs)
  obtain r s1 where c: "call g frame s = (r, s1)" by force
  then show ?case using assms [of g s] Cons.IH [of s1] by simp
qed simp

section \<open>Connecting a handler\<close>

text \<open>The lists of all vectors, with every node in the data of a block in use.\<close>

definition handlers_ok :: "machine \<Rightarrow> (u64 \<times> blocks) list \<Rightarrow> (nat \<Rightarrow> (u64 \<times> u64) list) \<Rightarrow> bool" where
  "handlers_ok s ps hl \<longleftrightarrow> kpool (kern s) ps \<and> length (interrupt_handlers s) = 256 \<and>
     (\<forall>v < 256. hlist (kmem (kern s)) (interrupt_handlers s ! v) (hl v) \<and> (\<forall>(a, h) \<in> set (hl v). chunk ps a 16))"

text \<open>Memory after the two stores into the new node.\<close>

lemma new_node_fields:
  assumes "m' = store64 (store64 m a v) (a + 8) w"
  shows "h_handler m' a = v" and "h_next m' a = w" and "16 \<le> unat (x - a) \<Longrightarrow> m' x = m x"
proof -
  have e: "store64 (store64 m a v) (a + 8) w = store64 (store64 m (a + of_nat 0) v) (a + of_nat 8) w" by simp
  show "h_handler m' a = v"
    unfolding h_handler_def assms using load_store_offset [of 0 0 m a v] load_store_offset [of 8 0 "store64 m a v" a w] by simp
  show "h_next m' a = w"
    unfolding h_next_def assms using load_store_offset [of 8 8 "store64 m a v" a w] by simp
  show "m' x = m x" if "16 \<le> unat (x - a)"
  proof -
    have x: "x = a + of_nat (unat (x - a))" "unat (x - a) < 2 ^ 64" using unsigned_less [where 'a = nat and w = "x - a"] by simp_all
    show ?thesis
      using that x(2) store_offset_byte [of "unat (x - a)" 0 m a v] store_offset_byte [of "unat (x - a)" 8 "store64 m a v" a w] unfolding assms by simp
  qed
qed

text \<open>The new node in front of the list of vector \<open>v\<close>, once \<open>kmalloc\<close> has served the request.\<close>

lemma node_added:
  assumes H: "handlers_ok s ps hl" and K: "kpool k ps'" and a: "chunk ps' a 16" "a \<noteq> 0" "\<forall>j < 16. a + of_nat j \<notin> live ps"
    and grow: "\<forall>b L. chunk ps b L \<longrightarrow> chunk ps' b L" and keep: "\<forall>x \<in> live ps. kmem k x = kmem (kern s) x" and v: "v < 256"
    and m3: "m3 = store64 (store64 (kmem k) a handler) (a + 8) (interrupt_handlers s ! v)"
    and s': "kern s' = k\<lparr>kmem := m3, kcpu := c\<rparr>" "interrupt_handlers s' = (interrupt_handlers s)[v := a]"
  shows "handlers_ok s' ps' (hl(v := (a, handler) # hl v))"
proof -
  have len: "length (interrupt_handlers s) = 256"
    and L: "\<And>w. w < 256 \<Longrightarrow> hlist (kmem (kern s)) (interrupt_handlers s ! w) (hl w)" "\<And>w b h. w < 256 \<Longrightarrow> (b, h) \<in> set (hl w) \<Longrightarrow> chunk ps b 16"
    using H by (auto simp: handlers_ok_def)
  note node = new_node_fields [OF m3]
  have "chunk ps' a 8" "chunk ps' (a + 8) 8" using chunk_sub [OF a(1), of 0 8] chunk_sub [OF a(1), of 8 8] by simp_all
  then have "kpool (k\<lparr>kmem := m3\<rparr>) ps'" using chunk_store [OF chunk_store [OF K]] by (simp add: m3)
  then have "kpool (kern s') ps'" by (simp add: s'(1) kpool_def pool_ok_def pool_frame_def)
  moreover have "m3 x = kmem (kern s) x" if "w < 256" "(b, h) \<in> set (hl w)" "node_byte b x" for w b h x
  proof -
    have "x \<in> live ps" using chunk_byte [OF L(2) [OF that(1,2)]] that(3) unfolding node_byte_def .
    then show ?thesis using chunk_fresh [OF a(3)] node(3) keep by simp
  qed
  then have lists: "hlist m3 (interrupt_handlers s ! w) (hl w)" if "w < 256" for w
    using L(1) that by (subst hlist_cong [where m = "kmem (kern s)"]) auto
  then have "hlist m3 (interrupt_handlers s' ! w) ((hl(v := (a, handler) # hl v)) w)" if "w < 256" for w
    using node(1,2) a(2) len that v by (simp add: s'(2) nth_list_update)
  moreover have "\<forall>(b, h) \<in> set ((hl(v := (a, handler) # hl v)) w). chunk ps' b 16" if "w < 256" for w
    using L(2) [OF that] L(2) [OF v] grow a(1) by auto
  ultimately show ?thesis using len by (simp add: handlers_ok_def s')
qed

text \<open>
  What calls into the memory managers leave alone: the ports, the console and all bytes below the direct map, the framebuffer's among them.
\<close>

definition same_output :: "machine \<Rightarrow> machine \<Rightarrow> bool" where
  "same_output s s' \<longleftrightarrow> port_out (kcpu (kern s')) = port_out (kcpu (kern s)) \<and> (uart_live (kcpu (kern s)) \<longrightarrow> uart_live (kcpu (kern s'))) \<and>
     con s' = con s \<and> framebuffer_info s' = framebuffer_info s \<and>
     (\<forall>x. unat x < 2 ^ 64 - 2 ^ 47 \<longrightarrow> kmem (kern s') x = kmem (kern s) x)"

lemma connect_ok:
  assumes H: "handlers_ok s ps hl" and room: "leaves_room 16 ps" and num: "32 \<le> number" "number < 256"
  shows "\<exists>s'. rflags (kcpu (kern s')) = rflags (kcpu (kern s)) \<and> same_output s s' \<and>
    (connect_interrupt handler number s = Inr (- ENOMEM, s') \<and> avail_frames (kern s) = {} \<and> handlers_ok s' ps hl \<or>
     (\<exists>a ps'. connect_interrupt handler number s = Inr (0, s') \<and> (\<forall>j < 16. a + of_nat j \<notin> live ps) \<and>
       handlers_ok s' ps' (hl(unat number := (a, handler) # hl (unat number)))))"
proof -
  define c where "c = disable_interrupts (kcpu (kern s))"
  let ?k0 = "kern (set_cpu c s)"
  have K: "kpool (kern s) ps" and len: "length (interrupt_handlers s) = 256" using H by (auto simp: handlers_ok_def)
  have K0: "kpool ?k0 ps" and m0: "kmem ?k0 = kmem (kern s)" "avail_frames ?k0 = avail_frames (kern s)"
    using K by (simp_all add: set_cpu_def avail_frames_def)
  have r: "round16 (unat (16 :: u64)) = 16" by (simp add: round16_def)
  from kmalloc_served [OF K0, of 16] room obtain a k where k: "kmalloc 16 ?k0 = Inr (a, k)" "served ?k0 ps 16 a k" unfolding r by auto
  have nn: "\<not> number < 32" "unat number < 256" using num by (simp add: not_less, simp add: word_less_nat_alt)
  define s1 where "s1 = set_cpu c s\<lparr>kern := k\<rparr>"
  have s1: "interrupt_handlers s1 = interrupt_handlers s" "kern s1 = k" by (simp_all add: s1_def set_cpu_def)
  note run = connect_interrupt_def save_and_disable_interrupts_def c_def [symmetric] SIZEOF_HANDLER_INFO_def Let_def s1_def [symmetric] s1(2)
  show ?thesis
  proof (cases "a = 0")
    case True
    define s' where "s' = set_cpu (restore_interrupts (rflags (kcpu (kern s))) (kcpu k)) s1"
    have av: "avail_frames (kern s) = {}" and ke: "k = ?k0\<lparr>kcpu := disable_interrupts (kcpu ?k0)\<rparr>"
      using k(2) True m0 by (simp_all add: served_def)
    have "connect_interrupt handler number s = Inr (- ENOMEM, s')" using k(1) nn True by (simp add: run s'_def)
    moreover have "handlers_ok s' ps hl" "rflags (kcpu (kern s')) = rflags (kcpu (kern s))" "same_output s s'"
      using H by (simp_all add: s'_def s1_def ke handlers_ok_def set_cpu_def restore_interrupts_def same_output_def uart_live_def tx_ready_def
          disable_interrupts_def c_def)
    ultimately show ?thesis using av by blast
  next
    case False
    then obtain ps' where p: "kpool k ps'" "chunk ps' a 16" "\<forall>j < 16. a + of_nat j \<notin> live ps" "\<forall>b L. chunk ps b L \<longrightarrow> chunk ps' b L"
      "\<forall>x \<in> live ps. kmem k x = kmem (kern s) x" "kcpu k = c" "\<forall>x. unat x < 2 ^ 64 - 2 ^ 47 \<longrightarrow> kmem k x = kmem (kern s) x"
      using k(2) by (auto simp: served_def m0(1))
    define m3 where "m3 = store64 (store64 (kmem k) a handler) (a + 8) (interrupt_handlers s ! unat number)"
    define s' where "s' = set_cpu (restore_interrupts (rflags (kcpu (kern s))) (kcpu k))
      ((set_mem m3 s1)\<lparr>interrupt_handlers := (interrupt_handlers s)[unat number := a]\<rparr>)"
    have "connect_interrupt handler number s = Inr (0, s')"
      using k(1) nn len False s1 by (simp add: run m3_def [symmetric] s'_def)
    moreover have "kern s' = k\<lparr>kmem := m3, kcpu := kcpu (kern s')\<rparr>" "interrupt_handlers s' = (interrupt_handlers s)[unat number := a]"
      by (simp_all add: s'_def set_cpu_def set_mem_def s1)
    then have "handlers_ok s' ps' (hl(unat number := (a, handler) # hl (unat number)))"
      by (rule node_added [OF H p(1,2) False p(3-5) nn(2) m3_def])
    moreover have "rflags (kcpu (kern s')) = rflags (kcpu (kern s))" by (simp add: s'_def restore_interrupts_def)
    moreover have "m3 x = kmem (kern s) x" if x: "unat x < 2 ^ 64 - 2 ^ 47" for x
    proof -
      have "16 \<le> unat (x - a)" using chunk_byte [OF p(2)] live_high [OF p(1) x] by (meson not_le)
      then show ?thesis using new_node_fields(3) [OF m3_def] p(7) x by simp
    qed
    then have "same_output s s'" by (simp add: same_output_def s'_def s1_def set_cpu_def set_mem_def p(6) c_def)
    ultimately show ?thesis using p(3) by blast
  qed
qed

section \<open>Messages of the service routine\<close>

lemma render_plain: "c \<noteq> NUL \<Longrightarrow> c \<noteq> CHR ''%'' \<Longrightarrow> render fmt args = Inr t \<Longrightarrow> render (c # fmt) args = Inr (c # t)"
  by (simp add: render.simps [of "c # fmt"] cur_def)

lemma render_prefix:
  "\<forall>c \<in> set p. c \<noteq> NUL \<and> c \<noteq> CHR ''%'' \<Longrightarrow> render fmt args = Inr t \<Longrightarrow> render (p @ fmt) args = Inr (p @ t)"
  by (induction p) (auto intro: render_plain)

lemma render_llu: "render ''%llu'' [VLong v] = Inr (number_text v 0 0 0)"
proof -
  have p: "parse_directive ''llu'' = (0, 0, LEN_LL, ''u'')" by code_simp
  have "CHR ''%'' \<noteq> NUL" by (simp add: NUL_def)
  then show ?thesis
    by (simp add: render.simps [of "''%llu''"] render.simps [of "[]"] cur_def p directive_text_def numeric_text_def)
qed

lemma exception_text: "render ''Unhandled exception: vector=%llu'' [VLong v] = Inr (''Unhandled exception: vector='' @ number_text v 0 0 0)"
  using render_prefix [OF _ render_llu [of v], of "''Unhandled exception: vector=''"] by (simp add: NUL_def)

lemma set_ref_digits: "2 \<le> b \<Longrightarrow> b \<le> length ds \<Longrightarrow> set (ref_digits ds b n) \<subseteq> set ds"
proof (induction ds b n rule: ref_digits.induct)
  case (1 ds b n)
  have "n mod b < b" using "1.prems" by simp
  then have m: "n mod b < length ds" using "1.prems" by linarith
  show ?case
  proof (cases "n < b")
    case True
    then have "ref_digits ds b n = [ds ! n]" by (subst ref_digits.simps) simp
    then show ?thesis using True "1.prems" by simp
  next
    case False
    then have "ref_digits ds b n = ref_digits ds b (n div b) @ [ds ! (n mod b)]" using "1.prems" by (subst ref_digits.simps) simp
    moreover have "set (ref_digits ds b (n div b)) \<subseteq> set ds" using "1.IH" "1.prems" False by simp
    ultimately show ?thesis using m by simp
  qed
qed

lemma decimal_text: "NUL \<notin> set (number_text v 0 0 0)" "length (number_text v 0 0 0) \<le> 64"
proof -
  have d: "number_text v 0 0 0 = ref_digits (number_digits 0) 10 (unat v)" by (simp add: number_text_def number_field_def number_base_def)
  have "NUL \<notin> set (number_digits 0)" by (simp add: number_digits_def NUL_def)
  then show "NUL \<notin> set (number_text v 0 0 0)" unfolding d using set_ref_digits [of 10 "number_digits 0" "unat v"] by (auto simp: number_digits_def)
  have "number_text v 0 0 0 = rev (number_tmp 0 v)" unfolding d number_tmp_ref by (simp add: number_base_def)
  then show "length (number_text v 0 0 0) \<le> 64" using length_number_tmp(1) [of 0 v] by simp
qed

section \<open>Properties of interrupt.c\<close>

text \<open>C15. \<open>connect_interrupt\<close>: a vector below 32 is refused with \<open>-EINVAL\<close> and nothing changes. For a vector from 32 to 255, when no free block
  leaves a remainder too small for a header, it returns 0 and the handler stands in front of that vector's list, in a new node whose bytes no
  block in use held, with every other list as before; or, only when no frame is left, it returns \<open>-ENOMEM\<close> and all lists are as before. Either way
  all nodes lie in blocks in use, the pools are well formed and the interrupt flag is restored.\<close>

theorem connect_interrupt_correct:
  "(number < 32 \<longrightarrow> connect_interrupt handler number s = Inr (- EINVAL, s)) \<and>
   (handlers_ok s ps hl \<and> leaves_room 16 ps \<and> 32 \<le> number \<and> number < 256 \<longrightarrow>
     (\<exists>s'. rflags (kcpu (kern s')) = rflags (kcpu (kern s)) \<and>
       (connect_interrupt handler number s = Inr (- ENOMEM, s') \<and> avail_frames (kern s) = {} \<and> handlers_ok s' ps hl \<or>
        (\<exists>a ps'. connect_interrupt handler number s = Inr (0, s') \<and> (\<forall>j < 16. a + of_nat j \<notin> live ps) \<and>
          handlers_ok s' ps' (hl(unat number := (a, handler) # hl (unat number)))))))"
proof (intro conjI impI)
  show "connect_interrupt handler number s = Inr (- EINVAL, s)" if "number < 32" using that by (simp add: connect_interrupt_def)
qed (use connect_ok [of s ps hl number handler] in blast)

theorem connect_interrupt_correct_witness:
  "\<exists>k s' a ps'. init_pool demo_kernel = Inr (True, k) \<and> connect_interrupt 0x7000 33 (demo_machine\<lparr>kern := k\<rparr>) = Inr (0, s') \<and>
    handlers_ok s' ps' ((\<lambda>_. [])(33 := [(a, 0x7000)]))"
proof -
  obtain k Q where k: "init_pool demo_kernel = Inr (True, k)" "kpool k [(Q, [(4072, False)])]" "card (avail_frames k) = 2" by (rule demo_pool)
  let ?s = "demo_machine\<lparr>kern := k\<rparr>"
  have "handlers_ok ?s [(Q, [(4072, False)])] (\<lambda>_. [])" using k(2) by (simp add: handlers_ok_def demo_machine_def)
  moreover have "leaves_room 16 [(Q, [(4072, False)])]" by (simp add: leaves_room_def)
  moreover have "avail_frames (kern ?s) \<noteq> {}" using k(3) by auto
  ultimately obtain s' a ps' where
    "connect_interrupt 0x7000 33 ?s = Inr (0, s')" "handlers_ok s' ps' ((\<lambda>_. [])(unat (33 :: u32) := (a, 0x7000) # []))"
    using connect_interrupt_correct [of 33 "0x7000" ?s "[(Q, [(4072, False)])]" "\<lambda>_. []"] by fastforce
  with k(1) show ?thesis by auto
qed

text \<open>C14. \<open>interrupt_service\<close>: for a vector from 32 to 255 whose list is intact, with handlers that leave the nodes of the list alone, the handlers are called
  in list order until one returns 0, and then the interrupted code is resumed from the frame; when none does, the machine panics. An
  exception (a vector below 32) always ends in a panic that reports the vector on a live serial port and halts.\<close>

theorem interrupt_service_correct:
  assumes "length (interrupt_handlers s) = 256" and "frame_vector (kmem (kern s)) frame = v" and "v < 256"
  shows "(32 \<le> v \<and> hlist (kmem (kern s)) (interrupt_handlers s ! unat v) ns \<and>
      (\<forall>h s a h' x. (a, h') \<in> set ns \<longrightarrow> node_byte a x \<longrightarrow> kmem (kern (snd (call h frame s))) x = kmem (kern s) x) \<longrightarrow>
      interrupt_service call frame s =
        (case first_accept call frame (map snd ns) s of
           (True, s1) \<Rightarrow> Inr (Some frame, s1)
         | (False, s1) \<Rightarrow> rbind (panic ''Unhandled interrupt: vector=%llu'' [VLong (frame_vector (kmem (kern s1)) frame)] s1) (\<lambda>s2. Inr (None, s2)))) \<and>
    (v < 32 \<and> uart_live (kcpu (kern s)) \<and> \<not> in_panic s \<and> \<not> panic_use_fbcon s \<longrightarrow>
      (\<exists>s'. interrupt_service call frame s = Inr (None, s') \<and> in_panic s' \<and> \<not> interrupts_enabled (kcpu (kern s')) \<and>
        port_out (kcpu (kern s')) = port_out (kcpu (kern s)) @
          map (\<lambda>ch. (COM, of_char ch)) (''kernel panic: Unhandled exception: vector='' @ number_text v 0 0 0 @ [CHR 0x0A])))"
proof (intro conjI impI)
  have v: "unat v < 256" using assms(3) by (simp add: word_less_nat_alt)
  show "interrupt_service call frame s = (case first_accept call frame (map snd ns) s of
           (True, s1) \<Rightarrow> Inr (Some frame, s1)
         | (False, s1) \<Rightarrow> rbind (panic ''Unhandled interrupt: vector=%llu'' [VLong (frame_vector (kmem (kern s1)) frame)] s1) (\<lambda>s2. Inr (None, s2)))"
    if "32 \<le> v \<and> hlist (kmem (kern s)) (interrupt_handlers s ! unat v) ns \<and>
      (\<forall>h s a h' x. (a, h') \<in> set ns \<longrightarrow> node_byte a x \<longrightarrow> kmem (kern (snd (call h frame s))) x = kmem (kern s) x)"
    using that assms by (intro service_dispatch [where v = v]) blast+
  assume h: "v < 32 \<and> uart_live (kcpu (kern s)) \<and> \<not> in_panic s \<and> \<not> panic_use_fbcon s"
  have w: "- 1 \<notin> set (directive_widths ''Unhandled exception: vector=%llu'')" by code_simp
  have "NUL \<notin> set (''Unhandled exception: vector='' @ number_text v 0 0 0)" "length (''Unhandled exception: vector='' @ number_text v 0 0 0) \<le> 1022"
    using decimal_text [of v] by (simp_all add: NUL_def)
  from vpanic_first [OF _ _ _ exception_text w this(2,1)] h obtain s' where
    "vpanic ''Unhandled exception: vector=%llu'' [VLong v] s = Inr s'" "in_panic s'" "\<not> interrupts_enabled (kcpu (kern s'))"
    "port_out (kcpu (kern s')) = port_out (kcpu (kern s)) @
      map (\<lambda>ch. (COM, of_char ch)) (''kernel panic: '' @ (''Unhandled exception: vector='' @ number_text v 0 0 0) @ [CHR 0x0A])"
    by blast
  then show "\<exists>s'. interrupt_service call frame s = Inr (None, s') \<and> in_panic s' \<and> \<not> interrupts_enabled (kcpu (kern s')) \<and>
        port_out (kcpu (kern s')) = port_out (kcpu (kern s)) @
          map (\<lambda>ch. (COM, of_char ch)) (''kernel panic: Unhandled exception: vector='' @ number_text v 0 0 0 @ [CHR 0x0A])"
    using h v assms(1,2) by (simp add: interrupt_service_def panic_def)
qed

text \<open>A frame at \<open>0x5000\<close> with vector 33, whose list holds one handler that accepts; and a frame with vector 0.\<close>

definition demo_service :: machine where
  "demo_service = (set_mem (store64 (store64 (\<lambda>_. 0) 0x5078 33) 0x6000 0x7000) demo_machine)\<lparr>interrupt_handlers := (replicate 256 0)[33 := 0x6000]\<rparr>"

theorem interrupt_service_correct_witness:
  "interrupt_service (\<lambda>h frame s. (0, s)) 0x5000 demo_service = Inr (Some 0x5000, demo_service) \<and>
   (\<exists>s'. interrupt_service (\<lambda>h frame s. (0, s)) 0x5000 demo_machine = Inr (None, s') \<and> in_panic s')"
proof (intro conjI)
  let ?c = "\<lambda>h frame s. (0, s) :: int \<times> machine" and ?m = "kmem (kern demo_service)"
  have m: "?m = store64 (store64 (\<lambda>_. 0) 0x5078 33) 0x6000 0x7000" "interrupt_handlers demo_service = (replicate 256 0)[33 := 0x6000]"
    by (simp_all add: demo_service_def set_mem_def)
  have v: "frame_vector ?m 0x5000 = 33" "h_handler ?m 0x6000 = 0x7000" "h_next ?m 0x6000 = 0"
    unfolding m frame_vector_def read_trap_frame_def h_handler_def h_next_def by (simp_all add: m64.load_store_same m64.load_store_apart apart_def)
  then have "hlist ?m (interrupt_handlers demo_service ! unat (33 :: u64)) [(0x6000, 0x7000)]" by (simp add: m(2))
  then show "interrupt_service ?c 0x5000 demo_service = Inr (Some 0x5000, demo_service)"
    using interrupt_service_correct [of demo_service "0x5000" 33 "[(0x6000, 0x7000)]" ?c] v(1) m(2) by simp
  have "interrupt_handlers demo_machine = replicate 256 0" "frame_vector (kmem (kern demo_machine)) 0x5000 = 0"
    by (simp_all add: demo_machine_def frame_vector_def read_trap_frame_def demo_kernel_def)
  then show "\<exists>s'. interrupt_service ?c 0x5000 demo_machine = Inr (None, s') \<and> in_panic s'"
    using interrupt_service_correct [of demo_machine "0x5000" 0 "[]" ?c] demo_machine_live by auto
qed

end
