(* ===== verification/Interrupt_Path.thy ===== *)
theory Interrupt_Path
  imports Entry_Stubs Interrupt_Spec
begin

text \<open>
  A device interrupt from the processor's delivery to \<open>iretq\<close>: the entry stub of \<open>asm.S\<close>, \<open>interrupt_service\<close> of \<open>interrupt.c\<close> on the
  frame the stub built, the handlers, and \<open>exit_interrupt_service\<close>. The assembly and the C code share the bytes of memory.
\<close>

lemma read_trap_frame_cong:
  assumes "\<And>x. unat (x - a) < 176 \<Longrightarrow> m x = m' x"
  shows "read_trap_frame m a = read_trap_frame m' a"
proof -
  have w: "load64 m (a + of_nat i) = load64 m' (a + of_nat i)" if "i \<le> 168" for i
  proof (rule load_offset_cong)
    fix j :: nat assume "j < 8"
    then have "unat (a + of_nat (i + j) - a) < 176" using that by (simp add: unat_of_nat_small del: of_nat_add)
    then show "m (a + of_nat (i + j)) = m' (a + of_nat (i + j))" by (rule assms)
  qed
  show ?thesis
    using w [of 0] w [of 8] w [of 16] w [of 24] w [of 32] w [of 40] w [of 48] w [of 56] w [of 64] w [of 72] w [of 80] w [of 88] w [of 96]
      w [of 104] w [of 112] w [of 120] w [of 128] w [of 136] w [of 144] w [of 152] w [of 160] w [of 168]
    by (simp add: read_trap_frame_def)
qed

text \<open>The C code after the stub finds the list it found before, as the stub writes only to the frame.\<close>

lemma stub_keeps_list:
  assumes d: "delivered s0 num code t" and F: "F = frame_base num t" and "hlist (amem t) p ns"
    and apart: "\<And>a h x. (a, h) \<in> set ns \<Longrightarrow> node_byte a x \<Longrightarrow> 136 \<le> unat (x - F)"
  shows "hlist (amem (isr num t)) p ns"
proof -
  have "amem (isr num t) x = amem t x" if "(a, h) \<in> set ns" "node_byte a x" for a h x
    using isr_frame(4) [OF d F, of "unat (x - F)"] apart [OF that] unsigned_less [where 'a = nat and w = "x - F"] by simp
  then show ?thesis using assms(3) by (subst hlist_cong [where m = "amem t"]) blast+
qed

section \<open>Property\<close>

text \<open>C13. A device interrupt is transparent to the code it interrupts. The processor delivers vector \<open>num\<close> from 32 to 255 over state \<open>s0\<close>; the vector's handler
  list is well formed and its nodes lie outside the trap frame; no handler writes to the frame or to the nodes, and one handler of the
  list accepts. Then the stub and \<open>interrupt_service\<close>, on the frame the stub built, reach \<open>exit_interrupt_service\<close>, and that resumes \<open>s0\<close>: all
  registers, flags, selectors and the instruction pointer. Only memory is what the handlers made it, and they were called in list order.\<close>

theorem interrupt_transparent:
  assumes "delivered s0 num code t" and "32 \<le> num" and "num < 256" and F: "F = gpr (isr num t) RDI"
    and "length (interrupt_handlers s) = 256" and "kmem (kern s) = amem t" and "hlist (amem t) (interrupt_handlers s ! num) ns"
    and "\<forall>(a, h) \<in> set ns. \<forall>x. node_byte a x \<longrightarrow> 176 \<le> unat (x - F)"
    and "\<forall>h s x. unat (x - F) < 176 \<or> (\<exists>(a, h') \<in> set ns. node_byte a x) \<longrightarrow> kmem (kern (snd (call h F s))) x = kmem (kern s) x"
    and "\<exists>(a, h) \<in> set ns. \<forall>s. fst (call h F s) = 0"
  shows "\<exists>s1. interrupt_service call F (set_mem (amem (isr num t)) s) = Inr (Some F, s1) \<and>
    first_accept call F (map snd ns) (set_mem (amem (isr num t)) s) = (True, s1) \<and>
    (\<forall>u. gpr u RDI = F \<and> amem u = kmem (kern s1) \<longrightarrow> exit_interrupt_service u = s0\<lparr>amem := kmem (kern s1)\<rparr>)"
proof -
  note f = isr_frame [OF assms(1) refl]
  have B: "F = frame_base num t" and fr: "read_trap_frame (amem (isr num t)) F = frame_of s0 num code" using f(1,2) F by simp_all
  define k where "k = set_mem (amem (isr num t)) s"
  have k: "kmem (kern k) = amem (isr num t)" "interrupt_handlers k = interrupt_handlers s" by (simp_all add: k_def set_mem_def)
  have n: "unat (of_nat num :: u64) = num" using assms(3) by (simp add: unat_of_nat_small)
  have len: "length (interrupt_handlers k) = 256" using assms(5) by (simp add: k)
  have vec: "frame_vector (kmem (kern k)) F = of_nat num" by (simp add: k fr frame_vector_def frame_of_def)
  have v: "(of_nat num :: u64) < 256" "32 \<le> (of_nat num :: u64)" using n assms(2,3) by (simp_all add: word_less_nat_alt word_le_nat_alt)
  have l: "hlist (kmem (kern k)) (interrupt_handlers k ! unat (of_nat num :: u64)) ns"
    unfolding k n using assms(8) by (intro stub_keeps_list [OF assms(1) B assms(7)]) fastforce
  obtain s1 where s1: "first_accept call F (map snd ns) k = (True, s1)"
  proof -
    obtain a h where "(a, h) \<in> set ns" "\<And>s. fst (call h F s) = 0" using assms(10) by blast
    then have "fst (first_accept call F (map snd ns) k)" by (intro first_accept_accepts [of h]) force+
    then show ?thesis using that by (metis prod.collapse)
  qed
  have keep: "kmem (kern (snd (call h F s))) x = kmem (kern s) x" if "(a, h') \<in> set ns" "node_byte a x" for h s a h' x
    using assms(9) that by blast
  have run: "interrupt_service call F k = Inr (Some F, s1)"
    using service_dispatch [OF len vec v l, of call] keep by (simp add: s1)
  have "read_trap_frame (kmem (kern s1)) F = read_trap_frame (kmem (kern k)) F"
  proof (rule read_trap_frame_cong)
    fix x assume "unat (x - F) < 176"
    then have "kmem (kern (snd (first_accept call F (map snd ns) k))) x = kmem (kern k) x"
      using assms(9) by (intro first_accept_keeps) blast
    then show "kmem (kern s1) x = kmem (kern k) x" by (simp add: s1)
  qed
  then have "exit_interrupt_service u = s0\<lparr>amem := kmem (kern s1)\<rparr>" if "gpr u RDI = F \<and> amem u = kmem (kern s1)" for u
    using exit_frame [of u F s0 num code] that fr by (simp add: k)
  then show ?thesis using s1 run unfolding k_def by blast
qed

text \<open>A timer interrupt (vector 33) over code at \<open>0x1234\<close>, with a handler that counts its calls at \<open>0x100\<close> and accepts.\<close>

definition demo_timer :: asm where
  "demo_timer = \<lparr>gpr = (\<lambda>r. if r = RSP then 0x7FD8 else 5), rip = 0, asm_cs = 8, asm_ss = 16, asm_rflags = 2,
     amem = store64 (store64 (store64 (store64 (store64 (store64 (\<lambda>_. 0) 0x6000 0x7000) 0x7FD8 0x1234) 0x7FE0 8) 0x7FE8 0x202) 0x7FF0 0x9000) 0x7FF8 16\<rparr>"

definition demo_tick :: handler_call where
  "demo_tick h frame s = (0, set_mem ((kmem (kern s))(0x100 := kmem (kern s) 0x100 + 1)) s)"

theorem interrupt_transparent_witness:
  "\<exists>F s1. interrupt_service demo_tick F (set_mem (amem (isr 33 demo_timer)) demo_service) = Inr (Some F, s1) \<and>
    rip (exit_interrupt_service ((isr 33 demo_timer)\<lparr>amem := kmem (kern s1)\<rparr>)) = 0x1234 \<and>
    gpr (exit_interrupt_service ((isr 33 demo_timer)\<lparr>amem := kmem (kern s1)\<rparr>)) RAX = 5"
proof -
  define s0 where "s0 = demo_timer\<lparr>gpr := (gpr demo_timer)(RSP := 0x9000), rip := 0x1234, asm_rflags := 0x202\<rparr>"
  define F where "F = gpr (isr 33 demo_timer) RDI"
  have c: "\<not> has_error_code 33" by (simp add: has_error_code_def)
  have d: "delivered s0 33 0 demo_timer"
    by (simp add: delivered_def frame_base_def c s0_def demo_timer_def m64.load_store_same m64.load_store_apart apart_def)
  have F': "F = 0x7F50" using isr_frame(2) [OF d refl] by (simp add: F_def frame_base_def c demo_timer_def)
  let ?s = "set_mem (amem demo_timer) demo_service"
  have h: "interrupt_handlers ?s ! 33 = 0x6000" "length (interrupt_handlers ?s) = 256" "kmem (kern ?s) = amem demo_timer"
    by (simp_all add: demo_service_def set_mem_def)
  have l: "hlist (amem demo_timer) (interrupt_handlers ?s ! 33) [(0x6000, 0x7000)]"
    unfolding h by (simp add: h_handler_def h_next_def demo_timer_def m64.load_store_same m64.load_store_apart apart_def)
  have far: "176 \<le> unat (x - 0x7F50)" "x \<noteq> 0x100" if "unat (x - 0x6000) < 16" for x :: u64
  proof -
    have x: "x = 0 + of_nat (0x6000 + unat (x - 0x6000))" by simp
    then have e: "x - 0x7F50 = (0 + of_nat (0x6000 + unat (x - 0x6000))) - (0 + of_nat 0x7F50)" by simp
    show "176 \<le> unat (x - 0x7F50)" unfolding e using that by (subst unat_offset_diff) auto
    have "unat x = 0x6000 + unat (x - 0x6000)" using that by (subst x) (simp add: unat_of_nat_small del: of_nat_add)
    then show "x \<noteq> 0x100" by auto
  qed
  have near: "x \<noteq> 0x100" if "unat (x - 0x7F50) < 176" for x :: u64 using that by auto
  have "\<forall>(a, h) \<in> set [(0x6000 :: u64, 0x7000 :: u64)]. \<forall>x. node_byte a x \<longrightarrow> 176 \<le> unat (x - F)"
    using far(1) by (simp add: F' node_byte_def)
  moreover have "\<forall>h s x. unat (x - F) < 176 \<or> (\<exists>(a, h') \<in> set [(0x6000 :: u64, 0x7000 :: u64)]. node_byte a x) \<longrightarrow>
      kmem (kern (snd (demo_tick h F s))) x = kmem (kern s) x"
    using far(2) near by (auto simp: F' node_byte_def demo_tick_def set_mem_def)
  moreover have "\<exists>(a, h) \<in> set [(0x6000 :: u64, 0x7000 :: u64)]. \<forall>s. fst (demo_tick h F s) = 0" by (simp add: demo_tick_def)
  ultimately have "\<exists>s1. interrupt_service demo_tick F (set_mem (amem (isr 33 demo_timer)) ?s) = Inr (Some F, s1) \<and>
    (\<forall>u. gpr u RDI = F \<and> amem u = kmem (kern s1) \<longrightarrow> exit_interrupt_service u = s0\<lparr>amem := kmem (kern s1)\<rparr>)"
    using interrupt_transparent [OF d _ _ F_def h(2,3) l, of demo_tick] by auto
  moreover have "set_mem m ?s = set_mem m demo_service" for m by (simp add: set_mem_def)
  ultimately show ?thesis
    unfolding F_def [symmetric] by (auto simp: s0_def demo_timer_def F_def intro!: exI [of _ F])
qed

end
