(* ===== verification/Kernel_Run.thy ===== *)
theory Kernel_Run
  imports Interrupt_Path
begin

text \<open>
  The running kernel: any sequence of calls to \<open>connect_interrupt\<close>, \<open>kmalloc\<close>, \<open>kfree\<close>, \<open>alloc_frames\<close>, \<open>free_frame\<close> and \<open>kprintf\<close>, and of
  writes to data from the heap, against an abstract view: which handlers are registered for each vector, what the screen shows, and
  what the serial port has received. The frame allocator, the pools, the handler lists in pool memory, the console and the serial driver
  take part.
\<close>

section \<open>Calls\<close>

datatype kcall = Connect u64 u32 | Malloc u64 | Free u64 | Write u64 u64 | Alloc nat | Release u64 | Print string "va list"

fun perform :: "out \<Rightarrow> kcall \<Rightarrow> machine \<Rightarrow> (int \<times> machine) res" where
  "perform stack (Connect h n) s = connect_interrupt h n s"
| "perform stack (Malloc len) s = rbind (kmalloc len (kern s)) (\<lambda>(a, k). Inr (uint a, s\<lparr>kern := k\<rparr>))"
| "perform stack (Free a) s = rbind (kfree a (kern s)) (\<lambda>k. Inr (0, s\<lparr>kern := k\<rparr>))"
| "perform stack (Write a b) s = Inr (0, set_mem (store64 (kmem (kern s)) a b) s)"
| "perform stack (Alloc k) s = rbind (alloc_frames (int k) (kpmm (kern s))) (\<lambda>(a, p). Inr (uint a, s\<lparr>kern := (kern s)\<lparr>kpmm := p\<rparr>\<rparr>))"
| "perform stack (Release a) s = rbind (free_frame a (kpmm (kern s))) (\<lambda>p. Inr (0, s\<lparr>kern := (kern s)\<lparr>kpmm := p\<rparr>\<rparr>))"
| "perform stack (Print fmt args) s = rbind (kprintf stack fmt args s) (\<lambda>s1. Inr (0, s1))"

text \<open>
  What a caller may do, given the pools and the handler lists: requests that leave room for a header, releases of what is in use and holds no
  handler node, writes to heap data outside the nodes, releases of allocated frames that are not pool pages, and
  messages whose text fits the buffer.
\<close>

definition text_ok :: "string \<Rightarrow> va list \<Rightarrow> bool" where
  "text_ok fmt args \<longleftrightarrow> - 1 \<notin> set (directive_widths fmt) \<and>
     (case render fmt args of Inl e \<Rightarrow> False | Inr t \<Rightarrow> length t \<le> 1022 \<and> (\<forall>c \<in> set t. of_char c < (128 :: nat) \<and> c \<noteq> NUL))"

definition no_node :: "(nat \<Rightarrow> (u64 \<times> u64) list) \<Rightarrow> u64 set \<Rightarrow> bool" where
  "no_node hl A \<longleftrightarrow> (\<forall>v < 256. \<forall>(a, h) \<in> set (hl v). \<forall>x \<in> A. \<not> node_byte a x)"

definition block_bytes :: "u64 \<Rightarrow> nat \<Rightarrow> nat \<Rightarrow> u64 set" where
  "block_bytes Q off n = {pool_first Q + of_nat j | j. off \<le> j \<and> j < off + n}"

fun allowed :: "machine \<Rightarrow> (u64 \<times> blocks) list \<Rightarrow> (nat \<Rightarrow> (u64 \<times> u64) list) \<Rightarrow> kcall \<Rightarrow> bool" where
  "allowed s ps hl (Connect h n) \<longleftrightarrow> n < 256 \<and> leaves_room 16 ps"
| "allowed s ps hl (Malloc len) \<longleftrightarrow> leaves_room (round16 (unat len)) ps \<and> round16 (unat len) \<le> 4016"
| "allowed s ps hl (Free a) \<longleftrightarrow> (\<exists>ts Q xs n ys rs. ps = ts @ (Q, xs @ (n, True) # ys) # rs \<and> 32 < n \<and>
     a = pool_first Q + of_nat (span xs + 32) \<and> no_node hl (block_bytes Q (span xs) n))"
| "allowed s ps hl (Write a b) \<longleftrightarrow> chunk ps a 8 \<and> no_node hl {a + of_nat j | j. j < 8}"
| "allowed s ps hl (Alloc k) \<longleftrightarrow> k \<le> max_order"
| "allowed s ps hl (Release a) \<longleftrightarrow> (\<exists>p k. (p, k) \<in> alloc_blocks (kpmm (kern s)) \<and> a = push_bit 12 (of_nat p) \<and> phys_to_virt a \<notin> set (map fst ps))"
| "allowed s ps hl (Print fmt args) \<longleftrightarrow> text_ok fmt args"

section \<open>The view\<close>

record view =
  registered :: "nat \<Rightarrow> u64 list"
  shown :: terminal
  cols :: nat
  rows :: nat
  received :: "(u16 \<times> u8) list"

fun effect :: "kcall \<Rightarrow> int \<Rightarrow> view \<Rightarrow> view" where
  "effect (Connect h n) r w = (if r = 0 then w\<lparr>registered := (registered w)(unat n := h # registered w (unat n))\<rparr> else w)"
| "effect (Print fmt args) r w = (case render fmt args of Inl e \<Rightarrow> w
     | Inr t \<Rightarrow> w\<lparr>shown := term_write (cols w) (rows w) t (shown w), received := received w @ map (\<lambda>ch. (COM, of_char ch)) t\<rparr>)"
| "effect c r w = w"

text \<open>The console and the serial port against the view.\<close>

definition output_ok :: "machine \<Rightarrow> view \<Rightarrow> bool" where
  "output_ok s w \<longleftrightarrow> uart_live (kcpu (kern s)) \<and> port_out (kcpu (kern s)) = received w \<and> fbcon_ok (framebuffer_info s) (con s) \<and>
     unat (fb_addr (framebuffer_info s)) + unat (fb_pitch (framebuffer_info s)) * fb_h (framebuffer_info s) \<le> 2 ^ 64 - 2 ^ 47 \<and>
     displays (framebuffer_info s) (con s) (kmem (kern s)) (t_cell (shown w)) \<and>
     fbcon_x (con s) = of_nat (t_x (shown w)) \<and> fbcon_y (con s) = of_nat (t_y (shown w)) \<and>
     cols w = unat (fbcon_cx (con s)) \<and> rows w = unat (fbcon_cy (con s)) \<and> t_ok (unat (fbcon_cx (con s))) (unat (fbcon_cy (con s))) (shown w)"

definition in_order :: "machine \<Rightarrow> (u64 \<times> blocks) list \<Rightarrow> (nat \<Rightarrow> (u64 \<times> u64) list) \<Rightarrow> view \<Rightarrow> bool" where
  "in_order s ps hl w \<longleftrightarrow> handlers_ok s ps hl \<and> (\<forall>v < 256. map snd (hl v) = registered w v) \<and> output_ok s w"

inductive run_step :: "machine \<times> view \<Rightarrow> machine \<times> view \<Rightarrow> bool" where
  run_call: "handlers_ok s ps hl \<Longrightarrow> allowed s ps hl c \<Longrightarrow> perform stack c s = Inr (r, s') \<Longrightarrow> run_step (s, w) (s', effect c r w)"

section \<open>What each call keeps\<close>

lemma fb_low:
  assumes "unat (fb_addr fb) + unat (fb_pitch fb) * fb_h fb \<le> 2 ^ 64 - 2 ^ 47" and "in_fb fb x"
  shows "unat x < 2 ^ 64 - 2 ^ 47"
proof -
  define d where "d = x - fb_addr fb"
  have d: "unat d < unat (fb_pitch fb) * fb_h fb" using assms(2) by (simp add: in_fb_def d_def)
  then have "unat (fb_addr fb) + unat d < 2 ^ 64" using assms(1) by simp
  then have "unat (fb_addr fb + d) = unat (fb_addr fb) + unat d" by (intro unat_add_nowrap) simp
  moreover have "fb_addr fb + d = x" by (simp add: d_def)
  ultimately show ?thesis using assms(1) d by simp
qed

lemma output_kept:
  assumes "output_ok s w" and "same_output s s'"
  shows "output_ok s' w"
proof -
  have e: "con s' = con s" "framebuffer_info s' = framebuffer_info s" and low: "\<And>x. unat x < 2 ^ 64 - 2 ^ 47 \<Longrightarrow> kmem (kern s') x = kmem (kern s) x"
    using assms(2) by (auto simp: same_output_def)
  have o: "fbcon_ok (framebuffer_info s) (con s)" "displays (framebuffer_info s) (con s) (kmem (kern s)) (t_cell (shown w))"
    and f: "unat (fb_addr (framebuffer_info s)) + unat (fb_pitch (framebuffer_info s)) * fb_h (framebuffer_info s) \<le> 2 ^ 64 - 2 ^ 47"
    using assms(1) unfolding output_ok_def by blast+
  have "displays (framebuffer_info s) (con s) (kmem (kern s')) (t_cell (shown w))"
    by (rule displays_cong [OF o], rule low, rule fb_low [OF f])
  then show ?thesis using assms by (simp add: output_ok_def same_output_def e)
qed

text \<open>The lists after memory has changed outside the nodes and the pools have moved on.\<close>

lemma handlers_kept:
  assumes H: "handlers_ok s ps hl" and K: "kpool (kern s') ps'" and "interrupt_handlers s' = interrupt_handlers s"
    and chunks: "\<And>v a h. v < 256 \<Longrightarrow> (a, h) \<in> set (hl v) \<Longrightarrow> chunk ps' a 16"
    and bytes: "\<And>v a h x. v < 256 \<Longrightarrow> (a, h) \<in> set (hl v) \<Longrightarrow> node_byte a x \<Longrightarrow> kmem (kern s') x = kmem (kern s) x"
  shows "handlers_ok s' ps' hl"
proof -
  have "hlist (kmem (kern s')) (interrupt_handlers s ! v) (hl v)" if "v < 256" for v
    using H that bytes by (subst hlist_cong [where m = "kmem (kern s)"]) (auto simp: handlers_ok_def)
  then show ?thesis using H K chunks by (auto simp: handlers_ok_def assms(3))
qed

lemma node_chunk: "handlers_ok s ps hl \<Longrightarrow> v < 256 \<Longrightarrow> (a, h) \<in> set (hl v) \<Longrightarrow> chunk ps a 16"
  unfolding handlers_ok_def by blast

lemma node_live: "handlers_ok s ps hl \<Longrightarrow> v < 256 \<Longrightarrow> (a, h) \<in> set (hl v) \<Longrightarrow> node_byte a x \<Longrightarrow> x \<in> live ps"
  using chunk_byte [OF node_chunk] by (simp add: node_byte_def)

lemma no_nodeD: "no_node hl A \<Longrightarrow> v < 256 \<Longrightarrow> (a, h) \<in> set (hl v) \<Longrightarrow> node_byte a x \<Longrightarrow> x \<notin> A"
  unfolding no_node_def by blast

lemma malloc_ok:
  assumes H: "handlers_ok s ps hl" and a: "allowed s ps hl (Malloc len)"
  shows "\<exists>r s' ps'. perform stack (Malloc len) s = Inr (r, s') \<and> handlers_ok s' ps' hl \<and> same_output s s'"
proof -
  have K: "kpool (kern s) ps" using H by (simp add: handlers_ok_def)
  obtain a k where k: "kmalloc len (kern s) = Inr (a, k)" "served (kern s) ps len a k" using kmalloc_served [OF K, of len] a by auto
  define s' where "s' = s\<lparr>kern := k\<rparr>"
  have p: "perform stack (Malloc len) s = Inr (uint a, s')" by (simp add: k(1) s'_def)
  show ?thesis
  proof (cases "a = 0")
    case True
    then have "k = (kern s)\<lparr>kcpu := disable_interrupts (kcpu (kern s))\<rparr>" using k(2) by (simp add: served_def)
    then have "handlers_ok s' ps hl" "same_output s s'"
      using H by (simp_all add: s'_def handlers_ok_def same_output_def)
    with p show ?thesis by blast
  next
    case False
    then obtain ps' where q: "kpool k ps'" "kcpu k = kcpu (kern s)" "\<forall>x. unat x < 2 ^ 64 - 2 ^ 47 \<longrightarrow> kmem k x = kmem (kern s) x"
      "\<forall>b L. chunk ps b L \<longrightarrow> chunk ps' b L" "\<forall>x \<in> live ps. kmem k x = kmem (kern s) x" using k(2) by (auto simp: served_def)
    have "handlers_ok s' ps' hl"
    proof (rule handlers_kept [OF H])
      show "chunk ps' b 16" if "v < 256" "(b, h) \<in> set (hl v)" for v b h using node_chunk [OF H that] q(4) by blast
      show "kmem (kern s') x = kmem (kern s) x" if "v < 256" "(b, h) \<in> set (hl v)" "node_byte b x" for v b h x
        using node_live [OF H that] q(5) by (simp add: s'_def)
    qed (simp_all add: s'_def q(1))
    moreover have "same_output s s'" using q(2,3) by (simp add: same_output_def s'_def)
    ultimately show ?thesis using p by blast
  qed
qed

lemma free_ok:
  assumes H: "handlers_ok s ps hl" and a: "allowed s ps hl (Free a)"
  shows "\<exists>r s' ps'. perform stack (Free a) s = Inr (r, s') \<and> handlers_ok s' ps' hl \<and> same_output s s'"
proof -
  obtain ts Q xs n ys rs where ps: "ps = ts @ (Q, xs @ (n, True) # ys) # rs" and n: "32 < n" "a = pool_first Q + of_nat (span xs + 32)"
    and nn: "no_node hl (block_bytes Q (span xs) n)" using a by auto
  have K: "kpool (kern s) ps" using H by (simp add: handlers_ok_def)
  from kfree_kept [OF K [unfolded ps] n(1)] obtain k ps' where k: "kfree a (kern s) = Inr k" "kpool k ps'" "live ps' = live ps - block_bytes Q (span xs) n"
    "\<forall>x \<in> live ps'. kmem k x = kmem (kern s) x" "map fst ps' = map fst ps" "\<forall>x. unat x < 2 ^ 64 - 2 ^ 47 \<longrightarrow> kmem k x = kmem (kern s) x"
    unfolding n(2) block_bytes_def ps [symmetric] by blast
  define s' where "s' = s\<lparr>kern := k\<rparr>"
  have stay: "x \<in> live ps'" if "v < 256" "(b, h) \<in> set (hl v)" "node_byte b x" for v b h x
    using node_live [OF H that] no_nodeD [OF nn that] by (simp add: k(3))
  have "handlers_ok s' ps' hl"
  proof (rule handlers_kept [OF H])
    show "chunk ps' b 16" if v: "v < 256" "(b, h) \<in> set (hl v)" for v b h
    proof (rule chunk_stays [OF _ k(2)])
      show "chunk ps b 16" by (rule node_chunk [OF H v])
      show "set (map fst ps) \<subseteq> set (map fst ps')" by (simp only: k(5))
      show "span bs = 4072" if "(R, bs) \<in> set ps" for R bs using K that by (auto simp: kpool_def pool_ok_def)
      show "b + of_nat j \<in> live ps'" if "j < 16" for j using that by (intro stay [OF v]) (simp add: node_byte_def unat_of_nat_small)
    qed
    show "kmem (kern s') x = kmem (kern s) x" if "v < 256" "(b, h) \<in> set (hl v)" "node_byte b x" for v b h x
      using stay [OF that] k(4) by (simp add: s'_def)
  qed (simp_all add: s'_def k(2))
  moreover have "kcpu k = kcpu (kern s)" using kfree_memory [OF k(1)] by (metis kernel.select_convs(3) kernel.surjective kernel.update_convs(1))
  then have "same_output s s'" using k(6) by (simp add: same_output_def s'_def)
  moreover have "perform stack (Free a) s = Inr (0, s')" by (simp add: k(1) s'_def)
  ultimately show ?thesis by blast
qed

lemma write_ok:
  assumes H: "handlers_ok s ps hl" and a: "allowed s ps hl (Write a b)"
  shows "\<exists>r s' ps'. perform stack (Write a b) s = Inr (r, s') \<and> handlers_ok s' ps' hl \<and> same_output s s'"
proof -
  define s' where "s' = set_mem (store64 (kmem (kern s)) a b) s"
  have K: "kpool (kern s) ps" and c: "chunk ps a 8" and nn: "no_node hl {a + of_nat j | j. j < 8}" using H a by (simp_all add: handlers_ok_def)
  have other: "store64 (kmem (kern s)) a b x = kmem (kern s) x" if "8 \<le> unat (x - a)" for x
    using store_offset_byte [of "unat (x - a)" 0 "kmem (kern s)" a b] that unsigned_less [where 'a = nat and w = "x - a"] by simp
  have K': "kpool (kern s') ps" using chunk_store [OF K c] by (simp add: s'_def set_mem_def)
  have "handlers_ok s' ps hl"
  proof (rule handlers_kept [OF H K'])
    show "chunk ps p 16" if "v < 256" "(p, h) \<in> set (hl v)" for v p h by (rule node_chunk [OF H that])
    show "kmem (kern s') x = kmem (kern s) x" if "v < 256" "(p, h) \<in> set (hl v)" "node_byte p x" for v p h x
    proof -
      have "x \<notin> {a + of_nat j | j. j < 8}" using no_nodeD [OF nn that] .
      moreover have "x = a + of_nat (unat (x - a))" by simp
      ultimately have "\<not> unat (x - a) < 8" by blast
      then have "8 \<le> unat (x - a)" by simp
      then show ?thesis using other by (simp add: s'_def)
    qed
  qed (simp add: s'_def)
  moreover have "store64 (kmem (kern s)) a b x = kmem (kern s) x" if "unat x < 2 ^ 64 - 2 ^ 47" for x
    using live_high [OF K that] chunk_byte [OF c] by (intro other) (meson not_le)
  then have "same_output s s'" by (simp add: same_output_def s'_def)
  ultimately show ?thesis by (auto simp: s'_def)
qed

lemma frames_ok:
  assumes H: "handlers_ok s ps hl" and s': "s' = s\<lparr>kern := (kern s)\<lparr>kpmm := pm\<rparr>\<rparr>" and K: "kpool ((kern s)\<lparr>kpmm := pm\<rparr>) ps"
  shows "handlers_ok s' ps hl" and "same_output s s'"
  using H K by (simp_all add: handlers_ok_def same_output_def s')

lemma alloc_ok:
  assumes H: "handlers_ok s ps hl" and a: "allowed s ps hl (Alloc k)"
  shows "\<exists>r s' ps'. perform stack (Alloc k) s = Inr (r, s') \<and> handlers_ok s' ps' hl \<and> same_output s s'"
proof -
  have K: "kpool (kern s) ps" and i: "pmm_inv (kpmm (kern s))" "mm_frames_count (kpmm (kern s)) \<le> 2 ^ 35" and k: "k \<le> max_order" using H a by (simp_all add: handlers_ok_def kpool_def)
  obtain p pm where al: "alloc_frames (int k) (kpmm (kern s)) = Inr (p, pm)" using buddy.alloc_no_error [OF i(1) k] by blast
  have "kpool ((kern s)\<lparr>kpmm := pm\<rparr>) ps"
    by (cases rule: buddy.alloc_cases [OF i(1) k al, case_names none block]) (use K i(2) in \<open>auto intro: kpool_pmm [OF K]\<close>)
  from frames_ok [OF H refl this] al show ?thesis by auto
qed

lemma release_ok:
  assumes H: "handlers_ok s ps hl" and a: "allowed s ps hl (Release a)"
  shows "\<exists>r s' ps'. perform stack (Release a) s = Inr (r, s') \<and> handlers_ok s' ps' hl \<and> same_output s s'"
proof -
  have K: "kpool (kern s) ps" and i: "pmm_inv (kpmm (kern s))" "mm_frames_count (kpmm (kern s)) \<le> 2 ^ 35" using H by (simp_all add: handlers_ok_def kpool_def)
  obtain p k where p: "(p, k) \<in> alloc_blocks (kpmm (kern s))" "a = push_bit 12 (of_nat p)" "phys_to_virt a \<notin> set (map fst ps)" using a by auto
  obtain pm where f: "free_frame a (kpmm (kern s)) = Inr pm" "pmm_inv pm" "alloc_blocks pm = alloc_blocks (kpmm (kern s)) - {(p, k)}"
    "mm_frames_count pm = mm_frames_count (kpmm (kern s))" using buddy.release_total [OF i(1) p(1)] p(2) by blast
  have "kpool ((kern s)\<lparr>kpmm := pm\<rparr>) ps" using p(2,3) f i(2) by (intro kpool_pmm [OF K]) auto
  from frames_ok [OF H refl this] f(1) show ?thesis by auto
qed

text \<open>A write below the direct map leaves the pools alone.\<close>

lemma kpool_low:
  assumes K: "kpool k ps" and high: "\<And>x. 2 ^ 64 - 2 ^ 47 \<le> unat x \<Longrightarrow> m x = kmem k x"
  shows "kpool (k\<lparr>kmem := m\<rparr>) ps"
proof (rule kpool_outside [OF K], rule high, rule ccontr)
  fix Q x assume a: "Q \<in> set (map fst ps)" "unat (x - Q) < 4096" "\<not> 2 ^ 64 - 2 ^ 47 \<le> unat x"
  have "pool_frame k Q" using K a(1) by (auto simp: kpool_def pool_ok_def)
  then show False using pool_page_high [of k Q x] a(2,3) by simp
qed

lemma print_ok:
  assumes I: "in_order s ps hl w" and a: "allowed s ps hl (Print fmt args)"
  shows "\<exists>r s'. perform stack (Print fmt args) s = Inr (r, s') \<and> in_order s' ps hl (effect (Print fmt args) r w)"
proof -
  obtain t where t: "render fmt args = Inr t" "- 1 \<notin> set (directive_widths fmt)" "length t \<le> 1022" "\<forall>c \<in> set t. of_char c < (128 :: nat) \<and> c \<noteq> NUL"
    using a by (auto simp: text_ok_def split: sum.splits)
  have H: "handlers_ok s ps hl" and O: "output_ok s w" using I by (simp_all add: in_order_def)
  define tm where "tm = term_write (cols w) (rows w) t (shown w)"
  have o: "uart_live (kcpu (kern s))" "fbcon_ok (framebuffer_info s) (con s)" "displays (framebuffer_info s) (con s) (kmem (kern s)) (t_cell (shown w))"
    "fbcon_x (con s) = of_nat (t_x (shown w))" "fbcon_y (con s) = of_nat (t_y (shown w))"
    "t_ok (unat (fbcon_cx (con s))) (unat (fbcon_cy (con s))) (shown w)"
    "tm = term_write (unat (fbcon_cx (con s))) (unat (fbcon_cy (con s))) t (shown w)"
    and cr: "cols w = unat (fbcon_cx (con s))" "rows w = unat (fbcon_cy (con s))" "port_out (kcpu (kern s)) = received w"
    and low: "unat (fb_addr (framebuffer_info s)) + unat (fb_pitch (framebuffer_info s)) * fb_h (framebuffer_info s) \<le> 2 ^ 64 - 2 ^ 47"
    using O unfolding output_ok_def tm_def by simp_all
  obtain c m' where k: "kprintf stack fmt args s = Inr (set_mem m' (set_cpu c s\<lparr>con := cursor_at (t_x tm) (t_y tm) (con s)\<rparr>))" (is "_ = Inr ?s'")
    "port_out c = port_out (kcpu (kern s)) @ map (\<lambda>ch. (COM, of_char ch)) t" "c = (kcpu (kern s))\<lparr>port_reads := port_reads c, port_out := port_out c\<rparr>"
    "displays (framebuffer_info s) (con s) m' (t_cell tm)" "\<forall>p. \<not> in_fb (framebuffer_info s) p \<longrightarrow> m' p = kmem (kern s) p"
    by (rule kprintf_shown [OF t o])
  have s': "kern ?s' = (kern s)\<lparr>kmem := m', kcpu := c\<rparr>" "con ?s' = cursor_at (t_x tm) (t_y tm) (con s)" "framebuffer_info ?s' = framebuffer_info s"
    "interrupt_handlers ?s' = interrupt_handlers s" by (simp_all add: set_mem_def set_cpu_def)
  have high: "m' x = kmem (kern s) x" if "2 ^ 64 - 2 ^ 47 \<le> unat x" for x
    using k(5) fb_low [OF low, of x] that by auto
  have "handlers_ok ?s' ps hl"
  proof (rule handlers_kept [OF H])
    show "kpool (kern ?s') ps" unfolding s' using kpool_low [of "kern s" ps m'] H high by (simp add: handlers_ok_def)
    show "chunk ps b 16" if "v < 256" "(b, h) \<in> set (hl v)" for v b h by (rule node_chunk [OF H that])
    show "kmem (kern ?s') x = kmem (kern s) x" if "v < 256" "(b, h) \<in> set (hl v)" "node_byte b x" for v b h x
    proof -
      have "x \<in> live ps" "kpool (kern s) ps" using node_live [OF H that] H by (simp_all add: handlers_ok_def)
      then show ?thesis unfolding s' using high live_high [of "kern s" ps x] by (simp add: not_less) (meson not_le)
    qed
  qed (rule s'(4))
  moreover have "uart_live c" using o(1) by (subst k(3)) (simp add: uart_live_def tx_ready_def)
  then have "output_ok ?s' (w\<lparr>shown := tm, received := received w @ map (\<lambda>ch. (COM, of_char ch)) t\<rparr>)"
    using o(2,6) low cr k(2,4) term_write_ok [OF o(6), of t]
    unfolding output_ok_def s' by (simp add: tm_def)
  ultimately have "in_order ?s' ps hl (effect (Print fmt args) 0 w)"
    using I by (simp add: in_order_def t(1) tm_def)
  moreover have "perform stack (Print fmt args) s = Inr (0, ?s')" by (simp add: k(1))
  ultimately show ?thesis by blast
qed

lemma in_order_kept:
  "in_order s ps hl w \<Longrightarrow> handlers_ok s' ps' hl \<Longrightarrow> same_output s s' \<Longrightarrow> in_order s' ps' hl w"
  unfolding in_order_def using output_kept by blast

lemma connect_call_ok:
  assumes I: "in_order s ps hl w" and a: "allowed s ps hl (Connect h n)"
  shows "\<exists>r s' ps' hl'. perform stack (Connect h n) s = Inr (r, s') \<and> in_order s' ps' hl' (effect (Connect h n) r w)"
proof (cases "n < 32")
  case True
  then have "perform stack (Connect h n) s = Inr (- EINVAL, s)" by (simp add: connect_interrupt_def)
  moreover have "in_order s ps hl (effect (Connect h n) (- EINVAL) w)" using I by (simp add: EINVAL_def)
  ultimately show ?thesis by blast
next
  case False
  have H: "handlers_ok s ps hl" and n: "32 \<le> n" "n < 256" "leaves_room 16 ps" using I a False by (auto simp: in_order_def)
  from connect_ok [OF H n(3,1,2), of h] obtain s' where o: "same_output s s'" and
    "(connect_interrupt h n s = Inr (- ENOMEM, s') \<and> handlers_ok s' ps hl) \<or>
     (\<exists>a ps'. connect_interrupt h n s = Inr (0, s') \<and> handlers_ok s' ps' (hl(unat n := (a, h) # hl (unat n))))" by blast
  then show ?thesis
  proof (elim disjE exE conjE)
    assume "connect_interrupt h n s = Inr (- ENOMEM, s')" "handlers_ok s' ps hl"
    with in_order_kept [OF I this(2) o] show ?thesis by (intro exI [of _ "- ENOMEM"] exI [of _ s']) (auto simp: ENOMEM_def)
  next
    fix a ps' assume c: "connect_interrupt h n s = Inr (0, s')" "handlers_ok s' ps' (hl(unat n := (a, h) # hl (unat n)))"
    have "output_ok s' (w\<lparr>registered := (registered w)(unat n := h # registered w (unat n))\<rparr>)"
      using output_kept [OF _ o, of w] I by (simp add: in_order_def output_ok_def)
    then have "in_order s' ps' (hl(unat n := (a, h) # hl (unat n))) (effect (Connect h n) 0 w)"
      using I c(2) n(2) by (simp add: in_order_def word_less_nat_alt)
    with c(1) show ?thesis by (intro exI [of _ 0] exI [of _ s']) auto
  qed
qed

lemma call_ok:
  assumes I: "in_order s ps hl w" and a: "allowed s ps hl c"
  shows "\<exists>r s' ps' hl'. perform stack c s = Inr (r, s') \<and> in_order s' ps' hl' (effect c r w)"
proof -
  have H: "handlers_ok s ps hl" using I by (simp add: in_order_def)
  have kept: ?thesis if "\<exists>r s' ps'. perform stack c s = Inr (r, s') \<and> handlers_ok s' ps' hl \<and> same_output s s'" "\<And>r. effect c r w = w"
    using that in_order_kept [OF I] by metis
  show ?thesis
  proof (cases c)
    case (Connect h n)
    then show ?thesis using connect_call_ok I a by simp
  next
    case (Malloc len)
    then show ?thesis using malloc_ok [OF H] a kept by simp
  next
    case (Free b)
    then show ?thesis using free_ok [OF H, of b] a kept by simp
  next
    case (Write b v)
    then show ?thesis using write_ok [OF H, of b v] a kept by simp
  next
    case (Alloc k)
    then show ?thesis using alloc_ok [OF H, of k] a kept by simp
  next
    case (Release b)
    then show ?thesis using release_ok [OF H, of b] a kept by simp
  next
    case (Print fmt args)
    then show ?thesis using print_ok [OF I] a by metis
  qed
qed

lemma in_order_unique:
  assumes "in_order s ps hl w" and "handlers_ok s qs gl"
  shows "in_order s qs gl w"
proof -
  have "gl v = hl v" if "v < 256" for v
    using assms that by (intro hlist_unique [of "kmem (kern s)" "interrupt_handlers s ! v"]) (auto simp: in_order_def handlers_ok_def)
  then show ?thesis using assms by (simp add: in_order_def)
qed

definition run_ok :: "machine \<times> view \<Rightarrow> bool" where
  "run_ok c \<longleftrightarrow> (\<exists>ps hl. in_order (fst c) ps hl (snd c))"

lemma run_step_ok: "run_step c c' \<Longrightarrow> run_ok c \<Longrightarrow> run_ok c'"
proof (induction rule: run_step.induct)
  case (run_call s ps hl c stack r s' w)
  then have I: "in_order s ps hl w" using in_order_unique by (auto simp: run_ok_def)
  from call_ok [OF I run_call(2), of stack] run_call(3) show ?case by (auto simp: run_ok_def)
qed

interpretation running: transition_system run_step run_ok
  by unfold_locales (rule run_step_ok)

section \<open>Property\<close>

text \<open>C4. The running kernel refines its view. From a state in order, after any sequence of allowed calls (\<open>allowed\<close>; releases are by the address 32 bytes after
  a block's header): the pools and handler lists are well formed, the
  screen shows and the serial port has received exactly the messages printed; every further allowed call returns, with the effect on the view its
  specification says (no panic, no fault, no endless loop); and an interrupt asks exactly the handlers registered for its vector, newest first.\<close>

theorem kernel_run_refines:
  assumes "in_order s0 ps0 hl0 w0" and "run_step\<^sup>*\<^sup>* (s0, w0) (s, w)"
  shows "\<exists>ps hl. in_order s ps hl w \<and>
    (\<forall>stack c. allowed s ps hl c \<longrightarrow> (\<exists>r s'. perform stack c s = Inr (r, s') \<and> run_step (s, w) (s', effect c r w))) \<and>
    (\<forall>call frame v. 32 \<le> v \<and> v < 256 \<and> frame_vector (kmem (kern s)) frame = of_nat v \<and>
       (\<forall>h s a h' x. (a, h') \<in> set (hl v) \<longrightarrow> node_byte a x \<longrightarrow> kmem (kern (snd (call h frame s))) x = kmem (kern s) x) \<longrightarrow>
       interrupt_service call frame s =
         (case first_accept call frame (registered w v) s of
            (True, s1) \<Rightarrow> Inr (Some frame, s1)
          | (False, s1) \<Rightarrow> rbind (panic ''Unhandled interrupt: vector=%llu'' [VLong (frame_vector (kmem (kern s1)) frame)] s1) (\<lambda>s2. Inr (None, s2))))"
proof -
  have "run_ok (s0, w0)" using assms(1) by (auto simp: run_ok_def)
  from running.run_inv [OF assms(2) this] obtain ps hl where I: "in_order s ps hl w" by (auto simp: run_ok_def)
  have H: "handlers_ok s ps hl" and reg: "\<And>v. v < 256 \<Longrightarrow> map snd (hl v) = registered w v" using I by (simp_all add: in_order_def)
  show ?thesis
  proof (intro exI [of _ ps] exI [of _ hl] conjI allI impI)
    show "in_order s ps hl w" by (rule I)
    show "\<exists>r s'. perform stack c s = Inr (r, s') \<and> run_step (s, w) (s', effect c r w)" if "allowed s ps hl c" for stack c
      using call_ok [OF I that, of stack] run_call [OF H that] by blast
    fix call :: handler_call and frame v
    assume a: "32 \<le> v \<and> v < 256 \<and> frame_vector (kmem (kern s)) frame = of_nat v \<and>
       (\<forall>h s a h' x. (a, h') \<in> set (hl v) \<longrightarrow> node_byte a x \<longrightarrow> kmem (kern (snd (call h frame s))) x = kmem (kern s) x)"
    have n: "unat (of_nat v :: u64) = v" using a by (simp add: unat_of_nat_small)
    then have "(of_nat v :: u64) < 256" "32 \<le> (of_nat v :: u64)" using a by (simp_all add: word_less_nat_alt word_le_nat_alt)
    moreover have "length (interrupt_handlers s) = 256" "hlist (kmem (kern s)) (interrupt_handlers s ! unat (of_nat v :: u64)) (hl v)"
      using H a by (auto simp: handlers_ok_def n)
    ultimately show "interrupt_service call frame s = (case first_accept call frame (registered w v) s of
            (True, s1) \<Rightarrow> Inr (Some frame, s1)
          | (False, s1) \<Rightarrow> rbind (panic ''Unhandled interrupt: vector=%llu'' [VLong (frame_vector (kmem (kern s1)) frame)] s1) (\<lambda>s2. Inr (None, s2)))"
      using service_dispatch [of s frame "of_nat v" "hl v" call] a by (simp add: reg)
  qed
qed

text \<open>A handler is connected for vector 33 on a fresh pool, and then a message is printed.\<close>

lemma demo_in_order:
  assumes "kpool k ps" and "kcpu k = demo_cpu"
  shows "in_order (demo_machine\<lparr>kern := k\<rparr>) ps (\<lambda>_. [])
    \<lparr>registered = \<lambda>_. [], shown = \<lparr>t_x = 0, t_y = 0, t_cell = \<lambda>_ _. None\<rparr>, cols = 2, rows = 2, received = []\<rparr>"
proof -
  have "uart_live demo_cpu" using demo_machine_live by (simp add: demo_kernel_def)
  then show ?thesis
    using assms demo_con_ok displays_unknown
    by (simp add: in_order_def handlers_ok_def output_ok_def demo_con_eq demo_fb_def fb_h_def t_ok_def demo_cpu_def) (simp add: demo_machine_def)
qed

theorem kernel_run_refines_witness:
  "\<exists>k s1 s2. init_pool demo_kernel = Inr (True, k) \<and> connect_interrupt 0x7000 33 (demo_machine\<lparr>kern := k\<rparr>) = Inr (0, s1) \<and>
    kprintf (\<lambda>_. NUL) ''A%u'' [VInt 7] s1 = Inr s2 \<and> port_out (kcpu (kern s2)) = [(0x3E8, 0x41), (0x3E8, 0x37)]"
proof -
  obtain k Q where k: "init_pool demo_kernel = Inr (True, k)" "kpool k [(Q, [(4072, False)])]" "card (avail_frames k) = 2" by (rule demo_pool)
  have "kcpu k = demo_cpu" using init_pool_ok [OF demo_pool_hyps] k(1) by (auto simp: demo_kernel_def)
  note I = demo_in_order [OF k(2) this]
  let ?s = "demo_machine\<lparr>kern := k\<rparr>" and ?w = "\<lparr>registered = \<lambda>_. [], shown = \<lparr>t_x = 0, t_y = 0, t_cell = \<lambda>_ _. None\<rparr>, cols = 2, rows = 2, received = []\<rparr>"
  have H: "handlers_ok ?s [(Q, [(4072, False)])] (\<lambda>_. [])" using I by (simp add: in_order_def)
  have a: "allowed ?s [(Q, [(4072, False)])] (\<lambda>_. []) (Connect 0x7000 33)" by (simp add: leaves_room_def)
  have "avail_frames (kern ?s) \<noteq> {}" using k(3) by auto
  then obtain s1 where s1: "connect_interrupt 0x7000 33 ?s = Inr (0, s1)" using connect_ok [OF H, of 33 "0x7000"] by (auto simp: leaves_room_def)
  define w1 where "w1 = effect (Connect 0x7000 33) 0 ?w"
  have 1: "run_step (?s, ?w) (s1, w1)" unfolding w1_def by (rule run_call [OF H a, of "\<lambda>_. NUL"]) (simp add: s1)
  have t: "render ''A%u'' [VInt 7] = Inr ''A7''" "- 1 \<notin> set (directive_widths ''A%u'')" by code_simp+
  then have "text_ok ''A%u'' [VInt 7]" by (simp add: text_ok_def NUL_def)
  then obtain s2 where s2: "kprintf (\<lambda>_. NUL) ''A%u'' [VInt 7] s1 = Inr s2" "run_step (s1, w1) (s2, effect (Print ''A%u'' [VInt 7]) 0 w1)"
    using kernel_run_refines [OF I r_into_rtranclp [of run_step, OF 1]] by (fastforce elim!: allE [of _ "Print ''A%u'' [VInt 7]"])
  from kernel_run_refines [OF I converse_rtranclp_into_rtranclp [of run_step, OF 1 r_into_rtranclp [of run_step, OF s2(2)]]]
  have "port_out (kcpu (kern s2)) = received (effect (Print ''A%u'' [VInt 7]) 0 w1)" by (auto simp: in_order_def output_ok_def)
  also have "\<dots> = [(0x3E8, 0x41), (0x3E8, 0x37)]" by (simp add: t w1_def COM_def COM3_def of_char_def)
  finally show ?thesis using k(1) s1 s2(1) by blast
qed

end
