(* ===== verification/Kmain.thy ===== *)
theory Kmain
  imports Console Init_Memory
begin

text \<open>
  The kernel's entry point: \<open>kmain\<close> of \<open>init/main.c\<close>. It does not return; the result is the state of the machine when it idles in the last loop, or
  when a panic has halted it. Addresses that the linker chooses, and the table of entry stubs from \<open>kernel/asm.S\<close>, are the record
  \<open>image\<close>. Where a step calls \<open>panic\<close>, the panic runs on the state before that step.
\<close>

record image =
  image_start :: u64
  image_end :: u64
  gdt_address :: u64
  tss_address :: u64
  ist1_address :: u64
  idt_address :: u64
  isr_table :: "nat \<Rightarrow> u64"
  multiboot_info_buffer :: u64

text \<open>\<open>symbols.h\<close>: the addresses the linker gives, read by a \<open>movabs\<close> each.\<close>

definition kernel_image_phys_start :: "image \<Rightarrow> u64" where [simp]: "kernel_image_phys_start im = image_start im"
definition kernel_image_phys_end :: "image \<Rightarrow> u64" where [simp]: "kernel_image_phys_end im = image_end im"

definition or_panic :: "'a res \<Rightarrow> machine \<Rightarrow> ('a \<Rightarrow> machine res) \<Rightarrow> machine res" where
  "or_panic r s cont = (case r of Inl (Panic msg) \<Rightarrow> panic msg [] s | Inl e \<Rightarrow> Inl e | Inr x \<Rightarrow> cont x)"

text \<open>The steps in front of the first message, then the message and the memory manager.\<close>

definition init_processor :: "image \<Rightarrow> machine \<Rightarrow> (machine \<Rightarrow> machine res) \<Rightarrow> machine res" where
  "init_processor im s cont =
     (let (g, c) = init_gdt (gdt_address im) (tss_address im) (ist1_address im) (gdts s) (kcpu (kern s));
          s1 = set_cpu c (s\<lparr>gdts := g\<rparr>)
      in or_panic (init_interrupt (idt_address im) (isr_table im) (idt s1) (kcpu (kern s1))) s1 (\<lambda>(t, c).
         cont (set_cpu c (s1\<lparr>idt := t\<rparr>))))"

definition init_information :: "image \<Rightarrow> u64 \<Rightarrow> machine \<Rightarrow> (machine \<Rightarrow> machine res) \<Rightarrow> machine res" where
  "init_information im info s cont =
     or_panic (copy_multiboot_info (multiboot_info_buffer im) info (kmem (kern s))) s (\<lambda>m.
     let s1 = set_mem m s in
     or_panic (parse_multiboot_info (multiboot_info_buffer im) (kmem (kern s1)) (multiboot_mmap_info s1, multiboot_framebuffer_info s1)) s1
       (\<lambda>(mp, fp). cont (s1\<lparr>multiboot_mmap_info := mp, multiboot_framebuffer_info := fp\<rparr>)))"

text \<open>
  A tag that the loader did not pass is a null pointer, which both initialisers dereference: address 0 is mapped (to physical address 0) by the
  tables of \<open>boot.S\<close>, so they read whatever memory holds there.
\<close>

definition init_screen :: "machine \<Rightarrow> machine res" where
  "init_screen s =
     (let tag = read_framebuffer (kmem (kern s)) (multiboot_framebuffer_info s);
          (r, info) = framebuffer_init tag (framebuffer_info s);
          (r', f) = fbcon_init tag (con s)
      in Inr (s\<lparr>framebuffer_info := info, con := f\<rparr>))"

definition init_memory_manager :: "image \<Rightarrow> machine \<Rightarrow> machine res" where
  "init_memory_manager im s =
     rbind (MULTIBOOT2_MMAP_ENTRY_COUNT (kmem (kern s)) (multiboot_mmap_info s)) (\<lambda>count.
      or_panic
        (init_memory (kernel_image_phys_start im) (kernel_image_phys_end im) (mmap_entries (kmem (kern s)) (multiboot_mmap_info s) count) (kern s)) s
        (\<lambda>(b, k). Inr (s\<lparr>boot := b, kern := k\<rparr>)))"

definition kmain :: "image \<Rightarrow> out \<Rightarrow> u32 \<Rightarrow> u64 \<Rightarrow> machine \<Rightarrow> machine res" where
  "kmain im stack magic info s =
     (let s0 = set_cpu (uart_init (kcpu (kern s))) s in
      or_panic (validate_multiboot magic) s0 (\<lambda>_.
      init_processor im s0 (\<lambda>s1.
      init_information im info s1 (\<lambda>s2.
      rbind (init_screen s2) (\<lambda>s3.
      rbind (kprintf stack (''FYNAOS is initializing..'' @ [CHR 0x0A]) [] s3) (\<lambda>s4.
      init_memory_manager im s4))))))"

end
