(* ===== verification/Kmain_Spec.thy ===== *)
theory Kmain_Spec
  imports Kmain Multiboot_Spec Init_Memory_Spec Console_Spec
begin

text \<open>
  Start-up as a whole: from a well-formed boot structure the kernel reaches its idle loop with descriptor tables, interrupt gates, console and frame
  allocator in order; a wrong boot loader or too big a structure ends in a panic.
\<close>

section \<open>Reading the copied structure\<close>

lemma same_bytes_byte: "same_bytes n m' B' m B \<Longrightarrow> i < n \<Longrightarrow> m' (B' + of_nat i) = m (B + of_nat i)"
  by (simp add: same_bytes_def)

lemma same_bytes_trans: "same_bytes n m2 B2 m1 B1 \<Longrightarrow> same_bytes n m1 B1 m B \<Longrightarrow> same_bytes n m2 B2 m B"
  by (simp add: same_bytes_def)

lemma read_tag_same:
  assumes "same_bytes n m' B' m B" and "off + 8 \<le> n"
  shows "read_tag m' (B' + of_nat off) = read_tag m (B + of_nat off)"
  using same_bytes_load [OF assms(1), of off, where 'a = 32] same_bytes_load [OF assms(1), of "off + 4", where 'a = 32] assms(2)
  by (simp add: read_tag_def add.assoc)

lemma read_framebuffer_same:
  assumes S: "same_bytes n m' B' m B" and "off + 38 \<le> n"
  shows "read_framebuffer m' (B' + of_nat off) = read_framebuffer m (B + of_nat off)"
proof -
  have w: "load64 m' (B' + of_nat (off + 8)) = load64 m (B + of_nat (off + 8))"
    "(load_word m' (B' + of_nat (off + 30)) :: u16) = load_word m (B + of_nat (off + 30))"
    using assms(2) by (auto intro!: same_bytes_load [OF S] simp del: of_nat_add)
  have d: "load32 m' (B' + of_nat (off + k)) = load32 m (B + of_nat (off + k))" if "k \<in> {16, 20, 24}" for k
    using assms(2) that by (intro same_bytes_load [OF S]) auto
  have b: "m' (B' + of_nat (off + k)) = m (B + of_nat (off + k))" if "k \<in> {28, 29, 32, 33, 34, 35, 36, 37}" for k
    using assms(2) that by (intro same_bytes_byte [OF S]) auto
  have "off + 8 \<le> n" using assms(2) by simp
  note t = read_tag_same [OF S this]
  show ?thesis
    using w d [of 16] d [of 20] d [of 24] b [of 28] b [of 29] b [of 32] b [of 33] b [of 34] b [of 35] b [of 36] b [of 37]
    unfolding read_framebuffer_def t by (simp add: add.assoc)
qed

lemma read_mmap_same:
  assumes S: "same_bytes n m' B' m B" and "off + 16 \<le> n"
  shows "read_mmap m' (B' + of_nat off) = read_mmap m (B + of_nat off)"
proof -
  have d: "load32 m' (B' + of_nat (off + k)) = load32 m (B + of_nat (off + k))" if "k \<in> {8, 12}" for k
    using assms(2) that by (intro same_bytes_load [OF S]) auto
  have "off + 8 \<le> n" using assms(2) by simp
  from read_tag_same [OF S this] d [of 8] d [of 12] show ?thesis by (simp add: read_mmap_def add.assoc)
qed

lemma read_entry_same:
  assumes S: "same_bytes n m' B' m B" and "off + 24 \<le> n"
  shows "read_entry m' (B' + of_nat off) = read_entry m (B + of_nat off)"
proof -
  have "load64 m' (B' + of_nat (off + 0)) = load64 m (B + of_nat (off + 0))" "load64 m' (B' + of_nat (off + 8)) = load64 m (B + of_nat (off + 8))"
    "load32 m' (B' + of_nat (off + 16)) = load32 m (B + of_nat (off + 16))" "load32 m' (B' + of_nat (off + 20)) = load32 m (B + of_nat (off + 20))"
    using assms(2) by (auto intro!: same_bytes_load [OF S] simp del: of_nat_add)
  then show ?thesis by (simp add: read_entry_def add.assoc)
qed

lemma mmap_entries_same:
  assumes S: "same_bytes n m' B' m B" and "off + 16 + 24 * unat count \<le> n"
  shows "mmap_entries m' (B' + of_nat off) count = mmap_entries m (B + of_nat off) count"
proof -
  have "read_entry m' (B' + of_nat off + 16 + 24 * of_nat i) = read_entry m (B + of_nat off + 16 + 24 * of_nat i)" if "i < unat count" for i
  proof -
    have a: "X + of_nat off + 16 + 24 * of_nat i = X + of_nat (off + 16 + 24 * i)" for X :: u64 by (simp add: algebra_simps)
    have "off + 16 + 24 * i + 24 \<le> n" using that assms(2) by linarith
    from read_entry_same [OF S this] show ?thesis unfolding a .
  qed
  then show ?thesis unfolding mmap_entries_def by simp
qed

lemma entry_count:
  assumes "read_mmap m p = t" and "entry_size t = 24" and "unat (tag_size (mmap_header t)) = 16 + 24 * k"
  shows "MULTIBOOT2_MMAP_ENTRY_COUNT m p = Inr (of_nat k)"
proof -
  have k: "16 + 24 * k < 2 ^ 32" using assms(3) unsigned_less [where 'a = nat and w = "tag_size (mmap_header t)"] by simp
  have "(ucast (tag_size (mmap_header t)) :: u64) = of_nat (16 + 24 * k)" unfolding assms(3) [symmetric] by simp
  then have e: "ucast (tag_size (mmap_header t)) - 8 = (of_nat (8 + 24 * k) :: u64)" by simp
  have "unat (of_nat (8 + 24 * k) div 24 :: u64) = (8 + 24 * k) div 24" using k by (simp add: unat_div unat_of_nat_small del: of_nat_add)
  also have "\<dots> = unat (of_nat k :: u64)" using k by (simp add: unat_of_nat_small)
  finally have "(of_nat (8 + 24 * k) div 24 :: u64) = of_nat k" by (rule unsigned_word_eqI)
  then show ?thesis unfolding MULTIBOOT2_MMAP_ENTRY_COUNT_def Let_def assms(1) assms(2) e by simp
qed

section \<open>The steps\<close>

text \<open>What the loader passes: a list of tags with the framebuffer \<open>fb\<close> and the memory map \<open>es\<close>.\<close>

definition loader_info :: "mem \<Rightarrow> u64 \<Rightarrow> multiboot2_tag_framebuffer \<Rightarrow> multiboot2_mmap_entry list \<Rightarrow> bool" where
  "loader_info m info fb es \<longleftrightarrow> info_size m info < 16384 \<and>
     (\<exists>ts fo mo. tags_at m info 8 ts \<and> 16 + tags_span ts \<le> info_size m info \<and>
        last_tag MULTIBOOT2_TAG_FRAMEBUFFER_INFORMATION 8 ts None = Some fo \<and> fo + 38 \<le> info_size m info \<and>
        read_framebuffer m (info + of_nat fo) = fb \<and>
        last_tag MULTIBOOT2_TAG_MEMORY_MAP 8 ts None = Some mo \<and> mo + 16 + 24 * length es \<le> info_size m info \<and>
        entry_size (read_mmap m (info + of_nat mo)) = 24 \<and>
        unat (tag_size (mmap_header (read_mmap m (info + of_nat mo)))) = 16 + 24 * length es \<and>
        mmap_entries m (info + of_nat mo) (of_nat (length es)) = es)"

definition buffer_ok :: "mem \<Rightarrow> u64 \<Rightarrow> u64 \<Rightarrow> bool" where
  "buffer_ok m info buffer \<longleftrightarrow> buffer \<noteq> 0 \<and> 8 dvd unat buffer \<and> unat buffer + 16384 \<le> 2 ^ 64 \<and> info_size m info \<le> unat (buffer - info)"

text \<open>The pointers that the parser leaves: to the framebuffer \<open>fb\<close>, and to a memory map \<open>es\<close> in any memory that agrees on the buffer.\<close>

definition parsed :: "mem \<Rightarrow> u64 \<Rightarrow> u64 \<Rightarrow> u64 \<Rightarrow> multiboot2_tag_framebuffer \<Rightarrow> multiboot2_mmap_entry list \<Rightarrow> bool" where
  "parsed m buffer mp fp fb es \<longleftrightarrow> mp \<noteq> 0 \<and> fp \<noteq> 0 \<and> read_framebuffer m fp = fb \<and>
     (\<forall>m'. same_bytes 16384 m' buffer m buffer \<longrightarrow>
        MULTIBOOT2_MMAP_ENTRY_COUNT m' mp = Inr (of_nat (length es)) \<and> mmap_entries m' mp (of_nat (length es)) = es)"

lemma buffer_offset_nonzero: "buffer_ok m info buffer \<Longrightarrow> k < 16384 \<Longrightarrow> buffer + of_nat k \<noteq> 0"
proof
  assume "buffer_ok m info buffer" "k < 16384" "buffer + of_nat k = 0"
  then have "0 < unat buffer" "unat buffer + 16384 \<le> 2 ^ 64" by (simp_all add: buffer_ok_def unat_gt_0)
  then have "unat (buffer + of_nat k) = unat buffer + k"
    using \<open>k < 16384\<close> by (subst unat_add_nowrap) (simp_all add: unat_of_nat_small)
  then show False using \<open>buffer + of_nat k = 0\<close> \<open>0 < unat buffer\<close> by simp
qed

lemma init_information_ok:
  assumes L: "loader_info (kmem (kern s)) info fb es" and B: "buffer_ok (kmem (kern s)) info (multiboot_info_buffer im)"
    and z: "multiboot_mmap_info s = 0" "multiboot_framebuffer_info s = 0"
  obtains m mp fp where "\<forall>cont. init_information im info s cont = cont (set_mem m s\<lparr>multiboot_mmap_info := mp, multiboot_framebuffer_info := fp\<rparr>)"
    and "parsed m (multiboot_info_buffer im) mp fp fb es"
proof -
  let ?m = "kmem (kern s)" and ?b = "multiboot_info_buffer im"
  let ?n = "info_size ?m info"
  obtain ts fo mo where t: "tags_at ?m info 8 ts" "16 + tags_span ts \<le> ?n" "?n < 16384"
      "last_tag MULTIBOOT2_TAG_FRAMEBUFFER_INFORMATION 8 ts None = Some fo" "fo + 38 \<le> ?n" "read_framebuffer ?m (info + of_nat fo) = fb"
      "last_tag MULTIBOOT2_TAG_MEMORY_MAP 8 ts None = Some mo" "mo + 16 + 24 * length es \<le> ?n"
      "entry_size (read_mmap ?m (info + of_nat mo)) = 24" "unat (tag_size (mmap_header (read_mmap ?m (info + of_nat mo)))) = 16 + 24 * length es"
      "mmap_entries ?m (info + of_nat mo) (of_nat (length es)) = es"
    using L unfolding loader_info_def by blast
  obtain m where m: "copy_multiboot_info ?b info ?m = Inr m" "same_bytes ?n m ?b ?m info"
    using copy_info [of ?m info ?b] t(3) B unfolding buffer_ok_def by blast
  have p: "parse_multiboot_info ?b m (0, 0) = Inr (?b + of_nat mo, ?b + of_nat fo)"
    using parse_copied [OF t(1) m(2) t(2,3)] B t(4,7) by (simp add: tag_pointer_def buffer_ok_def)
  have run: "init_information im info s cont =
      cont (set_mem m s\<lparr>multiboot_mmap_info := ?b + of_nat mo, multiboot_framebuffer_info := ?b + of_nat fo\<rparr>)" for cont
    using m(1) p z by (simp add: init_information_def or_panic_def set_mem_def)
  have "parsed m ?b (?b + of_nat mo) (?b + of_nat fo) fb es"
    unfolding parsed_def
  proof (intro conjI allI impI)
    show "?b + of_nat mo \<noteq> 0" "?b + of_nat fo \<noteq> 0" using t(3,5,8) by (auto intro!: buffer_offset_nonzero [OF B])
    show "read_framebuffer m (?b + of_nat fo) = fb" using read_framebuffer_same [OF m(2) t(5)] t(6) by simp
    fix m' assume "same_bytes 16384 m' ?b m ?b"
    then have "same_bytes ?n m' ?b m ?b" using t(3) by (simp add: same_bytes_def)
    then have S: "same_bytes ?n m' ?b ?m info" using m(2) by (rule same_bytes_trans)
    have "mo + 16 \<le> ?n" "unat (of_nat (length es) :: u64) = length es" using t(3,8) by (simp_all add: unat_of_nat_small)
    then show "MULTIBOOT2_MMAP_ENTRY_COUNT m' (?b + of_nat mo) = Inr (of_nat (length es))" "mmap_entries m' (?b + of_nat mo) (of_nat (length es)) = es"
      using entry_count [OF refl, of m' "?b + of_nat mo" "length es"] read_mmap_same [OF S, of mo] mmap_entries_same [OF S, of mo "of_nat (length es)"] t(8-11)
      by simp_all
  qed
  then show thesis using run by (intro that) blast+
qed

lemma init_processor_ok:
  assumes "length (idt s) = 256"
  obtains g c t where "init_gdt (gdt_address im) (tss_address im) (ist1_address im) (gdts s) (kcpu (kern s)) = (g, c)"
    and "\<forall>cont. init_processor im s cont = cont (set_cpu (c\<lparr>idtr := (4095, idt_address im)\<rparr>) (s\<lparr>gdts := g, idt := t\<rparr>))"
    and "\<forall>v < 256. kernel_gate (isr_table im v) (if v \<in> {2, 8, 18} then 1 else 0) (t ! v)"
proof -
  obtain g c where g: "init_gdt (gdt_address im) (tss_address im) (ist1_address im) (gdts s) (kcpu (kern s)) = (g, c)" by force
  obtain t where t: "init_interrupt (idt_address im) (isr_table im) (idt s) c = Inr (t, c\<lparr>idtr := (4095, idt_address im)\<rparr>)"
      "\<forall>v < 256. kernel_gate (isr_table im v) (if v \<in> {2, 8, 18} then 1 else 0) (t ! v)"
    using init_interrupt_gates [OF assms, of "idt_address im" "isr_table im" c] by blast
  show thesis
    by (rule that [OF g _ t(2)]) (simp add: init_processor_def g or_panic_def set_cpu_def t(1))
qed

definition start_message :: string where "start_message = ''FYNAOS is initializing..'' @ [CHR 0x0A]"

definition blank_terminal :: terminal where "blank_terminal = \<lparr>t_x = 0, t_y = 0, t_cell = \<lambda>_ _. None\<rparr>"

lemma start_message:
  "render start_message [] = Inr start_message" "- 1 \<notin> set (directive_widths start_message)" "length start_message \<le> 1022"
  "\<forall>c \<in> set start_message. of_char c < (128 :: nat) \<and> c \<noteq> NUL"
proof -
  show "render start_message [] = Inr start_message" "- 1 \<notin> set (directive_widths start_message)" by code_simp+
  show "length start_message \<le> 1022" "\<forall>c \<in> set start_message. of_char c < (128 :: nat) \<and> c \<noteq> NUL"
    by (simp_all add: start_message_def NUL_def)
qed

text \<open>The screen is set up and shows the message.\<close>

lemma first_message:
  assumes "multiboot_framebuffer_info s \<noteq> 0" and "read_framebuffer (kmem (kern s)) (multiboot_framebuffer_info s) = fb" and "fb_type fb = 1"
    and "f = snd (fbcon_init fb (con s))" and "fbcon_ok fb f" and "0 < unat (fbcon_cx f)" and "0 < unat (fbcon_cy f)" and "uart_live (kcpu (kern s))"
    and "t = term_write (unat (fbcon_cx f)) (unat (fbcon_cy f)) start_message blank_terminal"
  obtains c m where "rbind (init_screen s) (\<lambda>s1. kprintf stack start_message [] s1) =
      Inr (set_mem m (set_cpu c s\<lparr>framebuffer_info := fb, con := cursor_at (t_x t) (t_y t) f\<rparr>))"
    and "c = (kcpu (kern s))\<lparr>port_reads := port_reads c, port_out := port_out (kcpu (kern s)) @ map (\<lambda>ch. (COM, of_char ch)) start_message\<rparr>"
    and "displays fb f m (t_cell t)" and "\<forall>p. \<not> in_fb fb p \<longrightarrow> m p = kmem (kern s) p"
proof -
  let ?s = "s\<lparr>framebuffer_info := fb, con := f\<rparr>"
  have i: "init_screen s = Inr ?s" using assms(1-4) by (simp add: init_screen_def framebuffer_init_def split: prod.splits)
  have f0: "fbcon_x f = of_nat (t_x blank_terminal)" "fbcon_y f = of_nat (t_y blank_terminal)"
    using assms(3,4) by (simp_all add: fbcon_init_def Let_def blank_terminal_def)
  have "uart_live (kcpu (kern ?s))" "fbcon_ok (framebuffer_info ?s) (con ?s)"
    "displays (framebuffer_info ?s) (con ?s) (kmem (kern ?s)) (t_cell blank_terminal)"
    "fbcon_x (con ?s) = of_nat (t_x blank_terminal)" "fbcon_y (con ?s) = of_nat (t_y blank_terminal)"
    "t_ok (unat (fbcon_cx (con ?s))) (unat (fbcon_cy (con ?s))) blank_terminal"
    "t = term_write (unat (fbcon_cx (con ?s))) (unat (fbcon_cy (con ?s))) start_message blank_terminal"
    using assms f0 displays_unknown by (simp_all add: blank_terminal_def t_ok_def)
  then obtain c m where "kprintf stack start_message [] ?s = Inr (set_mem m (set_cpu c ?s\<lparr>con := cursor_at (t_x t) (t_y t) (con ?s)\<rparr>))"
      "port_out c = port_out (kcpu (kern ?s)) @ map (\<lambda>ch. (COM, of_char ch)) start_message"
      "c = (kcpu (kern ?s))\<lparr>port_reads := port_reads c, port_out := port_out c\<rparr>"
      "displays (framebuffer_info ?s) (con ?s) m (t_cell t)" "\<forall>p. \<not> in_fb (framebuffer_info ?s) p \<longrightarrow> m p = kmem (kern ?s) p"
    by (rule kprintf_shown [OF start_message])
  moreover from this(1) have "rbind (init_screen s) (\<lambda>s1. kprintf stack start_message [] s1) =
      Inr (set_mem m (set_cpu c s\<lparr>framebuffer_info := fb, con := cursor_at (t_x t) (t_y t) f\<rparr>))"
    unfolding i by (simp, intro machine.equality) (simp_all add: set_cpu_def set_mem_def)
  ultimately show thesis by (intro that [of m c]) simp_all
qed

lemma uart_init_live: "uart_live (uart_init c) = uart_live c"
  by (simp add: uart_live_def tx_ready_def uart_init_def outb_def Let_def)

lemma init_gdt_output:
  "init_gdt ga ta ia g c = (g', c') \<Longrightarrow> uart_live c' = uart_live c \<and> port_out c' = port_out c"
  by (auto simp: init_gdt_def load_task_register_def Let_def uart_live_def tx_ready_def)

lemma memory_manager_ok:
  assumes "parsed m0 (multiboot_info_buffer im) (multiboot_mmap_info s) fp fb es"
    and "same_bytes 16384 (kmem (kern s)) (multiboot_info_buffer im) m0 (multiboot_info_buffer im)"
    and "init_memory (image_start im) (image_end im) es (kern s) = Inr (b, k)"
  shows "init_memory_manager im s = Inr (s\<lparr>boot := b, kern := k\<rparr>)"
  using assms by (simp add: init_memory_manager_def parsed_def or_panic_def)

text \<open>The machine in front of the first message.\<close>

lemma kmain_first_steps:
  assumes "length (idt s) = 256" and "multiboot_mmap_info s = 0" and "multiboot_framebuffer_info s = 0"
    and "loader_info (kmem (kern s)) info fb es" and "buffer_ok (kmem (kern s)) info (multiboot_info_buffer im)"
  obtains s2 c where "kmain im stack MULTIBOOT2_LOADER_MAGIC info s =
      rbind (rbind (init_screen s2) (\<lambda>s. kprintf stack start_message [] s)) (init_memory_manager im)"
    and "init_gdt (gdt_address im) (tss_address im) (ist1_address im) (gdts s) (uart_init (kcpu (kern s))) = (gdts s2, c)"
    and "kcpu (kern s2) = c\<lparr>idtr := (4095, idt_address im)\<rparr>"
    and "\<forall>v < 256. kernel_gate (isr_table im v) (if v \<in> {2, 8, 18} then 1 else 0) (idt s2 ! v)"
    and "con s2 = con s" and "interrupt_handlers s2 = interrupt_handlers s" and "kpmm (kern s2) = kpmm (kern s)"
    and "parsed (kmem (kern s2)) (multiboot_info_buffer im) (multiboot_mmap_info s2) (multiboot_framebuffer_info s2) fb es"
proof -
  let ?s0 = "set_cpu (uart_init (kcpu (kern s))) s"
  have s0: "length (idt ?s0) = 256" "gdts ?s0 = gdts s" "kcpu (kern ?s0) = uart_init (kcpu (kern s))" using assms(1) by (simp_all add: set_cpu_def)
  obtain g c d where p: "init_gdt (gdt_address im) (tss_address im) (ist1_address im) (gdts ?s0) (kcpu (kern ?s0)) = (g, c)"
      "\<forall>cont. init_processor im ?s0 cont = cont (set_cpu (c\<lparr>idtr := (4095, idt_address im)\<rparr>) (?s0\<lparr>gdts := g, idt := d\<rparr>))"
      "\<forall>v < 256. kernel_gate (isr_table im v) (if v \<in> {2, 8, 18} then 1 else 0) (d ! v)"
    by (rule init_processor_ok [OF s0(1), of im])
  define s1 where "s1 = set_cpu (c\<lparr>idtr := (4095, idt_address im)\<rparr>) (?s0\<lparr>gdts := g, idt := d\<rparr>)"
  have "loader_info (kmem (kern s1)) info fb es" "buffer_ok (kmem (kern s1)) info (multiboot_info_buffer im)"
    "multiboot_mmap_info s1 = 0" "multiboot_framebuffer_info s1 = 0"
    using assms(2-5) by (simp_all add: s1_def set_cpu_def)
  then obtain m mp fp where i: "\<forall>cont. init_information im info s1 cont = cont (set_mem m s1\<lparr>multiboot_mmap_info := mp, multiboot_framebuffer_info := fp\<rparr>)"
      "parsed m (multiboot_info_buffer im) mp fp fb es"
    by (rule init_information_ok)
  define s2 where "s2 = set_mem m s1\<lparr>multiboot_mmap_info := mp, multiboot_framebuffer_info := fp\<rparr>"
  have s2: "kcpu (kern s2) = c\<lparr>idtr := (4095, idt_address im)\<rparr>" "kmem (kern s2) = m" "con s2 = con s" "interrupt_handlers s2 = interrupt_handlers s" "kpmm (kern s2) = kpmm (kern s)"
    "multiboot_framebuffer_info s2 = fp" "multiboot_mmap_info s2 = mp" "gdts s2 = g" "idt s2 = d"
    by (simp_all add: s2_def s1_def set_cpu_def set_mem_def)
  have "kmain im stack MULTIBOOT2_LOADER_MAGIC info s =
      rbind (rbind (init_screen s2) (\<lambda>s. kprintf stack start_message [] s)) (init_memory_manager im)"
    unfolding kmain_def Let_def validate_multiboot_def start_message_def [symmetric]
    by (cases "init_screen s2") (simp_all add: or_panic_def p(2) s1_def [symmetric] i(1) s2_def [symmetric])
  then show thesis by (rule that) (use p(1,3) i(2) s0 in \<open>simp_all add: s2\<close>)
qed

section \<open>A sample start\<close>

text \<open>At \<open>0x9000\<close>: a framebuffer tag, a memory map tag with one region of 3 MiB at 1 MiB, the end tag.\<close>

definition demo_boot_bytes :: "u8 list" where
  "demo_boot_bytes =
     [96, 0, 0, 0, 0, 0, 0, 0,
      8, 0, 0, 0, 38, 0, 0, 0, 0, 0, 0, 0xFD, 0, 0, 0, 0, 64, 0, 0, 0, 16, 0, 0, 0, 16, 0, 0, 0, 32, 1, 0, 0, 16, 8, 8, 8, 0, 8, 0, 0,
      6, 0, 0, 0, 40, 0, 0, 0, 24, 0, 0, 0, 0, 0, 0, 0,
      0, 0, 0x10, 0, 0, 0, 0, 0, 0, 0, 0x30, 0, 0, 0, 0, 0, 1, 0, 0, 0, 0, 0, 0, 0,
      0, 0, 0, 0, 8, 0, 0, 0]"

definition demo_boot :: mem where
  "demo_boot a = (if 0x9000 \<le> a \<and> a < 0x9060 then demo_boot_bytes ! unat (a - 0x9000) else 0)"

definition demo_region :: multiboot2_mmap_entry where
  "demo_region = \<lparr>e_addr = 0x100000, e_len = 0x300000, e_type = 1, e_reserved = 0\<rparr>"

lemma demo_boot_loads:
  "total_size (read_info demo_boot 0x9000) = 96" "tags_at demo_boot 0x9000 8 [(8, 38), (6, 40)]" "read_framebuffer demo_boot 0x9008 = demo_fb"
  "entry_size (read_mmap demo_boot 0x9030) = 24" "tag_size (mmap_header (read_mmap demo_boot 0x9030)) = 40"
  "mmap_entries demo_boot 0x9030 1 = [demo_region]"
  by code_simp+

lemma demo_boot_info: "loader_info demo_boot 0x9000 demo_fb [demo_region]"
proof -
  have "last_tag MULTIBOOT2_TAG_FRAMEBUFFER_INFORMATION 8 [(8, 38), (6, 40)] None = Some 8"
    "last_tag MULTIBOOT2_TAG_MEMORY_MAP 8 [(8, 38), (6, 40)] None = Some 48" "tags_span [(8, 38), (6, 40)] = 80"
    by code_simp+
  then show ?thesis
    unfolding loader_info_def using demo_boot_loads
    by (intro conjI exI [of _ "[(8, 38), (6, 40)]"] exI [of _ 8] exI [of _ 48]) simp_all
qed

definition demo_image :: image where
  "demo_image = \<lparr>image_start = 0x100000, image_end = 0x110000, gdt_address = 0xFFFFFFFF80010000, tss_address = 0xFFFFFFFF80011000,
     ist1_address = 0xFFFFFFFF80012000, idt_address = 0xFFFFFFFF80013000, isr_table = (\<lambda>v. 0xFFFFFFFF80001000 + 16 * of_nat v),
     multiboot_info_buffer = 0xFFFFFFFF80100000\<rparr>"

definition demo_start :: machine where
  "demo_start = demo_machine\<lparr>kern := demo_kernel\<lparr>kmem := demo_boot, kpmm := blank_pmm 0\<rparr>\<rparr>"

lemma demo_buffer_apart: "i < 16384 \<Longrightarrow> \<not> in_fb demo_fb (0xFFFFFFFF80100000 + of_nat i)"
proof -
  assume i: "i < 16384"
  have "unat (0xFFFFFFFE83100000 + of_nat i :: u64) = 0xFFFFFFFE83100000 + i" using i by (subst unat_add_nowrap) (simp_all add: unat_of_nat_small)
  moreover have "0xFFFFFFFF80100000 + of_nat i - 0xFD000000 = (0xFFFFFFFE83100000 + of_nat i :: u64)" by simp
  ultimately show ?thesis by (simp add: in_fb_def demo_fb_def fb_h_def)
qed

lemma demo_region_ok:
  "map_ok [demo_region]" "longest_region [demo_region] = (0x300000, 0x100000, 0x400000)" "highest_limit [demo_region] = 0x400000"
  "boot_region 0x100000 0x110000 [demo_region] = (0x110000, 0x400000)" "usable demo_region" "has_image 0x100000 0x110000 demo_region"
proof -
  show l: "longest_region [demo_region] = (0x300000, 0x100000, 0x400000)" by (simp add: longest_region_def demo_region_def)
  show "boot_region 0x100000 0x110000 [demo_region] = (0x110000, 0x400000)"
    by (simp add: boot_region_def l ALIGN_UP_def align_up_mask_def PAGE_SIZE_def)
qed (simp_all add: map_ok_def highest_limit_def demo_region_def usable_def has_image_def e_begin_def e_limit_def)

text \<open>What the screen shows after the first message.\<close>

definition start_screen :: "fbcon \<Rightarrow> terminal" where
  "start_screen f = term_write (unat (fbcon_cx f)) (unat (fbcon_cy f)) start_message blank_terminal"

text \<open>
  A start that can succeed: a live serial port; a boot structure with a framebuffer tag and a memory map that fits the kernel's buffer; a console
  that fits the framebuffer, which lies apart from that buffer; a memory map in order, one of whose usable regions holds the kernel image; room for the
  frame array behind the image; and a frame allocator not yet used.
\<close>

definition start_ok :: "image \<Rightarrow> u64 \<Rightarrow> machine \<Rightarrow> multiboot2_tag_framebuffer \<Rightarrow> fbcon \<Rightarrow> multiboot2_mmap_entry list \<Rightarrow> bool" where
  "start_ok im info s fb f es \<longleftrightarrow>
     uart_live (kcpu (kern s)) \<and>
     length (idt s) = 256 \<and>
     multiboot_mmap_info s = 0 \<and>
     multiboot_framebuffer_info s = 0 \<and>
     loader_info (kmem (kern s)) info fb es \<and>
     buffer_ok (kmem (kern s)) info (multiboot_info_buffer im) \<and>
     fb_type fb = 1 \<and>
     f = snd (fbcon_init fb (con s)) \<and> fbcon_ok fb f \<and> 0 < unat (fbcon_cx f) \<and> 0 < unat (fbcon_cy f) \<and> (\<forall>i < 16384. \<not> in_fb fb (multiboot_info_buffer im + of_nat i)) \<and>
     map_ok es \<and> unat (image_start im) \<le> unat (image_end im) \<and>
     (\<exists>e0 bb bl. e0 \<in> set es \<and> usable e0 \<and> has_image (unat (image_start im)) (unat (image_end im)) e0 \<and>
        fst (longest_region es) \<noteq> 0 \<and> boot_region (image_start im) (image_end im) es = (bb, bl) \<and> unat bb + 15 + 16 * (unat (highest_limit es) div 4096) < unat bl) \<and>
     (\<forall>k. 0 \<le> k \<longrightarrow> mm_free_region (kpmm (kern s)) k = None)"

text \<open>At least a page is left behind the frame array.\<close>

definition spare_page :: "image \<Rightarrow> multiboot2_mmap_entry list \<Rightarrow> bool" where
  "spare_page im es \<longleftrightarrow> (case boot_region (image_start im) (image_end im) es of
     (bb, bl) \<Rightarrow> unat bb + 8206 + 16 * (unat (highest_limit es) div 4096) \<le> unat bl)"

text \<open>The machine after the first message.\<close>

lemma kmain_message:
  assumes "start_ok im info s fb f es"
  obtains s3 c m0 where "kmain im stack MULTIBOOT2_LOADER_MAGIC info s = init_memory_manager im s3"
    and "init_gdt (gdt_address im) (tss_address im) (ist1_address im) (gdts s) (uart_init (kcpu (kern s))) = (gdts s3, c)"
    and "kcpu (kern s3) = c\<lparr>idtr := (4095, idt_address im), port_reads := port_reads (kcpu (kern s3)),
      port_out := port_out (uart_init (kcpu (kern s))) @ map (\<lambda>ch. (COM, of_char ch)) start_message\<rparr>"
    and "\<forall>v < 256. kernel_gate (isr_table im v) (if v \<in> {2, 8, 18} then 1 else 0) (idt s3 ! v)"
    and "framebuffer_info s3 = fb" and "con s3 = cursor_at (t_x (start_screen f)) (t_y (start_screen f)) f"
    and "displays fb f (kmem (kern s3)) (t_cell (start_screen f))" and "interrupt_handlers s3 = interrupt_handlers s" and "uart_live (kcpu (kern s3))"
    and "kpmm (kern s3) = kpmm (kern s)" and "parsed m0 (multiboot_info_buffer im) (multiboot_mmap_info s3) (multiboot_framebuffer_info s3) fb es"
    and "same_bytes 16384 (kmem (kern s3)) (multiboot_info_buffer im) m0 (multiboot_info_buffer im)"
proof -
  obtain e0 bb bl where A: "uart_live (kcpu (kern s))" "length (idt s) = 256" "multiboot_mmap_info s = 0" "multiboot_framebuffer_info s = 0" "loader_info (kmem (kern s)) info fb es" "buffer_ok (kmem (kern s)) info (multiboot_info_buffer im)"
    "fb_type fb = 1" "f = snd (fbcon_init fb (con s))" "fbcon_ok fb f" "0 < unat (fbcon_cx f)" "0 < unat (fbcon_cy f)" "(\<forall>i < 16384. \<not> in_fb fb (multiboot_info_buffer im + of_nat i))"
    "map_ok es" "unat (image_start im) \<le> unat (image_end im)" "e0 \<in> set es" "usable e0" "has_image (unat (image_start im)) (unat (image_end im)) e0"
    "fst (longest_region es) \<noteq> 0" "boot_region (image_start im) (image_end im) es = (bb, bl)" "unat bb + 15 + 16 * (unat (highest_limit es) div 4096) < unat bl" "(\<forall>k. 0 \<le> k \<longrightarrow> mm_free_region (kpmm (kern s)) k = None)"
    using assms unfolding start_ok_def by blast
  let ?B = "multiboot_info_buffer im"
  define t where "t = start_screen f"
  obtain s2 c where s2: "kmain im stack MULTIBOOT2_LOADER_MAGIC info s =
      rbind (rbind (init_screen s2) (\<lambda>s. kprintf stack start_message [] s)) (init_memory_manager im)"
    "init_gdt (gdt_address im) (tss_address im) (ist1_address im) (gdts s) (uart_init (kcpu (kern s))) = (gdts s2, c)"
    "kcpu (kern s2) = c\<lparr>idtr := (4095, idt_address im)\<rparr>"
    "\<forall>v < 256. kernel_gate (isr_table im v) (if v \<in> {2, 8, 18} then 1 else 0) (idt s2 ! v)"
    "con s2 = con s" "interrupt_handlers s2 = interrupt_handlers s" "kpmm (kern s2) = kpmm (kern s)"
    "parsed (kmem (kern s2)) ?B (multiboot_mmap_info s2) (multiboot_framebuffer_info s2) fb es"
    by (rule kmain_first_steps [OF A(2-6)])
  have o2: "uart_live (kcpu (kern s2))" "port_out (kcpu (kern s2)) = port_out (uart_init (kcpu (kern s)))"
    using init_gdt_output [OF s2(2)] A(1) uart_init_live [of "kcpu (kern s)"] unfolding s2(3)
    by (simp_all add: uart_live_def tx_ready_def)
  have n2: "multiboot_framebuffer_info s2 \<noteq> 0" "read_framebuffer (kmem (kern s2)) (multiboot_framebuffer_info s2) = fb" "f = snd (fbcon_init fb (con s2))"
    using s2(5,8) A(8) by (simp_all add: parsed_def)
  obtain c3 m3 where k: "rbind (init_screen s2) (\<lambda>s. kprintf stack start_message [] s) =
      Inr (set_mem m3 (set_cpu c3 s2\<lparr>framebuffer_info := fb, con := cursor_at (t_x t) (t_y t) f\<rparr>))" (is "_ = Inr ?s3")
    "c3 = (kcpu (kern s2))\<lparr>port_reads := port_reads c3, port_out := port_out (kcpu (kern s2)) @ map (\<lambda>ch. (COM, of_char ch)) start_message\<rparr>"
    "displays fb f m3 (t_cell t)" "\<forall>p. \<not> in_fb fb p \<longrightarrow> m3 p = kmem (kern s2) p"
    by (rule first_message [OF n2(1,2) A(7) n2(3) A(9-11) o2(1) t_def [unfolded start_screen_def]])
  define s3 where "s3 = ?s3"
  have s3: "kcpu (kern s3) = c3" "kmem (kern s3) = m3" "multiboot_mmap_info s3 = multiboot_mmap_info s2" "gdts s3 = gdts s2" "idt s3 = idt s2"
    "multiboot_framebuffer_info s3 = multiboot_framebuffer_info s2" "framebuffer_info s3 = fb" "kpmm (kern s3) = kpmm (kern s)" "interrupt_handlers s3 = interrupt_handlers s" "con s3 = cursor_at (t_x t) (t_y t) f"
    using s2(6,7) by (simp_all add: s3_def set_cpu_def set_mem_def)
  have S: "same_bytes 16384 (kmem (kern s3)) ?B (kmem (kern s2)) ?B" using k(4) A(12) by (simp add: same_bytes_def s3)
  show thesis
  proof (rule that [of s3 c "kmem (kern s2)"])
    show "kmain im stack MULTIBOOT2_LOADER_MAGIC info s = init_memory_manager im s3" unfolding s2(1) k(1) by (simp add: s3_def [symmetric])
    show "uart_live (kcpu (kern s3))" unfolding s3(1) using o2(1) by (subst k(2)) (simp add: uart_live_def tx_ready_def)
    show "kcpu (kern s3) = c\<lparr>idtr := (4095, idt_address im), port_reads := port_reads (kcpu (kern s3)),
      port_out := port_out (uart_init (kcpu (kern s))) @ map (\<lambda>ch. (COM, of_char ch)) start_message\<rparr>"
      using k(2) s2(3) o2(2) by (simp add: s3)
  qed (use s2(2,4) k(3) S s2(8) in \<open>simp_all add: s3 t_def\<close>)
qed

text \<open>The start of the whole kernel.\<close>

lemma kmain_started:
  assumes "start_ok im info s fb f es"
  shows "\<exists>s' c r. kmain im stack MULTIBOOT2_LOADER_MAGIC info s = Inr s' \<and>
    init_gdt (gdt_address im) (tss_address im) (ist1_address im) (gdts s) (uart_init (kcpu (kern s))) = (gdts s', c) \<and>
    kcpu (kern s') = c\<lparr>idtr := (4095, idt_address im), port_reads := r,
      port_out := port_out (uart_init (kcpu (kern s))) @ map (\<lambda>ch. (COM, of_char ch)) start_message\<rparr> \<and>
    (\<forall>v < 256. kernel_gate (isr_table im v) (if v \<in> {2, 8, 18} then 1 else 0) (idt s' ! v)) \<and>
    framebuffer_info s' = fb \<and> con s' = cursor_at (t_x (start_screen f)) (t_y (start_screen f)) f \<and>
    displays fb f (kmem (kern s')) (t_cell (start_screen f)) \<and>
    interrupt_handlers s' = interrupt_handlers s \<and> uart_live (kcpu (kern s')) \<and> (spare_page im es \<longrightarrow> cover (free_blocks (kpmm (kern s'))) \<noteq> {}) \<and>
    pmm_inv (kpmm (kern s')) \<and> alloc_blocks (kpmm (kern s')) = {} \<and> mm_frames_count (kpmm (kern s')) = unat (highest_limit es) div 4096"
proof -
  obtain e0 bb bl where A: "map_ok es" "unat (image_start im) \<le> unat (image_end im)" "e0 \<in> set es" "usable e0"
    "has_image (unat (image_start im)) (unat (image_end im)) e0" "fst (longest_region es) \<noteq> 0" "boot_region (image_start im) (image_end im) es = (bb, bl)"
    "unat bb + 15 + 16 * (unat (highest_limit es) div 4096) < unat bl" "\<forall>k. 0 \<le> k \<longrightarrow> mm_free_region (kpmm (kern s)) k = None"
    using assms unfolding start_ok_def by blast
  obtain s3 c m0 where s3: "kmain im stack MULTIBOOT2_LOADER_MAGIC info s = init_memory_manager im s3"
    "init_gdt (gdt_address im) (tss_address im) (ist1_address im) (gdts s) (uart_init (kcpu (kern s))) = (gdts s3, c)"
    "kcpu (kern s3) = c\<lparr>idtr := (4095, idt_address im), port_reads := port_reads (kcpu (kern s3)),
      port_out := port_out (uart_init (kcpu (kern s))) @ map (\<lambda>ch. (COM, of_char ch)) start_message\<rparr>"
    "\<forall>v < 256. kernel_gate (isr_table im v) (if v \<in> {2, 8, 18} then 1 else 0) (idt s3 ! v)"
    "framebuffer_info s3 = fb" "con s3 = cursor_at (t_x (start_screen f)) (t_y (start_screen f)) f"
    "displays fb f (kmem (kern s3)) (t_cell (start_screen f))" "interrupt_handlers s3 = interrupt_handlers s" "uart_live (kcpu (kern s3))"
    "kpmm (kern s3) = kpmm (kern s)" "parsed m0 (multiboot_info_buffer im) (multiboot_mmap_info s3) (multiboot_framebuffer_info s3) fb es"
      "same_bytes 16384 (kmem (kern s3)) (multiboot_info_buffer im) m0 (multiboot_info_buffer im)"
    by (rule kmain_message [OF assms])
  have "\<forall>k. 0 \<le> k \<longrightarrow> mm_free_region (kpmm (kern s3)) k = None" using A(9) unfolding s3(10) .
  then obtain b pm where mm: "init_memory (image_start im) (image_end im) es (kern s3) = Inr (b, kern s3\<lparr>kpmm := pm\<rparr>)"
      "pmm_inv pm" "alloc_blocks pm = {}" "mm_frames_count pm = unat (highest_limit es) div 4096"
      "unat bb + 8206 + 16 * (unat (highest_limit es) div 4096) \<le> unat bl \<Longrightarrow> cover (free_blocks pm) \<noteq> {}"
    by (rule init_memory_ok [OF A(1-8)]) blast
  have "init_memory_manager im s3 = Inr (s3\<lparr>boot := b, kern := kern s3\<lparr>kpmm := pm\<rparr>\<rparr>)" (is "_ = Inr ?s'")
    by (rule memory_manager_ok [OF s3(11,12) mm(1)])
  moreover have "spare_page im es \<longrightarrow> cover (free_blocks (kpmm (kern ?s'))) \<noteq> {}" using mm(5) by (simp add: spare_page_def A(7))
  ultimately show ?thesis
    using s3(1-9) mm(2-4) by (intro exI [of _ ?s'] exI [of _ c] exI [of _ "port_reads (kcpu (kern s3))"]) simp
qed

section \<open>Properties of kmain\<close>

text \<open>C11. Start-up succeeds: from every state in which it can (\<open>start_ok\<close>), \<open>kmain\<close> reaches its idle loop. The processor then has the descriptor tables of \<open>init_gdt\<close> and
  a gate for every vector, the serial port has received the first message and the screen shows it, and the frame allocator is well formed, with nothing
  allocated and a frame for every page below the end of the highest usable region.\<close>

theorem kmain_correct:
  assumes "start_ok im info s fb f es"
  shows "\<exists>s' c r. kmain im stack MULTIBOOT2_LOADER_MAGIC info s = Inr s' \<and>
    init_gdt (gdt_address im) (tss_address im) (ist1_address im) (gdts s) (uart_init (kcpu (kern s))) = (gdts s', c) \<and>
    kcpu (kern s') = c\<lparr>idtr := (4095, idt_address im), port_reads := r,
      port_out := port_out (uart_init (kcpu (kern s))) @ map (\<lambda>ch. (COM, of_char ch)) start_message\<rparr> \<and>
    (\<forall>v < 256. kernel_gate (isr_table im v) (if v \<in> {2, 8, 18} then 1 else 0) (idt s' ! v)) \<and>
    framebuffer_info s' = fb \<and>
    displays fb f (kmem (kern s')) (t_cell (start_screen f)) \<and>
    pmm_inv (kpmm (kern s')) \<and> alloc_blocks (kpmm (kern s')) = {} \<and> mm_frames_count (kpmm (kern s')) = unat (highest_limit es) div 4096"
  using kmain_started [OF assms, of stack] by blast

lemma demo_start_ok: "start_ok demo_image 0x9000 demo_start demo_fb demo_con [demo_region]"
proof -
  have s: "kcpu (kern demo_start) = demo_cpu" "kmem (kern demo_start) = demo_boot" "kpmm (kern demo_start) = blank_pmm 0" "con demo_start = demo_con"
    "multiboot_mmap_info demo_start = 0" "multiboot_framebuffer_info demo_start = 0" "length (idt demo_start) = 256"
    by (simp_all add: demo_start_def demo_machine_def demo_kernel_def)
  have f: "demo_con = snd (fbcon_init demo_fb (con demo_start))" unfolding s(4)
    by (simp add: demo_con_eq fbcon_init_def demo_fb_def)
  have b: "buffer_ok (kmem (kern demo_start)) 0x9000 (multiboot_info_buffer demo_image)"
    unfolding s(2) buffer_ok_def demo_boot_loads(1) by (simp add: demo_image_def)
  have im: "image_start demo_image = 0x100000" "image_end demo_image = 0x110000" by (simp_all add: demo_image_def)
  have live: "uart_live (kcpu (kern demo_start))" using demo_machine_live by (simp add: s demo_kernel_def)
  show ?thesis
    unfolding start_ok_def using live s(7,5,6) b f demo_con_ok demo_boot_info demo_region_ok demo_buffer_apart
    by (auto simp: s im demo_con_eq demo_fb_def blank_pmm_def demo_image_def)
qed

theorem kmain_correct_witness:
  "\<exists>s'. kmain demo_image (\<lambda>_. NUL) MULTIBOOT2_LOADER_MAGIC 0x9000 demo_start = Inr s' \<and> pmm_inv (kpmm (kern s')) \<and>
    mm_frames_count (kpmm (kern s')) = 1024 \<and> idtr (kcpu (kern s')) = (4095, 0xFFFFFFFF80013000)"
proof -
  from kmain_correct [OF demo_start_ok, of "\<lambda>_. NUL"]
  obtain s' c r where "kmain demo_image (\<lambda>_. NUL) MULTIBOOT2_LOADER_MAGIC 0x9000 demo_start = Inr s'" "pmm_inv (kpmm (kern s'))"
    "mm_frames_count (kpmm (kern s')) = unat (highest_limit [demo_region]) div 4096" "kcpu (kern s') = c\<lparr>idtr := (4095, idt_address demo_image), port_reads := r,
      port_out := port_out (uart_init (kcpu (kern demo_start))) @ map (\<lambda>ch. (COM, of_char ch)) start_message\<rparr>" by blast
  moreover have "unat (highest_limit [demo_region]) div 4096 = 1024" using demo_region_ok by simp
  ultimately show ?thesis by (intro exI [of _ s']) (simp add: demo_image_def)
qed

text \<open>C29. Refused starts: with a live serial port, before any panic and with the console not selected for panics, \<open>kmain\<close> called with another magic number than the loader's, or with a boot structure of 16384 bytes or
  more, reports the reason on the serial port and halts the processor with interrupts disabled; memory is unchanged.\<close>

theorem kmain_refuses:
  assumes "uart_live (kcpu (kern s))" and "\<not> in_panic s" and "\<not> panic_use_fbcon s" and "length (idt s) = 256"
    and "refused = (if magic \<noteq> MULTIBOOT2_LOADER_MAGIC then ''FYNAOS must be loaded by GRUB.'' @ [CHR 0x0A] else ''Bootloader information is too big.'')"
    and "magic = MULTIBOOT2_LOADER_MAGIC \<longrightarrow> 16384 \<le> info_size (kmem (kern s)) info"
  shows "\<exists>s'. kmain im stack magic info s = Inr s' \<and> in_panic s' \<and> \<not> interrupts_enabled (kcpu (kern s')) \<and> kmem (kern s') = kmem (kern s) \<and>
    port_out (kcpu (kern s')) = port_out (uart_init (kcpu (kern s))) @ map (\<lambda>ch. (COM, of_char ch)) (''kernel panic: '' @ refused @ [CHR 0x0A])"
proof -
  have r: "render refused [] = Inr refused \<and> - 1 \<notin> set (directive_widths refused) \<and> length refused \<le> 1022 \<and> NUL \<notin> set refused"
  proof (cases "magic = MULTIBOOT2_LOADER_MAGIC")
    case True then show ?thesis unfolding assms(5) by simp code_simp
  next
    case False then show ?thesis unfolding assms(5) by simp code_simp
  qed
  have p: "\<exists>s'. panic refused [] s0 = Inr s' \<and> in_panic s' \<and> \<not> interrupts_enabled (kcpu (kern s')) \<and> kmem (kern s') = kmem (kern s) \<and>
      port_out (kcpu (kern s')) = port_out (uart_init (kcpu (kern s))) @ map (\<lambda>ch. (COM, of_char ch)) (''kernel panic: '' @ refused @ [CHR 0x0A])"
    if "uart_live (kcpu (kern s0))" "\<not> in_panic s0" "\<not> panic_use_fbcon s0" "kmem (kern s0) = kmem (kern s)"
      "port_out (kcpu (kern s0)) = port_out (uart_init (kcpu (kern s)))" for s0
    using vpanic_first [OF that(1-3)] r that(4,5) by (metis panic_def)
  let ?s0 = "set_cpu (uart_init (kcpu (kern s))) s"
  show ?thesis
  proof (cases "magic = MULTIBOOT2_LOADER_MAGIC")
    case False
    have "kmain im stack magic info s = panic refused [] ?s0"
      using False assms(5) by (simp add: kmain_def validate_multiboot_def or_panic_def)
    with p [of ?s0] assms(1-3) show ?thesis by (simp add: uart_init_live)
  next
    case True
    have s0: "length (idt ?s0) = 256" using assms(4) by (simp add: set_cpu_def)
    obtain g c d where i: "init_gdt (gdt_address im) (tss_address im) (ist1_address im) (gdts ?s0) (kcpu (kern ?s0)) = (g, c)"
      "\<forall>cont. init_processor im ?s0 cont = cont (set_cpu (c\<lparr>idtr := (4095, idt_address im)\<rparr>) (?s0\<lparr>gdts := g, idt := d\<rparr>))"
      "\<forall>v < 256. kernel_gate (isr_table im v) (if v \<in> {2, 8, 18} then 1 else 0) (d ! v)"
      by (rule init_processor_ok [OF s0, of im])
    let ?s1 = "set_cpu (c\<lparr>idtr := (4095, idt_address im)\<rparr>) (?s0\<lparr>gdts := g, idt := d\<rparr>)"
    have m: "kmem (kern ?s1) = kmem (kern s)" "in_panic ?s1 = in_panic s" "panic_use_fbcon ?s1 = panic_use_fbcon s" by (simp_all add: set_cpu_def)
    have "copy_multiboot_info (multiboot_info_buffer im) info (kmem (kern ?s1)) = Inl (Panic refused)"
      using True assms(5,6) unfolding m(1) by (simp add: copy_multiboot_info_def info_too_big)
    then have "kmain im stack magic info s = panic refused [] ?s1"
      using True i(2) by (simp add: kmain_def validate_multiboot_def or_panic_def init_information_def)
    moreover have "uart_live (kcpu (kern ?s1))" "port_out (kcpu (kern ?s1)) = port_out (uart_init (kcpu (kern s)))"
      using init_gdt_output [OF i(1)] assms(1) uart_init_live [of "kcpu (kern s)"] by (simp_all add: uart_live_def tx_ready_def)
    ultimately show ?thesis using p [of ?s1] assms(2,3) m by simp
  qed
qed

theorem kmain_refuses_witness:
  "\<exists>s'. kmain demo_image (\<lambda>_. NUL) 0x2BADB002 0x9000 demo_start = Inr s' \<and> in_panic s' \<and> \<not> interrupts_enabled (kcpu (kern s'))"
proof -
  have live: "uart_live (kcpu (kern demo_start))" using demo_machine_live by (simp add: demo_start_def demo_kernel_def)
  have "\<not> in_panic demo_start" "\<not> panic_use_fbcon demo_start" "length (idt demo_start) = 256" by (simp_all add: demo_start_def demo_machine_def)
  from kmain_refuses [OF live this refl, of "0x2BADB002" "0x9000" demo_image "\<lambda>_. NUL"] show ?thesis by (auto simp: MULTIBOOT2_LOADER_MAGIC_def)
qed

end
