(* ===== verification/Kernel_Start.thy ===== *)
theory Kernel_Start
  imports Kernel_Run Kmain_Spec
begin

text \<open>
  From the boot loader to the running kernel: the state \<open>kmain\<close> ends in, once \<open>init_pool\<close> has made the first pool, is one from which every run
  of calls is in order.
\<close>

text \<open>The view right after start-up: no handlers, the first message on the screen and on the serial port.\<close>

definition start_view :: "fbcon \<Rightarrow> (u16 \<times> u8) list \<Rightarrow> view" where
  "start_view f out = \<lparr>registered = (\<lambda>_. []), shown = start_screen f, cols = unat (fbcon_cx f), rows = unat (fbcon_cy f),
     received = out @ map (\<lambda>ch. (COM, of_char ch)) start_message\<rparr>"

lemma init_pool_low:
  assumes "init_pool s = Inr (True, s')" and "kpool s' ps" and "unat x < 2 ^ 64 - 2 ^ 47"
  shows "kmem s' x = kmem s x"
proof -
  obtain page pm where al: "alloc_frames 0 (kpmm s) = Inr (page, pm)" "page \<noteq> INVALID_ADDRESS"
    using assms(1) by (auto simp: init_pool_def split: if_splits elim!: rbind_InrE)
  then have s': "s' = s\<lparr>kpmm := pm, pools := phys_to_virt page, pool_tail := phys_to_virt page,
      kmem := init_single_pool (phys_to_virt page) PAGE_SIZE (zeroed_page (kmem s) page)\<rparr>"
    using assms(1) by (auto simp: init_pool_def Let_def dest!: zero_page_Inr elim!: rbind_InrE)
  have "pool_frame s' (pools s')" using assms(2) by (auto simp: kpool_def pool_ok_def hd_in_set)
  then have "4096 \<le> unat (x - phys_to_virt page)" using pool_page_high [OF _ assms(3)] by (simp add: s')
  then show ?thesis by (simp add: s' init_single_pool_byte zero_page_byte)
qed

lemma handlers_start:
  assumes "kpool (kern s) ps" and "interrupt_handlers s = replicate 256 0"
  shows "handlers_ok s ps (\<lambda>_. [])"
  using assms by (simp add: handlers_ok_def)

section \<open>Property\<close>

text \<open>C5. From boot to a running kernel: from every state in which start-up can succeed, with no handlers registered, a framebuffer below the direct map and
  a page of memory to spare, \<open>kmain\<close> returns to its idle loop and \<open>init_pool\<close> then succeeds; the result is in order, with the first message on the screen and
  on the serial port and no handlers; and every state that allowed calls reach from it is in order for its view.\<close>

theorem kernel_starts_in_order:
  assumes "start_ok im info s fb f es" and "spare_page im es" and "interrupt_handlers s = replicate 256 0"
    and "unat (fb_addr fb) + unat (fb_pitch fb) * fb_h fb \<le> 2 ^ 64 - 2 ^ 47"
    and w: "w = start_view f (port_out (uart_init (kcpu (kern s))))"
  shows "\<exists>s1 k Q. kmain im stack MULTIBOOT2_LOADER_MAGIC info s = Inr s1 \<and> init_pool (kern s1) = Inr (True, k) \<and>
    in_order (s1\<lparr>kern := k\<rparr>) [(Q, [(4072, False)])] (\<lambda>_. []) w \<and>
    (\<forall>s2 w2. run_step\<^sup>*\<^sup>* (s1\<lparr>kern := k\<rparr>, w) (s2, w2) \<longrightarrow> (\<exists>ps hl. in_order s2 ps hl w2))"
proof -
  obtain s1 c r where s1: "kmain im stack MULTIBOOT2_LOADER_MAGIC info s = Inr s1"
      "kcpu (kern s1) = c\<lparr>idtr := (4095, idt_address im), port_reads := r,
        port_out := port_out (uart_init (kcpu (kern s))) @ map (\<lambda>ch. (COM, of_char ch)) start_message\<rparr>"
      "framebuffer_info s1 = fb" "con s1 = cursor_at (t_x (start_screen f)) (t_y (start_screen f)) f"
      "displays fb f (kmem (kern s1)) (t_cell (start_screen f))" "interrupt_handlers s1 = interrupt_handlers s" "uart_live (kcpu (kern s1))"
      "cover (free_blocks (kpmm (kern s1))) \<noteq> {}" "pmm_inv (kpmm (kern s1))" "mm_frames_count (kpmm (kern s1)) = unat (highest_limit es) div 4096"
    using kmain_started [OF assms(1), of stack] assms(2) by blast
  have "map_ok es" and fb: "fbcon_ok fb f" "0 < unat (fbcon_cx f)" "0 < unat (fbcon_cy f)" using assms(1) unfolding start_ok_def by blast+
  then have "mm_frames_count (kpmm (kern s1)) \<le> 2 ^ 35" using highest_limit_bounds(2) [of es] div_le_mono [of _ "2 ^ 47" 4096] s1(10) by simp
  from init_pool_ok [OF s1(9) this] s1(8) obtain k Q where k: "init_pool (kern s1) = Inr (True, k)" "kpool k [(Q, [(4072, False)])]" "kcpu k = kcpu (kern s1)"
    by (auto simp: avail_frames_def)
  define s2 where "s2 = s1\<lparr>kern := k\<rparr>"
  have "displays fb f (kmem k) (t_cell (start_screen f))"
    by (rule displays_cong [OF fb(1) s1(5)], rule init_pool_low [OF k(1,2)], rule fb_low [OF assms(4)])
  moreover have "t_ok (unat (fbcon_cx f)) (unat (fbcon_cy f)) (start_screen f)"
    unfolding start_screen_def using fb by (intro term_write_ok) (simp add: t_ok_def blank_terminal_def)
  ultimately have "output_ok s2 w"
    using s1(2-4,7) fb(1) assms(4) k(3) by (simp add: output_ok_def s2_def w start_view_def)
  then have I: "in_order s2 [(Q, [(4072, False)])] (\<lambda>_. []) w"
    using handlers_start [of s2] k(2) s1(6) assms(3) by (simp add: in_order_def s2_def w start_view_def)
  then have "run_ok (s2, w)" by (auto simp: run_ok_def)
  then have "\<exists>ps hl. in_order s3 ps hl w3" if "run_step\<^sup>*\<^sup>* (s2, w) (s3, w3)" for s3 w3
    using running.run_inv [OF that] by (simp add: run_ok_def)
  then show ?thesis using s1(1) k(1) I unfolding s2_def by blast
qed

theorem kernel_starts_in_order_witness:
  "\<exists>s1 k ps w. kmain demo_image (\<lambda>_. NUL) MULTIBOOT2_LOADER_MAGIC 0x9000 demo_start = Inr s1 \<and> init_pool (kern s1) = Inr (True, k) \<and>
    in_order (s1\<lparr>kern := k\<rparr>) ps (\<lambda>_. []) w"
proof -
  have "spare_page demo_image [demo_region]"
    using demo_region_ok by (simp add: spare_page_def demo_image_def)
  moreover have "interrupt_handlers demo_start = replicate 256 0" by (simp add: demo_start_def demo_machine_def)
  moreover have "unat (fb_addr demo_fb) + unat (fb_pitch demo_fb) * fb_h demo_fb \<le> 2 ^ 64 - 2 ^ 47" by (simp add: demo_fb_def fb_h_def)
  ultimately show ?thesis using kernel_starts_in_order [OF demo_start_ok _ _ _ refl, of "\<lambda>_. NUL"] by blast
qed

end
