(* ===== verification/Spec2Isabelle.thy ===== *)
theory Spec2Isabelle
  imports Errno Pmm_Spec Pool_Heap Vmm_Space Boot_Entry Entry_Stubs Context Snprintf_Types Uart Gdt Idt Fbcon_Spec Init_Memory_Spec
    Multiboot_Spec Console_Spec Interrupt_Spec Interrupt_Path Kernel_Run Kmain_Spec Kernel_Start
begin

text \<open>
  \<^bold>\<open>FYNAOS\<close>, a small kernel for x86-64, and its verification.

  \<^bold>\<open>The program.\<close> GRUB starts \<open>boot/boot.S\<close>, which loads static page tables, enters long mode and calls \<open>kmain\<close> (\<open>init/main.c\<close>). \<open>kmain\<close> sets up
  the serial port, the descriptor tables and the interrupt gates, copies the boot loader's information and searches it for the memory map and
  the framebuffer, prints a first message to the serial port and to the screen, and hands the memory map to \<open>init_memory\<close> (\<open>mm/mm.c\<close>). That picks
  a region for the boot allocator (\<open>mm/boot.c\<close>), from which the frame array of the buddy allocator (\<open>mm/pmm.c\<close>) is taken, and frees every usable frame
  that is neither kernel image nor boot memory. On the frames rest the pools of \<open>mm/pool.c\<close> (\<open>kmalloc\<close>, \<open>kfree\<close>) and the page tables of \<open>mm/vmm.c\<close>;
  on the pools the handler lists of \<open>kernel/interrupt.c\<close> and the address spaces of \<open>mm/vmm.c\<close>. Messages and panics go through
  \<open>rtl/snprintf.c\<close> to \<open>drivers/uart.c\<close> and \<open>drivers/fbcon.c\<close>.

  \<^bold>\<open>State and errors.\<close> Memory is a byte per 64-bit virtual address (\<open>mem\<close>), with little-endian loads and stores; C structures in memory are the offsets
  of their fields. The state of the memory managers is the record \<open>kernel\<close> (bytes, frame allocator, processor, the globals of \<open>pool.c\<close> and
  \<open>vmm.c\<close>), the state of everything is the record \<open>machine\<close>. A function returns \<open>Inr\<close> of its result and the new state, or \<open>Inl\<close> of \<open>Panic msg\<close> where the
  code panics, \<open>Fault\<close> where it leaves an array, follows a null list pointer of the frame allocator or where the processor faults, and \<open>Spin\<close> where it would
  loop for ever. Every integer has the width it has in C.

  \<^bold>\<open>Theories, in order.\<close>
  \<^item> \<open>Prelude\<close>: results, word arithmetic, the locale \<open>transition_system\<close> (a step relation with an invariant). \<open>Ktypes\<close>, \<open>Errno\<close>: constants
    and macros of \<open>types.h\<close> and \<open>mm.h\<close>.
  \<^item> \<open>Kmem\<close>: memory, \<open>memset\<close>, \<open>memcpy\<close>, \<open>zero_page\<close>; the locale \<open>word_memory\<close> (loads after stores), interpreted for 64 and 32 bits. \<open>Pages\<close>: pages of the direct map.
  \<^item> \<open>Boot_Alloc\<close>: \<open>mm/boot.c\<close>. \<open>Pmm\<close>: \<open>mm/pmm.c\<close>, its frame array as a function from frame numbers. \<open>Heap_List\<close>, \<open>Buddy\<close>: lists through next
    pointers and the arithmetic of buddies. \<open>Pmm_Inv\<close>, \<open>Pmm_Ops\<close>, \<open>Pmm_Init\<close>: the invariant, its preservation with total correctness of each operation, and
    initialisation. \<open>Pmm_Spec\<close>: the locale \<open>frame_allocator\<close>, the contract the pools and page tables use, interpreted on \<open>alloc_frames\<close> and
    \<open>free_frame\<close>; client calls as steps; the properties.
  \<^item> \<open>Pool\<close>: \<open>mm/pool.c\<close>. \<open>Pool_Spec\<close>: one pool as a list of blocks (length, in use). \<open>Pool_List\<close>: the linked pools, invariant \<open>kpool\<close>. \<open>Pool_Free\<close>: release. \<open>Pool_Thms\<close>:
    properties of single calls. \<open>Pool_Heap\<close>: the pools as a heap for clients (\<open>served\<close>), sequences of calls, what they keep.
  \<^item> \<open>Vmm\<close>: \<open>mm/vmm.c\<close>. \<open>Vmm_Spec\<close>: the abstract page map and the invariant of an address space. \<open>Vmm_Free\<close>: tearing down, sharing the kernel half. \<open>Vmm_Thms\<close>,
    \<open>Vmm_Space\<close>: properties; the latter of \<open>create_mm\<close>, over frames and pools together. \<open>Demo\<close>: a machine of four frames for the witnesses.
  \<^item> \<open>Boot_Tables\<close>: the page tables of \<open>boot.S\<close> under the processor's walk. \<open>Boot_Entry\<close>: its entry code, each instruction fetched through
    the translation of the moment, from protected mode to \<open>kmain\<close>. \<open>Asm\<close>, \<open>Entry_Stubs\<close>, \<open>Context\<close>: registers and instructions,
    \<open>kernel/asm.S\<close> and \<open>kernel/context.S\<close>.
  \<^item> \<open>Cpu\<close>: \<open>cpu.h\<close>; port reads are the environment's choice. \<open>Uart\<close>: \<open>drivers/uart.c\<close>. \<open>Gdt\<close>, \<open>Idt\<close>: \<open>cpu/gdt.c\<close>, \<open>cpu/idt.c\<close>, \<open>init_interrupt\<close>.
  \<^item> \<open>Snprintf\<close>: \<open>rtl/snprintf.c\<close>, the destination as a character per offset so that writes outside it show. \<open>Snprintf_Spec\<close>: the reference
    rendering \<open>render\<close> and the equivalence with it. \<open>Snprintf_Types\<close>: the types of the variable arguments, and type soundness.
  \<^item> \<open>Multiboot\<close>, \<open>Multiboot_Spec\<close>: \<open>multiboot2.h\<close> and the readers in \<open>main.c\<close>. \<open>Framebuffer\<close>, \<open>Framebuffer_Spec\<close>: \<open>drivers/framebuffer.c\<close> and the locale
    \<open>pixel_grid\<close>. \<open>Font\<close>, \<open>Fbcon\<close>, \<open>Fbcon_Spec\<close>: the console, and the ideal terminal it refines.
  \<^item> \<open>Init_Memory\<close>, \<open>Init_Memory_Spec\<close>: \<open>mm/mm.c\<close>. \<open>Console\<close>, \<open>Console_Spec\<close>: \<open>machine\<close>, \<open>kernel/kprintf.c\<close>, \<open>kernel/panic.c\<close>. \<open>Interrupt\<close>,
    \<open>Interrupt_Spec\<close>: dispatch and the handler lists. \<open>Kmain\<close>, \<open>Kmain_Spec\<close>: \<open>kmain\<close> and its start-up as a whole.
  \<^item> Composition. \<open>Interrupt_Path\<close>: a device interrupt through assembly, dispatch and back. \<open>Kernel_Run\<close>: sequences of calls to the frame allocator, the
    pools, \<open>connect_interrupt\<close> and \<open>kprintf\<close> on one machine, against the abstract \<open>view\<close> (registered handlers, screen, serial
    output); its locale interpretation \<open>running\<close>. \<open>Kernel_Start\<close>: \<open>kmain\<close> and \<open>init_pool\<close> reach a state of such runs.

  \<^bold>\<open>What is shown.\<close> Frames: every call keeps the buddy invariant, never faults, loses no frame and hands out disjoint blocks, in every reachable
  state. Pools: sound requests get data no one uses, nothing in use changes, requests that are not sound can overwrite the next page, and the
  address \<open>kmalloc\<close> returns is not one \<open>kfree\<close> accepts; requests next to \<open>2 ^ 64\<close> overflow and succeed. Page tables: mapping, unmapping, translation and creation refine an abstract page map; without a free frame \<open>map_page\<close> faults. Text:
  \<open>vsnprintf\<close> equals a reference rendering, stays in its buffer and returns from well-typed calls; the console refines an ideal terminal. Interrupts: the entry code and the C
  view of the trap frame agree, the interrupted code is resumed unchanged, handlers are asked in list order. Start-up: from a well-formed boot structure \<open>kmain\<close>
  reaches its idle loop with all of these set up; otherwise it reports and halts; \<open>boot.S\<close> brings the processor from the loader to \<open>kmain\<close> without a fault. Together: from start-up on, every sequence of allowed calls returns,
  keeps pools and handler lists well formed, and shows and sends exactly the messages printed, and an interrupt asks exactly the handlers registered.

  \<^bold>\<open>Bounds.\<close> \<open>find_block\<close> and the tag walk have \<open>2 ^ 64\<close> rounds of fuel and the pool loop \<open>2 ^ 65\<close>: a list without repetition in a 64-bit address space is
  shorter, so running out means a cycle, the result \<open>Spin\<close>. Searching a free list stops after as many frames as there are. Waiting for the serial
  port and walking a handler list are \<open>partial_function (option)\<close>: they may not end, and \<open>None\<close> says so; the properties state when they do.

  \<^bold>\<open>What is assumed.\<close> The properties of the pools and page tables bound physical memory by \<open>2 ^ 35\<close> frames, so that the direct map does not wrap; those of start-up ask for
  page-aligned usable regions, tags of at least 8 bytes, an 8-byte aligned information buffer and a serial port that becomes ready. Addresses the
  linker chooses (kernel image, tables, stubs) are arguments, as is what an interrupt handler does. The processor has long mode and pages of 1 GiB, which \<open>boot.S\<close>
  does not check.

  \<^bold>\<open>Memory.\<close> Every 64-bit address holds a byte. Loads and stores do not test that an address is mapped or canonical, with two exceptions: \<open>zero_page\<close>,
  whose argument may be \<open>INVALID_ADDRESS\<close>, faults on non-canonical addresses, and the entry code of \<open>boot.S\<close> translates every access. In the properties, what is read and
  written lies in pages the frame allocator gave out (\<open>page_ok\<close>, \<open>vm_inv\<close>, \<open>kpool\<close>), in the framebuffer, in the stack frame of an interrupt or in the buffers named, which the
  boot tables map; address 0 is mapped, so a null tag or pool is read like any other.

  \<^bold>\<open>Not modelled.\<close> Virtual aliasing: bytes are accessed by virtual address, and that two windows show the same physical byte is only stated for the boot
  tables. The frame array is state of its own, not bytes. A panic inside a step of \<open>kmain\<close> is run on the state in front of that step, which
  has the same serial port. Caches, the effect of \<open>hlt\<close>, nested interrupts and other processors are left out;
  \<open>outw\<close> and \<open>inw\<close> of \<open>cpu.h\<close> have no meaning to translate (their instructions do not take 16-bit operands) and nothing calls them. Build files, the linker
  script and shell scripts are not modelled.
\<close>

end
